(* ===== verification/Go_Prelude.thy ===== *)
theory Go_Prelude
  imports Main "HOL-Library.Word" "HOL-Library.Monad_Syntax" "HOL-Library.Log_Nat"
    "HOL-Library.Finite_Map" "HOL-Library.Multiset"
begin

section \<open>Shared vocabulary: Go values, slices and run-time panics\<close>

text \<open>
  The conventions every other theory of this development uses.

  \<^item> A Go function that may panic (index out of range, explicit \<open>panic\<close>, nil
    dereference) is a function into \<open>'a option\<close>; \<open>None\<close> is the panic. Steps are chained
    with the \<open>do\<close> notation of \<open>Monad_Syntax\<close>, so a panic in a step is a panic of the
    whole call.
  \<^item> A Go \<open>error\<close> result is a value of a sum or of a datatype of its own: an error is not
    a panic.
  \<^item> Machine integers whose wrap-around is visible are words of their width. The code is
    modelled for a 64-bit machine (\<open>uint\<close> and \<open>uintptr\<close> have 64 bits).
  \<^item> A slice that is not shared is a list. Reads and writes out of range panic
    (\<open>slice_get\<close>, \<open>slice_set\<close>); the capacity of a slice is not observable in the
    operations modelled here (\<open>Validate\<close> zeroes what it exposes).
\<close>

unbundle bit_operations_syntax

named_theorems panic_simps \<open>how the checked slice operations compute\<close>

type_synonym u8 = "8 word"
type_synonym u16 = "16 word"
type_synonym u32 = "32 word"
type_synonym u64 = "64 word"

subsection \<open>Slices\<close>

definition slice_get :: "'a list \<Rightarrow> nat \<Rightarrow> 'a option" where
  "slice_get xs i = (if i < length xs then Some (xs ! i) else None)"

definition slice_set :: "'a list \<Rightarrow> nat \<Rightarrow> 'a \<Rightarrow> 'a list option" where
  "slice_set xs i v = (if i < length xs then Some (xs[i := v]) else None)"

text \<open>\<open>Validate(i)\<close> of the generated vectors: make index \<open>i\<close> valid, new elements zero.\<close>

definition vec_validate :: "'a \<Rightarrow> nat \<Rightarrow> 'a list \<Rightarrow> 'a list" where
  "vec_validate zero i xs = xs @ replicate (Suc i - length xs) zero"

text \<open>A guard that panics when it fails.\<close>

definition panic_unless :: "bool \<Rightarrow> unit option" where
  "panic_unless b = (if b then Some () else None)"

lemma slice_get_eq_Some [panic_simps]:
  "slice_get xs i = Some v \<longleftrightarrow> i < length xs \<and> xs ! i = v"
  by (auto simp: slice_get_def)

lemma slice_get_eq_None [panic_simps]: "slice_get xs i = None \<longleftrightarrow> length xs \<le> i"
  by (auto simp: slice_get_def)

lemma slice_get_in [simp]: "i < length xs \<Longrightarrow> slice_get xs i = Some (xs ! i)"
  by (simp add: slice_get_def)

lemma slice_set_eq_Some [panic_simps]:
  "slice_set xs i v = Some ys \<longleftrightarrow> i < length xs \<and> ys = xs[i := v]"
  by (auto simp: slice_set_def)

lemma slice_set_in [simp]: "i < length xs \<Longrightarrow> slice_set xs i v = Some (xs[i := v])"
  by (simp add: slice_set_def)

lemma panic_unless_eq_Some [panic_simps]: "panic_unless b = Some u \<longleftrightarrow> b"
  by (simp add: panic_unless_def)

lemma panic_unless_True [simp]: "panic_unless True = Some ()"
  and panic_unless_False [simp]: "panic_unless False = None"
  by (simp_all add: panic_unless_def)

lemma length_vec_validate [simp]:
  "length (vec_validate z i xs) = max (length xs) (Suc i)"
  by (simp add: vec_validate_def)

lemma nth_vec_validate:
  "j < max (length xs) (Suc i) \<Longrightarrow>
     vec_validate z i xs ! j = (if j < length xs then xs ! j else z)"
  by (auto simp: vec_validate_def nth_append)

lemma vec_validate_id [simp]: "i < length xs \<Longrightarrow> vec_validate z i xs = xs"
  by (simp add: vec_validate_def)

lemma set_vec_validate: "set (vec_validate z i xs) \<subseteq> insert z (set xs)"
  by (auto simp: vec_validate_def)

subsection \<open>Words\<close>

text \<open>Single-bit masks stay in the form the code writes them in.\<close>

declare push_bit_of_1 [simp del]

lemma unat_u32_less: "unat (x :: u32) < 2 ^ 32"
  by (rule order.strict_trans2 [OF unsigned_less]) simp

lemma unat_u64_less: "unat (x :: u64) < 2 ^ 64"
  by (rule order.strict_trans2 [OF unsigned_less]) simp

lemma unat_u8_less: "unat (x :: u8) < 256"
  by (rule order.strict_trans2 [OF unsigned_less]) simp

lemma unat_u16_less: "unat (x :: u16) < 65536"
  by (rule order.strict_trans2 [OF unsigned_less]) simp

lemma unat_minus_1_32: "unat (- 1 :: u32) = 4294967295"
  by (simp add: unsigned_minus_1_eq_mask mask_eq_exp_minus_1)

text \<open>A little-endian load of up to eight bytes, as the machine does it.\<close>

fun load :: "u8 list \<Rightarrow> u64" where
  "load [] = 0"
| "load (b # bs) = ucast b + 256 * load bs"

lemma unat_load_less: "length bs \<le> 8 \<Longrightarrow> unat (load bs) < 256 ^ length bs \<and>
   (\<forall>b cs. bs = b # cs \<longrightarrow> unat (load bs) = unat b + 256 * unat (load cs))"
proof (induction bs)
  case (Cons b bs)
  have b: "unat (ucast b :: u64) = unat b" "unat b < 256"
    using unat_u8_less [of b] by (simp_all add: unsigned_ucast_eq take_bit_nat_eq_self)
  have l: "unat (load bs) < 256 ^ length bs" using Cons by simp
  have "(256::nat) ^ length bs \<le> 256 ^ 7" using Cons.prems by (intro power_increasing) auto
  then have small: "unat b + 256 * unat (load bs) < 2 ^ 64" using l b(2) by simp
  have "unat (load (b # bs)) = unat b + 256 * unat (load bs)"
    using small b(1) by (simp add: unat_word_ariths mod_simps)
  then show ?case using l b(2) by auto
qed simp

text \<open>The \<open>n\<close> low bytes of an integer, as a little-endian machine stores them.\<close>

fun le_bytes :: "nat \<Rightarrow> 'a::len word \<Rightarrow> u8 list" where
  "le_bytes 0 w = []"
| "le_bytes (Suc n) w = ucast w # le_bytes n (drop_bit 8 w)"

definition get_u16 :: "u8 list \<Rightarrow> nat \<Rightarrow> u16" where
  "get_u16 b i = ucast (load (take 2 (drop i b)))"

definition get_u32 :: "u8 list \<Rightarrow> nat \<Rightarrow> u32" where
  "get_u32 b i = ucast (load (take 4 (drop i b)))"

lemma length_le_bytes [simp]: "length (le_bytes n w) = n"
  by (induction n w rule: le_bytes.induct) auto

lemma get_u16_pair: "unat (get_u16 (x # y # r) 0) = unat x + 256 * unat y"
  using unat_load_less [of "[x, y]"] unat_load_less [of "[y]"] unat_u8_less [of x] unat_u8_less [of y]
  by (simp add: get_u16_def unsigned_ucast_eq take_bit_nat_eq_self_iff del: load.simps(2))

lemma le_bytes_2: "le_bytes 2 w = [ucast w, ucast (drop_bit 8 w)]"
  by (simp add: numeral_2_eq_2)

lemma get_u16_le [simp]: "get_u16 (le_bytes 2 w @ r) 0 = (w :: u16)"
proof -
  have "unat (get_u16 (le_bytes 2 w @ r) 0) = unat w mod 256 + 256 * (unat w div 256 mod 256)"
    by (simp add: le_bytes_2 get_u16_pair unsigned_ucast_eq take_bit_eq_mod unat_drop_bit_eq drop_bit_nat_def del: drop_bit_eq_div)
  also have "\<dots> = unat w" using unat_u16_less [of w] by (simp add: less_mult_imp_div_less)
  finally show ?thesis by (simp add: word_unat_eq_iff)
qed

lemma get_u16_drop: "get_u16 (drop k b) i = get_u16 b (k + i)"
  by (simp add: get_u16_def add.commute)

lemma le_bytes_4: "le_bytes 4 w = [ucast w, ucast (drop_bit 8 w), ucast (drop_bit 16 w), ucast (drop_bit 24 w)]"
  by (simp add: eval_nat_numeral)

lemma get_u32_quad: "unat (get_u32 (a # b # c # d # r) 0) = unat a + 256 * (unat b + 256 * (unat c + 256 * unat d))"
  using unat_load_less [of "[a, b, c, d]"] unat_load_less [of "[b, c, d]"] unat_load_less [of "[c, d]"]
    unat_load_less [of "[d]"] unat_u8_less [of a] unat_u8_less [of b] unat_u8_less [of c] unat_u8_less [of d]
  by (simp add: get_u32_def unsigned_ucast_eq take_bit_nat_eq_self_iff del: load.simps(2))

lemma get_u32_le [simp]: "get_u32 (le_bytes 4 w @ r) 0 = (w :: u32)"
proof -
  let ?u = "unat w"
  have e: "?u div 256 div 256 = ?u div 65536" "?u div 65536 div 256 = ?u div 16777216"
    by (simp_all add: div_mult2_eq [symmetric])
  have "unat (get_u32 (le_bytes 4 w @ r) 0) = ?u mod 256 + 256 * (?u div 256 mod 256 + 256 * (?u div 65536 mod 256 + 256 * (?u div 16777216 mod 256)))"
    by (simp add: le_bytes_4 get_u32_quad unsigned_ucast_eq take_bit_eq_mod unat_drop_bit_eq drop_bit_nat_def del: drop_bit_eq_div)
  also have "?u div 16777216 mod 256 = ?u div 16777216" using unat_u32_less [of w] by (simp add: less_mult_imp_div_less)
  also have "?u div 65536 mod 256 + 256 * (?u div 16777216) = ?u div 65536" by (simp add: e(2) [symmetric])
  also have "?u div 256 mod 256 + 256 * (?u div 65536) = ?u div 256" by (simp add: e(1) [symmetric])
  also have "?u mod 256 + 256 * (?u div 256) = ?u" by simp
  finally show ?thesis by (simp add: word_unat_eq_iff)
qed

lemma get_u32_drop: "get_u32 (drop k b) i = get_u32 b (k + i)"
  by (simp add: get_u32_def add.commute)

lemma get_at: "length xs = k \<Longrightarrow> get_u16 (xs @ r) k = get_u16 r 0" "length xs = k \<Longrightarrow> get_u32 (xs @ r) k = get_u32 r 0"
  using get_u16_drop [of k "xs @ r" 0] get_u32_drop [of k "xs @ r" 0] by simp_all

subsection \<open>Slices that share a backing array\<close>

text \<open>A slice of a slice may reach past its length up to the capacity: what lies behind is kept.\<close>

datatype slice = Slice (sback: "u8 list") (slen: nat)

definition sbytes :: "slice \<Rightarrow> u8 list" where
  "sbytes s = take (slen s) (sback s)"

definition sindex :: "slice \<Rightarrow> nat \<Rightarrow> u8 option" where
  "sindex s i = (if i < slen s then slice_get (sback s) i else None)"

definition reslice :: "slice \<Rightarrow> nat \<Rightarrow> nat \<Rightarrow> slice option" where
  "reslice s lo hi = (if lo \<le> hi \<and> hi \<le> length (sback s) then Some (Slice (drop lo (sback s)) (hi - lo)) else None)"

text \<open>The bytes of a string constant.\<close>

definition str :: "string \<Rightarrow> u8 list" where
  "str s = map (\<lambda>c. of_nat (of_char c)) s"

end
