(* ===== verification/Bits.thy ===== *)
theory Bits
  imports Go_Prelude
begin

section \<open>Machine words: elib/bits.go and elib/cap.go\<close>

text \<open>
  The bit tricks of the container library on the 64-bit \<open>Word\<close>: population count, leading
  zeros, lowest set bit, logarithms and rounding to powers of two, and the iteration over the
  set bits of a word; and the vector capacities of the form \<open>2^i + 2^j\<close>. Go's \<open>&^\<close>
  is \<open>AND NOT\<close>, its shifts by an unsigned count are \<open>push_bit\<close> and \<open>drop_bit\<close> (a
  count of 64 or more gives 0, as in Go).
\<close>

subsection \<open>Definitions\<close>

type_synonym gword = u64

definition Log2WordBits :: gword where
  "Log2WordBits = (let m = NOT 0 in
     3 + ((drop_bit 8 m AND 1) + (drop_bit 16 m AND 1) + (drop_bit 32 m AND 1)))"

definition WordBits :: gword where
  "WordBits = push_bit (unat Log2WordBits) 1"

definition BitmapIndex :: "gword \<Rightarrow> gword \<times> gword" where
  "BitmapIndex i = (i div WordBits, push_bit (unat (i mod WordBits)) 1)"

definition NSetBits :: "gword \<Rightarrow> u64" where
  "NSetBits y = (
     let x = y;
         x = (x AND 0x5555555555555555) + drop_bit 1 (x AND 0xAAAAAAAAAAAAAAAA);
         x = (x AND 0x3333333333333333) + drop_bit 2 (x AND 0xCCCCCCCCCCCCCCCC);
         x = (x AND 0x0F0F0F0F0F0F0F0F) + drop_bit 4 (x AND 0xF0F0F0F0F0F0F0F0);
         x = x * 0x0101010101010101
     in drop_bit 56 x AND 0xFF)"

text \<open>One halving of the search for the highest bit: \<open>y = x >> s; if y != 0 { n -= s; x = y }\<close>.\<close>

definition lz_step :: "nat \<Rightarrow> u64 \<times> gword \<Rightarrow> u64 \<times> gword" where
  "lz_step s nx = (case nx of (n, x) \<Rightarrow>
     let y = drop_bit s x in if y \<noteq> 0 then (n - of_nat s, y) else (n, x))"

definition NLeadingZeros :: "gword \<Rightarrow> u64" where
  "NLeadingZeros x0 = (
     let s = (WordBits, x0);
         s = (if WordBits > 32 then lz_step 32 s else s);
         (n, x) = lz_step 2 (lz_step 4 (lz_step 8 (lz_step 16 s)));
         y = drop_bit 1 x
     in if y \<noteq> 0 then n - 2 else n - x)"

definition FirstSet :: "gword \<Rightarrow> gword" where
  "FirstSet x = x AND - x"

definition IsPow2 :: "gword \<Rightarrow> bool" where
  "IsPow2 x \<longleftrightarrow> 0 = x AND (x - 1)"

definition RoundPow2 :: "gword \<Rightarrow> gword \<Rightarrow> gword" where
  "RoundPow2 x p = (x + p - 1) AND NOT (p - 1)"

definition MinLog2 :: "gword \<Rightarrow> u64" where
  "MinLog2 x = WordBits - 1 - NLeadingZeros x"

definition MaxLog2 :: "gword \<Rightarrow> u64" where
  "MaxLog2 x = (let l = MinLog2 x in if x > push_bit (unat l) 1 then l + 1 else l)"

definition MaxPow2 :: "gword \<Rightarrow> gword" where
  "MaxPow2 x = (let z = MinLog2 x; y = push_bit (unat z) 1 in if x > y then y + y else y)"

text \<open>The index result is Go's signed \<open>int\<close>.\<close>

definition NextSet :: "gword \<Rightarrow> gword \<times> int" where
  "NextSet x = (let f = x AND - x in (x XOR f, sint (WordBits - 1 - NLeadingZeros f)))"

subsection \<open>The constants\<close>

lemma Log2WordBits_eq [simp]: "Log2WordBits = 6"
  unfolding Log2WordBits_def Let_def by code_simp

lemma WordBits_eq [simp]: "WordBits = 64"
  by (simp add: WordBits_def push_bit_of_1)

subsection \<open>Leading zeros and logarithms\<close>

lemma unat_drop_bit_u64: "unat (drop_bit s x) = unat (x :: u64) div 2 ^ s"
  unfolding unat_drop_bit_eq by (rule drop_bit_eq_div)

lemma floorlog_div_pow2:
  assumes "2 ^ s \<le> x"
  shows "floorlog 2 (x div 2 ^ s) + s = floorlog 2 x"
  using assms
proof (induction s arbitrary: x)
  case 0
  then show ?case by simp
next
  case (Suc s)
  from Suc.prems have x: "0 < x" and s: "2 ^ s \<le> x div 2"
    by (auto intro: order.strict_trans2 [rotated])
  have "x div 2 ^ Suc s = x div 2 div 2 ^ s"
    by (simp add: div_mult2_eq)
  with Suc.IH [OF s] x show ?case
    by (simp add: compute_floorlog [of 2 x])
qed

text \<open>
  What the binary search keeps: \<open>x\<close> fits in \<open>w\<close> bits and the answer is \<open>n\<close> minus the
  number of bits of \<open>x\<close>.
\<close>

definition lz_inv :: "nat \<Rightarrow> gword \<Rightarrow> u64 \<times> gword \<Rightarrow> bool" where
  "lz_inv w x0 nx \<longleftrightarrow> (case nx of (n, x) \<Rightarrow>
     unat x < 2 ^ w \<and> w \<le> unat n \<and> unat n \<le> 64 \<and>
     unat n + floorlog 2 (unat x0) = 64 + floorlog 2 (unat x))"

lemma lz_step_inv:
  assumes inv: "lz_inv (2 * s) x0 nx" and s: "s \<le> 32"
  shows "lz_inv s x0 (lz_step s nx)"
proof (cases nx)
  case (Pair n x)
  from inv Pair have x: "unat x < 2 ^ (s + s)" and n: "2 * s \<le> unat n" "unat n \<le> 64"
    and e: "unat n + floorlog 2 (unat x0) = 64 + floorlog 2 (unat x)"
    by (auto simp: lz_inv_def mult_2)
  have y: "unat (drop_bit s x) = unat x div 2 ^ s" by (rule unat_drop_bit_u64)
  show ?thesis
  proof (cases "drop_bit s x = 0")
    case True
    then have "unat x div 2 ^ s = 0" using y by simp
    then have "unat x < 2 ^ s" by (simp add: div_eq_0_iff)
    with True Pair n e show ?thesis
      by (simp add: lz_inv_def lz_step_def)
  next
    case False
    then have "unat x div 2 ^ s \<noteq> 0" using y by (metis unat_eq_zero)
    then have le: "2 ^ s \<le> unat x" by (simp add: div_eq_0_iff)
    have "unat (of_nat s :: u64) = s"
      using s by (simp add: unat_of_nat)
    then have ns: "unat (n - of_nat s) = unat n - s"
      using n by (simp add: unat_sub word_le_nat_alt)
    have "unat x div 2 ^ s < 2 ^ s"
      using x by (simp add: power_add less_mult_imp_div_less)
    moreover have "unat n - s + floorlog 2 (unat x0) = 64 + floorlog 2 (unat x div 2 ^ s)"
      using floorlog_div_pow2 [OF le] e n by linarith
    moreover have "s \<le> unat n - s" "unat n - s \<le> 64" using n by linarith+
    ultimately show ?thesis using False Pair y ns
      by (simp add: lz_inv_def lz_step_def)
  qed
qed

lemma NLeadingZeros_floorlog: "unat (NLeadingZeros x) + floorlog 2 (unat x) = 64"
proof -
  have 0: "lz_inv (2 * 32) x (64, x)"
    using unat_u64_less [of x] by (simp add: lz_inv_def)
  have "lz_inv (2 * 1) x (lz_step 2 (lz_step 4 (lz_step 8 (lz_step 16 (lz_step 32 (64, x))))))"
    using lz_step_inv [OF 0] lz_step_inv [where s = 16] lz_step_inv [where s = 8]
      lz_step_inv [where s = 4] lz_step_inv [where s = 2] by simp
  then obtain n z where nz: "lz_step 2 (lz_step 4 (lz_step 8 (lz_step 16 (lz_step 32 (64, x))))) = (n, z)"
    and z: "unat z < 4" and n: "2 \<le> unat n"
    and e: "unat n + floorlog 2 (unat x) = 64 + floorlog 2 (unat z)"
    by (auto simp: lz_inv_def split: prod.splits)
  have y: "unat (drop_bit 1 z) = unat z div 2"
    using unat_drop_bit_u64 [of 1 z] by simp
  have lz: "NLeadingZeros x = (if drop_bit 1 z \<noteq> 0 then n - 2 else n - z)"
    using nz by (simp add: NLeadingZeros_def Let_def)
  show ?thesis
  proof (cases "drop_bit 1 z = 0")
    case True
    then have z1: "unat z < 2" using y by (simp add: div_eq_0_iff)
    then have "floorlog 2 (unat z) = unat z"
      by (cases "unat z") (auto simp: compute_floorlog [of 2 "Suc 0"] compute_floorlog [of 2 0])
    moreover have "unat (n - z) = unat n - unat z"
      using n z1 by (simp add: unat_sub word_le_nat_alt)
    ultimately show ?thesis using True lz e z1 n by simp
  next
    case False
    then have "unat z div 2 \<noteq> 0" using y by (metis unat_eq_zero)
    with z have d: "unat z div 2 = 1" and p: "0 < unat z" by auto
    then have "floorlog 2 (unat z) = 2"
      by (simp add: compute_floorlog [of 2 "unat z"] compute_floorlog [of 2 "Suc 0"] compute_floorlog [of 2 0])
    moreover have "unat (n - 2) = unat n - 2"
      using n by (simp add: unat_sub word_le_nat_alt)
    ultimately show ?thesis using False lz e n by simp
  qed
qed

lemma floorlog_pos: "x \<noteq> 0 \<Longrightarrow> 0 < floorlog 2 (x :: nat)"
  by (simp add: compute_floorlog)

lemma unat_MinLog2: "x \<noteq> 0 \<Longrightarrow> unat (MinLog2 x) = floorlog 2 (unat x) - 1"
proof -
  assume "x \<noteq> 0"
  then have "0 < floorlog 2 (unat x)" by (simp add: floorlog_pos unat_eq_zero)
  moreover have "floorlog 2 (unat x) = 64 - unat (NLeadingZeros x)"
    using NLeadingZeros_floorlog [of x] by simp
  moreover from calculation have "NLeadingZeros x \<le> 63"
    by (simp add: word_le_nat_alt)
  ultimately show ?thesis by (simp add: MinLog2_def unat_sub)
qed

lemma MinLog2_bounds:
  assumes "x \<noteq> 0"
  shows "2 ^ unat (MinLog2 x) \<le> unat x" and "unat x < 2 ^ Suc (unat (MinLog2 x))"
proof -
  have "0 < unat x" using assms by (simp add: unat_gt_0)
  from floorlog_bounds [OF this, of 2] floorlog_pos [of "unat x"] this
  show "2 ^ unat (MinLog2 x) \<le> unat x" "unat x < 2 ^ Suc (unat (MinLog2 x))"
    by (simp_all add: unat_MinLog2 [OF assms])
qed

lemma MinLog2_less_64: "x \<noteq> 0 \<Longrightarrow> unat (MinLog2 x) < 64"
  using MinLog2_bounds(1) [of x] unat_u64_less [of x]
  by (meson order.strict_trans1 one_less_numeral_iff power_less_imp_less_exp semiring_norm(76))

lemma unat_push_bit_1: "n < 64 \<Longrightarrow> unat (push_bit n 1 :: u64) = 2 ^ n"
  by (simp add: unsigned_push_bit_eq take_bit_push_bit del: push_bit_of_1)

text \<open>\<open>MinLog2\<close> of a single bit is its position.\<close>

lemma MinLog2_push_bit_1:
  assumes "i < 64"
  shows "unat (MinLog2 (push_bit i 1)) = i"
proof -
  let ?l = "unat (MinLog2 (push_bit i 1))"
  have nz: "(push_bit i 1 :: u64) \<noteq> 0"
    using unat_push_bit_1 [OF assms] by (metis power_not_zero unsigned_0 zero_neq_numeral)
  from MinLog2_bounds [OF this] unat_push_bit_1 [OF assms]
  have "(2::nat) ^ ?l \<le> 2 ^ i" and "(2::nat) ^ i < 2 ^ Suc ?l" by simp_all
  then have "?l \<le> i" and "i < Suc ?l"
    using power_le_imp_le_exp power_less_imp_less_exp by (metis one_less_numeral_iff semiring_norm(76))+
  then show ?thesis by simp
qed

subsection \<open>The lowest set bit\<close>

lemma ex_lowest_bit:
  assumes "(x :: gword) \<noteq> 0"
  obtains i where "i < 64" "bit x i" "\<forall>j < i. \<not> bit x j"
proof -
  from assms obtain n where "bit x n"
    by (metis bit_0_eq bit_eq_iff bot_apply bot_bool_def)
  then obtain i where i: "bit x i" "\<forall>j < i. \<not> bit x j"
    by (metis exists_least_iff)
  then have "i < 64" using bit_imp_le_length [OF i(1)] by simp
  with i show ?thesis by (intro that) auto
qed

text \<open>Subtracting one clears the lowest set bit and sets the bits below it.\<close>

lemma decr_lowest:
  assumes "bit x i" and low: "\<forall>j < i. \<not> bit (x :: gword) j"
  shows "x - 1 = (x AND NOT (mask (Suc i))) OR mask i"
proof -
  define y where "y = x AND NOT (mask (Suc i))"
  have i: "i < 64" using bit_imp_le_length [OF assms(1)] by simp
  have x: "x = y OR push_bit i 1"
    by (rule bit_word_eqI)
      (use assms i in \<open>auto simp: y_def bit_simps not_less less_Suc_eq_le dest: le_neq_implies_less\<close>)
  have d1: "y AND push_bit i 1 = 0" and d2: "y AND mask i = 0"
    by (rule bit_word_eqI, auto simp: y_def bit_simps)+
  have "x - 1 = y + (push_bit i 1 - 1)"
    using x d1 by (simp add: disjunctive_add_eq_or)
  also have "\<dots> = y OR mask i"
    using d2 by (simp add: disjunctive_add_eq_or mask_eq_exp_minus_1 push_bit_of_1)
  finally show ?thesis by (simp add: y_def)
qed

lemma bit_decr_lowest:
  assumes "bit x i" and low: "\<forall>j < i. \<not> bit (x :: gword) j" and "n < 64"
  shows "bit (x - 1) n \<longleftrightarrow> n < i \<or> i < n \<and> bit x n"
  using assms(3) unfolding decr_lowest [OF assms(1) low]
  by (auto simp: bit_simps)

lemma FirstSet_lowest:
  assumes "bit x i" and low: "\<forall>j < i. \<not> bit (x :: gword) j"
  shows "FirstSet x = push_bit i 1"
proof -
  have i: "i < 64" using bit_imp_le_length [OF assms(1)] by simp
  show ?thesis
    unfolding FirstSet_def minus_eq_not_minus_1
    by (rule bit_word_eqI) (use assms i bit_decr_lowest [OF assms] in
      \<open>auto simp: bit_and_iff bit_not_iff bit_push_bit_iff bit_1_iff dest: le_neq_implies_less\<close>)
qed

lemma and_decr_lowest:
  assumes "bit x i" and low: "\<forall>j < i. \<not> bit (x :: gword) j"
  shows "x AND (x - 1) = x XOR push_bit i 1"
proof -
  have i: "i < 64" using bit_imp_le_length [OF assms(1)] by simp
  show ?thesis
    by (rule bit_word_eqI) (use assms i bit_decr_lowest [OF assms] in
      \<open>auto simp: bit_and_iff bit_xor_iff bit_push_bit_iff bit_1_iff
        intro: linorder_neqE_nat dest: le_neq_implies_less\<close>)
qed

lemma bit_xor_lowest:
  "bit (x :: gword) i \<Longrightarrow> bit (x XOR push_bit i 1) n \<longleftrightarrow> bit x n \<and> n \<noteq> i"
  using bit_imp_le_length [of x] by (auto simp: bit_simps)

lemma xor_lowest_less:
  assumes "bit (x :: gword) i"
  shows "unat (x XOR push_bit i 1) < unat x"
proof -
  let ?v = "x XOR push_bit i 1"
  have i: "i < 64" using bit_imp_le_length [OF assms] by simp
  have "?v AND push_bit i 1 = 0"
    by (rule bit_word_eqI) (use assms in \<open>auto simp: bit_simps\<close>)
  moreover have "?v OR push_bit i 1 = x"
    by (rule bit_word_eqI) (use assms in \<open>auto simp: bit_simps\<close>)
  ultimately have x: "x = ?v + push_bit i 1"
    by (metis disjunctive_add_eq_or)
  have "?v \<le> x"
    by (metis \<open>?v OR push_bit i 1 = x\<close> le_word_or2 or.commute)
  moreover have "?v \<noteq> x"
  proof
    assume "?v = x"
    then have "bit ?v i" using assms by simp
    with assms show False by (simp add: bit_xor_lowest)
  qed
  ultimately show ?thesis by (simp add: word_less_nat_alt [symmetric])
qed

text \<open>
  \<open>ForeachSetBit\<close> calls its argument on the bits it finds, in the order found; the model
  returns the list of the indices it calls it with.
\<close>

function ForeachSetBit :: "gword \<Rightarrow> u64 list" where
  "ForeachSetBit x =
     (if x \<noteq> 0
      then let f = FirstSet x; i = MinLog2 f in i # ForeachSetBit (x XOR f)
      else [])"
  by pat_completeness auto
termination
proof (relation "measure unat")
  fix x f i :: u64
  assume "x \<noteq> 0" and f: "f = FirstSet x"
  then obtain i where "bit x i" "\<forall>j < i. \<not> bit x j"
    by (metis ex_lowest_bit)
  then show "(x XOR f, x) \<in> measure unat"
    using f FirstSet_lowest xor_lowest_less by simp
qed simp

declare ForeachSetBit.simps [simp del]

lemma ForeachSetBit_0 [simp]: "ForeachSetBit 0 = []"
  by (simp add: ForeachSetBit.simps [of 0])

lemma upt_64_split: "i < 64 \<Longrightarrow> [0..<64] = [0..<i] @ i # [Suc i..<64]"
  using upt_add_eq_append [of 0 i "64 - i"] upt_conv_Cons [of i 64] by simp

lemma ForeachSetBit_filter: "map unat (ForeachSetBit x) = filter (bit x) [0..<64]"
proof (induction x rule: ForeachSetBit.induct)
  case (1 x)
  show ?case
  proof (cases "x = 0")
    case True
    then show ?thesis by simp
  next
    case False
    then obtain i where i: "i < 64" "bit x i" and low: "\<forall>j < i. \<not> bit x j"
      using ex_lowest_bit by blast
    note f = FirstSet_lowest [OF i(2) low]
    have "map unat (ForeachSetBit x) = i # map unat (ForeachSetBit (x XOR push_bit i 1))"
      using False f MinLog2_push_bit_1 [OF i(1)] by (simp add: ForeachSetBit.simps [of x] Let_def)
    also have "\<dots> = i # filter (bit (x XOR push_bit i 1)) [0..<64]"
      using "1.IH" [OF False refl refl] f by simp
    also have "\<dots> = filter (bit x) [0..<64]"
      using i low by (auto simp: upt_64_split [OF i(1)] bit_xor_lowest [OF i(2)]
        intro!: filter_cong filter_False)
    finally show ?thesis .
  qed
qed

text \<open>
  \<open>NextSet\<close> splits off the lowest set bit: its index, and the word without it. On the zero
  word the index is the signed reading of \<open>63 - 64\<close>, that is -1.
\<close>

lemma sint_small:
  assumes "unat (w :: u64) < 2 ^ 63"
  shows "sint w = int (unat w)"
proof -
  have "int (unat w) < int (2 ^ 63)" using assms by (simp only: of_nat_less_iff)
  then have "uint w < 2 ^ 63" by simp
  moreover have "- (2 ^ 63) \<le> uint w" by (rule order.trans [OF _ uint_ge_0]) simp
  ultimately show ?thesis by (simp add: sint_uint signed_take_bit_int_eq_self)
qed

lemma NextSet_nonzero:
  assumes "bit x i" "\<forall>j < i. \<not> bit (x :: gword) j"
  shows "NextSet x = (x XOR push_bit i 1, int i)"
proof -
  have i: "i < 64" using bit_imp_le_length [OF assms(1)] by simp
  have "unat (MinLog2 (push_bit i 1)) < 2 ^ 63"
    unfolding MinLog2_push_bit_1 [OF i] by (rule order.strict_trans [OF i]) simp
  from sint_small [OF this] have "sint (MinLog2 (push_bit i 1)) = int i"
    unfolding MinLog2_push_bit_1 [OF i] .
  then show ?thesis
    using FirstSet_lowest [OF assms] unfolding FirstSet_def
    by (simp add: NextSet_def MinLog2_def Let_def)
qed

lemma NextSet_0: "NextSet 0 = (0, -1)"
  unfolding NextSet_def by code_simp

subsection \<open>Population count\<close>

text \<open>
  The parallel count works on a word seen as a list of \<open>w\<close>-bit fields, least significant
  first: \<open>fields_val\<close> is the value of such a list, \<open>pair_sums\<close> what one round does.
\<close>

fun fields_val :: "nat \<Rightarrow> nat list \<Rightarrow> nat" where
  "fields_val w [] = 0"
| "fields_val w (d # ds) = d + 2 ^ w * fields_val w ds"

fun pair_sums :: "nat list \<Rightarrow> nat list" where
  "pair_sums (d # e # ds) = (d + e) # pair_sums ds"
| "pair_sums ds = ds"

fun alternate :: "nat \<Rightarrow> nat \<Rightarrow> nat \<Rightarrow> nat list" where
  "alternate a b 0 = []"
| "alternate a b (Suc n) = a # b # alternate a b n"

lemma and_field_step:
  assumes "d < 2 ^ w" "m < 2 ^ w"
  shows "(d + 2 ^ w * a) AND (m + 2 ^ w * b) = (d AND m) + 2 ^ w * (a AND b :: nat)"
proof -
  have nb: "\<not> bit x n" if "x < 2 ^ w" "w \<le> n" for x n :: nat
    using that by (metis bit_take_bit_iff leD take_bit_nat_eq_self_iff)
  have or: "x + 2 ^ w * y = x OR push_bit w y" if "x < 2 ^ w" for x y :: nat
  proof -
    have "x AND push_bit w y = 0"
      by (rule bit_eqI) (use that in \<open>auto simp: bit_simps dest: nb\<close>)
    then show ?thesis
      by (simp add: push_bit_eq_mult mult.commute disjunctive_add_eq_or [symmetric])
  qed
  have dm: "d AND m < 2 ^ w"
    using assms by (metis take_bit_and take_bit_nat_eq_self_iff)
  show ?thesis
    unfolding or [OF assms(1)] or [OF assms(2)] or [OF dm]
    by (rule bit_eqI) (use assms in \<open>auto simp: bit_simps dest: nb\<close>)
qed

lemma fields_val_less: "\<forall>d \<in> set ds. d < 2 ^ w \<Longrightarrow> fields_val w ds < 2 ^ (w * length ds)"
proof (induction ds)
  case Nil
  then show ?case by simp
next
  case (Cons d ds)
  then have "d + 2 ^ w * fields_val w ds < 2 ^ w + 2 ^ w * fields_val w ds" by simp
  also have "\<dots> = 2 ^ w * Suc (fields_val w ds)" by simp
  also have "\<dots> \<le> 2 ^ w * 2 ^ (w * length ds)"
    using Cons by (intro mult_le_mono2) (simp add: Suc_le_eq)
  finally show ?case by (simp add: power_add)
qed

text \<open>One round, on naturals: keep the even fields, add the odd ones shifted down.\<close>

lemma pair_sums_round:
  assumes "\<forall>d \<in> set ds. d < 2 ^ w" and "length ds = 2 * n"
  shows "(fields_val w ds AND fields_val w (alternate (mask w) 0 n)) +
    (fields_val w ds AND fields_val w (alternate 0 (mask w) n)) div 2 ^ w
    = fields_val (2 * w) (pair_sums ds)"
  using assms
proof (induction n arbitrary: ds)
  case 0
  then show ?case by simp
next
  case (Suc n)
  then obtain d e es where ds: "ds = d # e # es" "length es = 2 * n"
    by (metis Suc_length_conv mult_Suc_right add_2_eq_Suc)
  have k: "x AND mask w = x" if "x < 2 ^ w" for x :: nat
    using that by (metis take_bit_eq_mask take_bit_nat_eq_self)
  have p: "(2::nat) ^ (w * 2) = 2 ^ w * 2 ^ w" by (simp add: mult_2_right power_add)
  have m: "mask w < (2::nat) ^ w" by (simp add: mask_eq_exp_minus_1)
  have de: "d < 2 ^ w" "e < 2 ^ w" using Suc.prems ds by auto
  let ?E = "fields_val w es AND fields_val w (alternate (mask w) 0 n)"
  let ?O = "fields_val w es AND fields_val w (alternate 0 (mask w) n)"
  have even: "fields_val w ds AND fields_val w (alternate (mask w) 0 (Suc n)) = d + 2 ^ (2 * w) * ?E"
    using de m by (simp add: ds and_field_step [of _ w 0, simplified] and_field_step k mult_2 power_add)
  have odd: "fields_val w ds AND fields_val w (alternate 0 (mask w) (Suc n)) = 2 ^ w * (e + 2 ^ w * ?O)"
    using de m by (simp add: ds and_field_step [of _ w 0, simplified] and_field_step k)
  have o: "\<exists>r. ?O = 2 ^ w * r"
  proof (cases n)
    case 0
    then show ?thesis by (intro exI [of _ 0]) simp
  next
    case (Suc m)
    with ds Suc.prems obtain d' e' es' where "es = d' # e' # es'" "d' < 2 ^ w" 
      by (cases es rule: pair_sums.cases) auto
    with Suc show ?thesis
      by (auto simp: and_field_step [of _ w 0, simplified])
  qed
  then obtain r where r: "?O = 2 ^ w * r" ..
  have "fields_val (2 * w) (pair_sums es) = ?E + ?O div 2 ^ w"
    using Suc.IH [of es] Suc.prems ds by simp
  then show ?case
    unfolding even odd using r
    by (simp add: ds p algebra_simps)
qed

lemma pair_sums_props:
  "length ds = 2 * n \<Longrightarrow> length (pair_sums ds) = n"
  "sum_list (pair_sums ds) = sum_list ds"
  "\<forall>d \<in> set ds. d \<le> k \<Longrightarrow> \<forall>d \<in> set (pair_sums ds). d \<le> 2 * k"
proof -
  show "length ds = 2 * n \<Longrightarrow> length (pair_sums ds) = n"
  proof (induction ds arbitrary: n rule: pair_sums.induct)
    case (1 d e ds)
    then show ?case by (cases n) auto
  qed auto
  show "sum_list (pair_sums ds) = sum_list ds"
    by (induction ds rule: pair_sums.induct) auto
  show "\<forall>d \<in> set ds. d \<le> k \<Longrightarrow> \<forall>d \<in> set (pair_sums ds). d \<le> 2 * k"
    by (induction ds rule: pair_sums.induct) auto
qed

text \<open>The same round on words, as the code writes it.\<close>

lemma NSetBits_round:
  fixes x M M' :: u64
  assumes x: "unat x = fields_val w ds" and small: "\<forall>d \<in> set ds. d < 2 ^ w"
    and len: "length ds = 2 * n" and w: "2 * w * n = 64"
    and M: "unat M = fields_val w (alternate (mask w) 0 n)"
    and M': "unat M' = fields_val w (alternate 0 (mask w) n)"
    and sums: "\<forall>d \<in> set (pair_sums ds). d < 2 ^ (2 * w)"
  shows "unat ((x AND M) + drop_bit w (x AND M')) = fields_val (2 * w) (pair_sums ds)"
proof -
  have "unat (x AND M) + unat (drop_bit w (x AND M')) = fields_val (2 * w) (pair_sums ds)"
    unfolding unat_drop_bit_u64 unsigned_and_eq x M M'
    by (rule pair_sums_round [OF small len])
  moreover have "fields_val (2 * w) (pair_sums ds) < 2 ^ 64"
    using fields_val_less [OF sums] unfolding pair_sums_props(1) [OF len] w .
  ultimately show ?thesis
    by (simp add: unat_word_ariths)
qed

lemma unat_fields: "unat (x :: u64) = fields_val 1 (map (\<lambda>i. of_bool (bit x i)) [0..<64])"
proof -
  have h: "fields_val 1 (map of_bool bs) = horner_sum of_bool 2 bs" for bs
    by (induction bs) auto
  have "unat x = horner_sum of_bool 2 (map (bit (unat x)) [0..<64])"
    using unat_u64_less [of x] by (simp add: horner_sum_bit_eq_take_bit take_bit_nat_eq_self)
  moreover have "map (bit (unat x)) [0..<64] = map (bit x) [0..<64]"
    by (simp add: bit_simps)
  ultimately show ?thesis using h [of "map (bit x) [0..<64]"] by (simp add: comp_def)
qed

text \<open>The multiplication adds all eight byte fields in the top byte.\<close>

lemma byte_sum:
  assumes "length ds = 8" "sum_list ds \<le> 64"
  shows "fields_val 8 ds * 0x0101010101010101 mod 2 ^ 64 div 2 ^ 56 = sum_list ds"
proof -
  from assms(1) obtain a b c d e f g h where ds: "ds = [a, b, c, d, e, f, g, h]"
    by (auto simp: numeral_eq_Suc length_Suc_conv)
  define L where "L = a + 2^8 * (a+b) + 2^16 * (a+b+c) + 2^24 * (a+b+c+d)
    + 2^32 * (a+b+c+d+e) + 2^40 * (a+b+c+d+e+f) + 2^48 * (a+b+c+d+e+f+g)"
  define R where "R = (b+c+d+e+f+g+h) + 2^8 * (c+d+e+f+g+h) + 2^16 * (d+e+f+g+h)
    + 2^24 * (e+f+g+h) + 2^32 * (f+g+h) + 2^40 * (g+h) + 2^48 * h"
  have s: "a+b+c+d+e+f+g+h \<le> 64" using assms(2) by (simp add: ds)
  have e: "fields_val 8 ds * 0x0101010101010101 = L + 2^56 * sum_list ds + 2^64 * R"
    by (simp add: ds L_def R_def)
  have L: "L < 2 ^ 56" using assms(2) unfolding L_def by (simp add: ds)
  have "L + 2^56 * sum_list ds < 2 ^ 64" using L assms(2) by simp
  then have "(L + 2^56 * sum_list ds + 2^64 * R) mod 2 ^ 64 = L + 2^56 * sum_list ds"
    by (simp only: mod_mult_self2 mod_less)
  with L show ?thesis unfolding e by simp
qed

lemma alternate_numeral:
  "alternate a b (numeral k) = a # b # alternate a b (pred_numeral k)"
  by (simp add: numeral_eq_Suc)

lemma NSetBits_masks:
  "unat (0x5555555555555555 :: u64) = fields_val 1 (alternate (mask 1) 0 32)"
  "unat (0xAAAAAAAAAAAAAAAA :: u64) = fields_val 1 (alternate 0 (mask 1) 32)"
  "unat (0x3333333333333333 :: u64) = fields_val 2 (alternate (mask 2) 0 16)"
  "unat (0xCCCCCCCCCCCCCCCC :: u64) = fields_val 2 (alternate 0 (mask 2) 16)"
  "unat (0x0F0F0F0F0F0F0F0F :: u64) = fields_val 4 (alternate (mask 4) 0 8)"
  "unat (0xF0F0F0F0F0F0F0F0 :: u64) = fields_val 4 (alternate 0 (mask 4) 8)"
  by (simp_all add: alternate_numeral mask_eq_exp_minus_1)

lemma sum_list_of_bool_map: "(\<Sum>i\<leftarrow>xs. of_bool (P i)) = length (filter P xs)"
  by (induction xs) auto

lemma and_0xFF: "unat v \<le> 64 \<Longrightarrow> v AND 0xFF = (v :: u64)"
proof -
  assume "unat v \<le> 64"
  then have "take_bit 8 (unat v) = unat v" by (simp add: take_bit_nat_eq_self)
  then have "take_bit 8 v = v" by (simp only: word_unat_eq_iff unsigned_take_bit_eq)
  then show ?thesis by (simp add: take_bit_eq_mask mask_eq_exp_minus_1)
qed

lemma NSetBits_count: "unat (NSetBits x) = length (filter (bit x) [0..<64])"
proof -
  define d1 where "d1 = map (\<lambda>i. of_bool (bit x i) :: nat) [0..<64]"
  define d2 where "d2 = pair_sums d1"
  define d4 where "d4 = pair_sums d2"
  define d8 where "d8 = pair_sums d4"
  have l1: "length d1 = 2 * 32" unfolding d1_def length_map length_upt by simp
  then have l2: "length d2 = 2 * 16" unfolding d2_def by (intro pair_sums_props(1)) simp
  then have l4: "length d4 = 2 * 8" unfolding d4_def by (intro pair_sums_props(1)) simp
  then have l8: "length d8 = 8" unfolding d8_def by (rule pair_sums_props(1))
  have b1: "\<forall>d \<in> set d1. d \<le> 1" unfolding d1_def by auto
  have b2: "\<forall>d \<in> set d2. d \<le> 2 * 1" unfolding d2_def by (rule pair_sums_props(3) [OF b1])
  have b4: "\<forall>d \<in> set d4. d \<le> 2 * (2 * 1)" unfolding d4_def by (rule pair_sums_props(3) [OF b2])
  have b8: "\<forall>d \<in> set d8. d \<le> 2 * (2 * (2 * 1))" unfolding d8_def by (rule pair_sums_props(3) [OF b4])
  define x2 where "x2 = (x AND 0x5555555555555555) + drop_bit 1 (x AND 0xAAAAAAAAAAAAAAAA)"
  define x4 where "x4 = (x2 AND 0x3333333333333333) + drop_bit 2 (x2 AND 0xCCCCCCCCCCCCCCCC)"
  define x8 where "x8 = (x4 AND 0x0F0F0F0F0F0F0F0F) + drop_bit 4 (x4 AND 0xF0F0F0F0F0F0F0F0)"
  have x2: "unat x2 = fields_val (2 * 1) d2"
    unfolding x2_def d2_def
  proof (rule NSetBits_round [OF _ _ l1 _ NSetBits_masks(1,2)])
    show "unat x = fields_val 1 d1" unfolding d1_def by (rule unat_fields)
    show "\<forall>d \<in> set d1. d < 2 ^ 1" using b1 by fastforce
    show "\<forall>d \<in> set (pair_sums d1). d < 2 ^ (2 * 1)" using b2 unfolding d2_def [symmetric] by fastforce
  qed simp
  have x4: "unat x4 = fields_val (2 * 2) d4"
    unfolding x4_def d4_def
  proof (rule NSetBits_round [OF _ _ l2 _ NSetBits_masks(3,4)])
    show "unat x2 = fields_val 2 d2" using x2 by simp
    show "\<forall>d \<in> set d2. d < 2 ^ 2" using b2 b4 by fastforce
    show "\<forall>d \<in> set (pair_sums d2). d < 2 ^ (2 * 2)" using b4 unfolding d4_def [symmetric] by fastforce
  qed simp
  have x8: "unat x8 = fields_val (2 * 4) d8"
    unfolding x8_def d8_def
  proof (rule NSetBits_round [OF _ _ l4 _ NSetBits_masks(5,6)])
    show "unat x4 = fields_val 4 d4" using x4 by simp
    show "\<forall>d \<in> set d4. d < 2 ^ 4" using b2 b4 by fastforce
    show "\<forall>d \<in> set (pair_sums d4). d < 2 ^ (2 * 4)" using b8 unfolding d8_def [symmetric] by fastforce
  qed simp
  have s: "sum_list d8 = sum_list d1"
    by (simp add: d2_def d4_def d8_def pair_sums_props(2))
  also have c: "\<dots> = length (filter (bit x) [0..<64])"
    unfolding d1_def by (simp only: sum_list_of_bool_map)
  finally have s: "sum_list d8 = length (filter (bit x) [0..<64])" .
  then have le: "sum_list d8 \<le> 64"
    by (metis diff_zero length_filter_le length_upt)
  have "unat (drop_bit 56 (x8 * 0x0101010101010101)) = sum_list d8"
    using byte_sum [OF l8 le] x8 by (simp add: unat_drop_bit_u64 unat_word_ariths)
  with and_0xFF have "unat (drop_bit 56 (x8 * 0x0101010101010101) AND 0xFF) = sum_list d8"
    using le by metis
  then show ?thesis
    unfolding NSetBits_def Let_def x2_def x4_def x8_def s .
qed

subsection \<open>Powers of two\<close>

lemma xor_eq_0_iff: "0 = x XOR y \<longleftrightarrow> x = (y :: gword)"
proof
  assume "0 = x XOR y"
  then have "x = x XOR (x XOR y)" by simp
  also have "\<dots> = y" unfolding xor.assoc [symmetric] by simp
  finally show "x = y" .
qed simp

lemma IsPow2_iff: "IsPow2 x \<longleftrightarrow> x = 0 \<or> (\<exists>k < 64. x = push_bit k 1)"
proof (cases "x = 0")
  case True
  then show ?thesis by (simp add: IsPow2_def)
next
  case False
  then obtain i where i: "i < 64" "bit x i" and low: "\<forall>j < i. \<not> bit x j"
    using ex_lowest_bit by blast
  have p: "IsPow2 x \<longleftrightarrow> x = push_bit i 1"
    unfolding IsPow2_def and_decr_lowest [OF i(2) low] by (rule xor_eq_0_iff)
  moreover have "k = i" if "k < 64" "x = push_bit k 1" for k
    using that i(2) by (simp add: bit_simps)
  ultimately show ?thesis using False i(1) by metis
qed

lemma unat_and_not_mask: "unat (x AND NOT (mask k) :: u64) = 2 ^ k * (unat x div 2 ^ k)"
proof -
  have "x = (x AND NOT (mask k)) + (x AND mask k)"
    by (subst disjunctive_add_eq_or) (auto intro!: bit_word_eqI simp: bit_simps)
  moreover have "(x AND NOT (mask k)) \<le> x" by (rule word_and_le2)
  ultimately have "unat (x AND mask k) = unat x - unat (x AND NOT (mask k))"
    by (metis add_diff_cancel_left' unat_sub)
  moreover have "unat (x AND mask k) = unat x mod 2 ^ k"
    unfolding take_bit_eq_mask [symmetric] unsigned_take_bit_eq by (rule take_bit_eq_mod)
  moreover have "unat (x AND NOT (mask k)) \<le> unat x"
    using word_and_le2 word_le_nat_alt by blast
  ultimately show ?thesis by (simp add: minus_mod_eq_mult_div [symmetric])
qed

text \<open>Rounding up to a multiple of \<open>2^k\<close>, when the addition does not wrap.\<close>

lemma unat_RoundPow2:
  assumes "k < 64" and "unat x + 2 ^ k \<le> 2 ^ 64"
  shows "unat (RoundPow2 x (push_bit k 1)) = 2 ^ k * ((unat x + (2 ^ k - 1)) div 2 ^ k)"
proof -
  have "(1 :: u64) \<le> push_bit k 1"
    using unat_push_bit_1 [OF assms(1)] by (simp add: word_le_nat_alt)
  then have p: "unat (push_bit k 1 - 1 :: u64) = 2 ^ k - 1"
    using unat_push_bit_1 [OF assms(1)] by (simp add: unat_sub)
  have "unat x + (2 ^ k - 1) < 2 ^ 64"
    using assms(2) by (simp add: less_le_trans)
  then have "unat (x + (push_bit k 1 - 1)) = unat x + (2 ^ k - 1)"
    using p by (simp add: unat_word_ariths)
  then show ?thesis
    by (simp add: RoundPow2_def mask_eq_exp_minus_1 [symmetric] push_bit_of_1
      unat_and_not_mask add_diff_eq [symmetric])
qed

lemma unat_MaxLog2:
  assumes x: "x \<noteq> 0"
  shows "unat (MaxLog2 x) = (if unat x = 2 ^ unat (MinLog2 x) then unat (MinLog2 x)
    else Suc (unat (MinLog2 x)))"
proof -
  have "unat (MinLog2 x + 1) = Suc (unat (MinLog2 x))"
    using MinLog2_less_64 [OF x] by (simp add: unat_word_ariths)
  moreover have "x > push_bit (unat (MinLog2 x)) 1 \<longleftrightarrow> unat x \<noteq> 2 ^ unat (MinLog2 x)"
    using MinLog2_bounds(1) [OF x] unat_push_bit_1 [OF MinLog2_less_64 [OF x]]
    by (auto simp: word_less_nat_alt)
  ultimately show ?thesis by (simp add: MaxLog2_def Let_def)
qed

lemma MaxLog2_bounds:
  assumes "x \<noteq> 0"
  shows "unat x \<le> 2 ^ unat (MaxLog2 x)" and "2 ^ unat (MaxLog2 x) < 2 * unat x"
  using MinLog2_bounds [OF assms] by (auto simp: unat_MaxLog2 [OF assms])

lemma MaxPow2_MaxLog2:
  assumes x: "x \<noteq> 0" and le: "unat x \<le> 2 ^ 63"
  shows "unat (MaxPow2 x) = 2 ^ unat (MaxLog2 x)"
proof -
  let ?l = "unat (MinLog2 x)"
  note l = MinLog2_less_64 [OF x]
  note b = MinLog2_bounds [OF x] and p = unat_push_bit_1 [OF l]
  show ?thesis
  proof (cases "unat x = 2 ^ ?l")
    case True
    then show ?thesis
      using p by (simp add: MaxPow2_def unat_MaxLog2 [OF x] Let_def word_less_nat_alt)
  next
    case False
    with b(1) le have "(2::nat) ^ ?l < 2 ^ 63" by linarith
    then have "(2::nat) * 2 ^ ?l < 2 ^ 64" by simp
    then have "unat (push_bit ?l 1 + push_bit ?l 1 :: u64) = 2 ^ Suc ?l"
      using p by (simp add: unat_word_ariths)
    with False b(1) p show ?thesis
      by (simp add: MaxPow2_def unat_MaxLog2 [OF x] Let_def word_less_nat_alt)
  qed
qed

subsection \<open>Vector capacities (elib/cap.go)\<close>

definition CapNil :: u64 where
  "CapNil = NOT 0"

definition Cap_IsValid :: "u64 \<Rightarrow> bool" where
  "Cap_IsValid c = (let f = c AND - c; c = c XOR f in 0 = c AND (c - 1))"

definition Cap_Round :: "u64 \<Rightarrow> u64 \<Rightarrow> u64" where
  "Cap_Round n log2Unit = (
     let u = push_bit (unat log2Unit) 1 - 1;
         w = (n + u) AND NOT u
     in if w AND (w - 1) \<noteq> 0
        then let l0 = MinLog2 w; m0 = push_bit (unat l0) 1; l1 = MaxLog2 (w XOR m0)
             in m0 + push_bit (unat l1) 1
        else w)"

definition Cap_Pow2 :: "u64 \<Rightarrow> u64 \<times> u64" where
  "Cap_Pow2 c = (let j = c AND - c; i = c XOR j in if i = 0 then (j, CapNil) else (i, j))"

definition Cap_Log2 :: "u64 \<Rightarrow> u64 \<times> u64" where
  "Cap_Log2 c = (let (i, j) = Cap_Pow2 c; i = MinLog2 i
     in (i, if j \<noteq> CapNil then MinLog2 j else j))"

lemma unat_xor_highest:
  assumes x: "x \<noteq> 0"
  shows "unat (x XOR push_bit (unat (MinLog2 x)) 1) = unat x - 2 ^ unat (MinLog2 x)"
proof -
  let ?l = "unat (MinLog2 x)" and ?v = "x XOR push_bit (unat (MinLog2 x)) 1"
  have l: "?l < 64" by (rule MinLog2_less_64 [OF x])
  have "unat x div 2 ^ ?l = 1"
    using MinLog2_bounds [OF x] by (intro div_nat_eqI) simp_all
  then have "bit (unat x) ?l" by (simp add: bit_iff_odd)
  then have b: "bit x ?l" by (simp add: bit_unsigned_iff)
  have "?v AND push_bit ?l 1 = 0"
    by (rule bit_word_eqI) (use b in \<open>auto simp: bit_simps\<close>)
  moreover have "?v OR push_bit ?l 1 = x"
    by (rule bit_word_eqI) (use b in \<open>auto simp: bit_simps\<close>)
  ultimately have "x = ?v + push_bit ?l 1" by (metis disjunctive_add_eq_or)
  then have "?v = x - push_bit ?l 1" by (metis add_diff_cancel_right')
  then show ?thesis
    using MinLog2_bounds(1) [OF x] unat_push_bit_1 [OF l]
    by (simp add: unat_sub word_le_nat_alt)
qed

lemma Cap_IsValid_add:
  assumes "j \<le> i" "i < 63"
  shows "Cap_IsValid (push_bit i 1 + push_bit j 1)"
proof (cases "i = j")
  case True
  then have "push_bit i 1 + push_bit j 1 = (push_bit (Suc i) 1 :: u64)"
    by (simp add: push_bit_of_1)
  moreover have "\<forall>k < Suc i. \<not> bit (push_bit (Suc i) 1 :: u64) k" and "bit (push_bit (Suc i) 1 :: u64) (Suc i)"
    using assms by (auto simp: bit_simps)
  ultimately show ?thesis
    using FirstSet_lowest [of "push_bit (Suc i) 1" "Suc i"] by (simp add: Cap_IsValid_def FirstSet_def)
next
  case False
  let ?x = "push_bit i 1 + push_bit j 1 :: u64"
  have or: "?x = push_bit i 1 OR push_bit j 1"
    by (rule disjunctive_add_eq_or, rule bit_word_eqI) (use False in \<open>auto simp: bit_simps\<close>)
  have "bit ?x j" "\<forall>k < j. \<not> bit ?x k"
    unfolding or using assms by (auto simp: bit_simps)
  from FirstSet_lowest [OF this] have "?x AND - ?x = push_bit j 1" unfolding FirstSet_def .
  moreover have "?x XOR push_bit j 1 = push_bit i 1"
    unfolding or by (rule bit_word_eqI) (use assms False in \<open>auto simp: bit_simps\<close>)
  moreover have "IsPow2 (push_bit i 1)"
    unfolding IsPow2_iff using assms by (intro disjI2 exI [of _ i]) simp
  ultimately show ?thesis unfolding Cap_IsValid_def Let_def IsPow2_def by simp
qed

lemma Cap_Round_spec:
  assumes u: "unat log2Unit \<le> 61" and n: "unat n \<le> 2 ^ 62"
  shows "Cap_IsValid (Cap_Round n log2Unit)" and "n \<le> Cap_Round n log2Unit"
proof -
  let ?k = "unat log2Unit"
  define w where "w = RoundPow2 n (push_bit ?k 1)"
  have w': "w = (n + (push_bit ?k 1 - 1)) AND NOT (push_bit ?k 1 - 1)"
    by (simp add: w_def RoundPow2_def add_diff_eq)
  have k: "(2::nat) ^ ?k \<le> 2 ^ 61" using u by (intro power_increasing) auto
  then have uw: "unat w = 2 ^ ?k * ((unat n + (2 ^ ?k - 1)) div 2 ^ ?k)"
    unfolding w_def using u n by (intro unat_RoundPow2) auto
  have "2 ^ ?k * ((unat n + (2 ^ ?k - 1)) div 2 ^ ?k) \<le> unat n + (2 ^ ?k - 1)"
    by (metis div_times_less_eq_dividend mult.commute)
  moreover have "(2::nat) ^ 62 + 2 ^ 61 < 2 ^ 63" by simp
  ultimately have ub: "unat w < 2 ^ 63" using uw n k by linarith
  have "unat n + (2 ^ ?k - 1) < unat w + 2 ^ ?k"
    using uw by (metis dividend_less_times_div power_not_zero zero_less_iff_neq_zero zero_neq_numeral add.commute)
  then have lb: "unat n \<le> unat w" by linarith
  show "Cap_IsValid (Cap_Round n log2Unit)" "n \<le> Cap_Round n log2Unit"
  proof (atomize (full), cases "IsPow2 w")
    case True
    then have "Cap_Round n log2Unit = w"
      unfolding Cap_Round_def Let_def w' [symmetric] by (auto simp: IsPow2_def)
    moreover have "Cap_IsValid w"
    proof (cases "w = 0")
      case True
      then show ?thesis by (simp add: Cap_IsValid_def)
    next
      case False
      with True obtain m where m: "m < 64" "w = push_bit m 1" by (auto simp: IsPow2_iff)
      then have "bit w m" "\<forall>j < m. \<not> bit w j" by (auto simp: bit_simps)
      from FirstSet_lowest [OF this] m show ?thesis
        by (simp add: Cap_IsValid_def Let_def FirstSet_def [symmetric])
    qed
    ultimately show "Cap_IsValid (Cap_Round n log2Unit) \<and> n \<le> Cap_Round n log2Unit"
      using lb by (simp add: word_le_nat_alt)
  next
    case False
    then have w0: "w \<noteq> 0" by (auto simp: IsPow2_iff)
    define l0 where "l0 = unat (MinLog2 w)"
    define r where "r = w XOR push_bit l0 1"
    define l1 where "l1 = unat (MaxLog2 r)"
    have l: "l0 < 64" unfolding l0_def by (rule MinLog2_less_64 [OF w0])
    note b = MinLog2_bounds [OF w0, folded l0_def]
    have ur: "unat r = unat w - 2 ^ l0" unfolding r_def l0_def by (rule unat_xor_highest [OF w0])
    have "w \<noteq> push_bit l0 1" using False l by (auto simp: IsPow2_iff)
    then have r0: "r \<noteq> 0" using xor_eq_0_iff unfolding r_def by metis
    note c = MaxLog2_bounds [OF r0, folded l1_def]
    have "(2::nat) ^ l1 < 2 ^ Suc l0"
      using c(2) ur b by simp
    then have l10: "l1 \<le> l0" by (metis less_Suc_eq_le one_less_numeral_iff power_less_imp_less_exp semiring_norm(76))
    have "(2::nat) ^ l0 < 2 ^ 63" using b(1) ub by linarith
    then have l063: "l0 < 63" by (metis one_less_numeral_iff power_less_imp_less_exp semiring_norm(76))
    have eq: "Cap_Round n log2Unit = push_bit l0 1 + push_bit l1 1"
      using False unfolding Cap_Round_def Let_def w' [symmetric] IsPow2_def l0_def l1_def r_def
      by (auto simp: eq_commute [of 0])
    have "(2::nat) ^ l1 \<le> 2 ^ l0" using l10 by (rule power_increasing) simp
    moreover have "(2::nat) ^ 64 = 2 ^ 63 + 2 ^ 63" by simp
    ultimately have "(2::nat) ^ l0 + 2 ^ l1 < 2 ^ 64"
      using \<open>2 ^ l0 < 2 ^ 63\<close> by linarith
    then have "unat (push_bit l0 1 + push_bit l1 1 :: u64) = 2 ^ l0 + 2 ^ l1"
      using unat_push_bit_1 [of l0] unat_push_bit_1 [of l1] l l10 by (simp add: unat_word_ariths)
    moreover have "unat n \<le> 2 ^ l0 + 2 ^ l1" using lb ur c(1) by linarith
    ultimately show "Cap_IsValid (Cap_Round n log2Unit) \<and> n \<le> Cap_Round n log2Unit"
      using Cap_IsValid_add [OF l10 l063] by (simp add: eq word_le_nat_alt)
  qed
qed

subsection \<open>Properties\<close>

text \<open>\<open>NSetBits\<close>, the bit-parallel population count, counts the set bits of a word.\<close>

theorem NSetBits_population: "unat (NSetBits x) = card {i. bit x i}"
proof -
  have "{i. bit x i} = set (filter (bit x) [0..<64])"
    using bit_imp_le_length [of x] by auto
  then show ?thesis by (simp only: NSetBits_count distinct_card distinct_filter distinct_upt)
qed

text \<open>The loop of \<open>ForeachSetBit\<close> visits the set bits of a word once each, in ascending order.\<close>

theorem ForeachSetBit_ascending: "map unat (ForeachSetBit x) = sorted_list_of_set {i. bit x i}"
proof -
  have "{i. bit x i} = set (filter (bit x) [0..<64])"
    using bit_imp_le_length [of x] by auto
  moreover have "sorted (filter (bit x) [0..<64])" by (intro sorted_wrt_filter) simp
  ultimately show ?thesis
    unfolding ForeachSetBit_filter by (simp only: sorted_list_of_set.idem_if_sorted_distinct distinct_filter distinct_upt)
qed

text \<open>\<open>MinLog2\<close> of a non-zero word, computed by the branching count of leading zeros, is the
  floor of its binary logarithm, and \<open>MaxLog2\<close> the ceiling.\<close>

theorem Log2_floor_ceiling:
  assumes "x \<noteq> 0"
  shows "2 ^ unat (MinLog2 x) \<le> unat x \<and> unat x < 2 ^ Suc (unat (MinLog2 x)) \<and>
    unat x \<le> 2 ^ unat (MaxLog2 x) \<and> (unat x \<noteq> 1 \<longrightarrow> 2 ^ unat (MaxLog2 x) < 2 * unat x)"
  using MinLog2_bounds [OF assms] MaxLog2_bounds [OF assms] by auto

lemma Log2_floor_ceiling_witness:
  "2 ^ unat (MinLog2 100) \<le> unat (100 :: u64) \<and> unat (100 :: u64) < 2 ^ Suc (unat (MinLog2 100)) \<and>
    unat (100 :: u64) \<le> 2 ^ unat (MaxLog2 100) \<and> 2 ^ unat (MaxLog2 100) < 2 * unat (100 :: u64)"
  using Log2_floor_ceiling [of 100] by simp

text \<open>Rounding a capacity gives a capacity of the standard form (at most two bits set) that is at
  least as large.\<close>

theorem Cap_Round_valid:
  assumes "unat log2Unit \<le> 61" "unat n \<le> 2 ^ 62"
  shows "Cap_IsValid (Cap_Round n log2Unit) \<and> n \<le> Cap_Round n log2Unit"
  using Cap_Round_spec [OF assms] by simp

lemma Cap_Round_valid_witness:
  "Cap_IsValid (Cap_Round 29 2) \<and> 29 \<le> Cap_Round 29 2"
  by (rule Cap_Round_valid) simp_all

end
