(* ===== verification/Bitmap_Vec.thy ===== *)
theory Bitmap_Vec
  imports Bits
begin

section \<open>Bit vectors over slices of words: elib/bitmap.go\<close>

text \<open>
  The slice level of \<open>bitmap.go\<close> (get, set, clear a bit; read and write a field that may
  straddle two words). The abstraction of a slice of words is the set \<open>bv_members\<close> of its set bit indices.
  A panic (index out of range) is \<open>None\<close>.
\<close>

subsection \<open>Definitions (bitmap.go)\<close>

definition bitmapIndex :: "u64 \<Rightarrow> nat \<times> gword" where
  "bitmapIndex x = (unat (x div WordBits), push_bit (unat (x mod WordBits)) 1)"

definition bitmapGet :: "gword list \<Rightarrow> u64 \<Rightarrow> bool option" where
  "bitmapGet b x = (let (i, m) = bitmapIndex x in do { v \<leftarrow> slice_get b i; Some (v AND m \<noteq> 0) })"

definition bitmapSet :: "gword list \<Rightarrow> u64 \<Rightarrow> (gword list \<times> bool) option" where
  "bitmapSet b x = (let (i, m) = bitmapIndex x in do {
     v \<leftarrow> slice_get b i;
     b' \<leftarrow> slice_set b i (v OR m);
     Some (b', v AND m \<noteq> 0) })"

definition bitmapUnset :: "gword list \<Rightarrow> u64 \<Rightarrow> (gword list \<times> bool) option" where
  "bitmapUnset b x = (let (i, m) = bitmapIndex x in do {
     v \<leftarrow> slice_get b i;
     b' \<leftarrow> slice_set b i (v AND NOT m);
     Some (b', v AND m \<noteq> 0) })"

definition bitmapMake :: "u64 \<Rightarrow> gword list" where
  "bitmapMake nBits = (let (n, _) = bitmapIndex nBits in replicate n 0)"

definition GetBit :: "gword list \<Rightarrow> u64 \<Rightarrow> bool" where
  "GetBit bm x = (let (i, m) = bitmapIndex x in
     if i < length bm then (bm ! i) AND m \<noteq> 0 else False)"

text \<open>The value argument of \<open>SetBit\<close> is not used by the code.\<close>

definition SetBit :: "gword list \<Rightarrow> u64 \<Rightarrow> bool \<Rightarrow> (gword list \<times> bool) option" where
  "SetBit bm x v = (let (i, m) = bitmapIndex x in do {
     b \<leftarrow> slice_get bm i;
     bm' \<leftarrow> slice_set bm i (b OR m);
     Some (bm', b AND m \<noteq> 0) })"

definition UnsetBit :: "gword list \<Rightarrow> u64 \<Rightarrow> (gword list \<times> bool) option" where
  "UnsetBit bm x = (let (i, m) = bitmapIndex x in do {
     b \<leftarrow> slice_get bm i;
     bm' \<leftarrow> slice_set bm i (b AND NOT m);
     Some (bm', b AND m \<noteq> 0) })"

definition GetMultiple :: "gword list \<Rightarrow> u64 \<Rightarrow> u64 \<Rightarrow> gword" where
  "GetMultiple b x n_bits = (
     let i0 = unat (x div WordBits); i1 = x mod WordBits;
         l = length b;
         m = drop_bit (unat (WordBits - n_bits)) (NOT 0);
         v = (if i0 < l then drop_bit (unat i1) (b ! i0) AND m else 0);
         i0 = i0 + 1
     in if i1 + n_bits > WordBits \<and> i0 < l
        then let r = WordBits - i1; n_bits = n_bits - r
             in v OR push_bit (unat r) ((b ! i0) AND (push_bit (unat n_bits) 1 - 1))
        else v)"

definition SetMultiple :: "gword list \<Rightarrow> u64 \<Rightarrow> u64 \<Rightarrow> gword \<Rightarrow> (gword list \<times> gword) option" where
  "SetMultiple bm x n_bits new_value = (
     let i0 = unat (x div WordBits); i1 = x mod WordBits;
         m = drop_bit (unat (WordBits - n_bits)) (NOT 0);
         v = new_value AND m;
         b = vec_validate 0 (unat ((x + n_bits - 1) div WordBits)) bm;
         l = length b
     in do {
       t \<leftarrow> slice_get b i0;
       let old_value = drop_bit (unat i1) t AND m;
       let t = t AND NOT (push_bit (unat i1) m);
       let t = t OR push_bit (unat i1) v;
       b \<leftarrow> slice_set b i0 t;
       let i0 = i0 + 1;
       if i1 + n_bits > WordBits \<and> i0 < l
       then do {
         let r = WordBits - i1;
         let v = drop_bit (unat r) v;
         let m = drop_bit (unat r) m;
         u \<leftarrow> slice_get b i0;
         let old_value = old_value OR push_bit (unat r) (u AND m);
         let u = (u AND NOT m) OR v;
         b \<leftarrow> slice_set b i0 u;
         Some (b, old_value) }
       else Some (b, old_value) })"

definition Alloc :: "gword list \<Rightarrow> u64 \<Rightarrow> gword list" where
  "Alloc bm nBits = (if nBits > 0
     then let (i, _) = bitmapIndex (nBits - 1) in vec_validate 0 i bm
     else bm)"

subsection \<open>The set of set bits\<close>

definition bv_members :: "gword list \<Rightarrow> nat set" where
  "bv_members b = {x. x div 64 < length b \<and> bit (b ! (x div 64)) (x mod 64)}"

lemma bv_members_iff:
  "x \<in> bv_members b \<longleftrightarrow> x div 64 < length b \<and> bit (b ! (x div 64)) (x mod 64)"
  by (simp add: bv_members_def)

lemma bitmapIndex_eq: "bitmapIndex x = (unat x div 64, push_bit (unat x mod 64) 1)"
  by (simp add: bitmapIndex_def unat_div unat_mod)

lemma and_push_bit_1 [simp]: "v AND push_bit k 1 \<noteq> 0 \<longleftrightarrow> bit (v :: gword) k"
proof -
  have "v AND push_bit k 1 = (if bit v k then push_bit k 1 else 0)"
    by (rule bit_word_eqI) (auto simp: bit_simps)
  moreover have "push_bit k 1 \<noteq> (0 :: gword)" if "bit v k"
    using unat_push_bit_1 [of k] bit_imp_le_length [OF that] by (auto simp: unat_eq_zero [symmetric])
  ultimately show ?thesis by simp
qed

lemma and_push_bit_1_eq_0 [simp]: "v AND push_bit k 1 = 0 \<longleftrightarrow> \<not> bit (v :: gword) k"
  using and_push_bit_1 [of v k] by blast

lemma bv_members_update:
  "i < length b \<Longrightarrow> x \<in> bv_members (b[i := w]) \<longleftrightarrow>
     (if x div 64 = i then bit w (x mod 64) else x \<in> bv_members b)"
  by (auto simp: bv_members_iff)

lemma div_mod_64_eq: "y div 64 = x div 64 \<Longrightarrow> y mod 64 = x mod 64 \<longleftrightarrow> y = (x :: nat)"
  by (metis div_mult_mod_eq)

lemma bv_members_or:
  assumes "x div 64 < length b"
  shows "bv_members (b[x div 64 := (b ! (x div 64)) OR push_bit (x mod 64) 1]) = insert x (bv_members b)"
proof (rule set_eqI)
  fix y
  show "y \<in> bv_members (b[x div 64 := (b ! (x div 64)) OR push_bit (x mod 64) 1]) \<longleftrightarrow>
      y \<in> insert x (bv_members b)"
    using assms div_mod_64_eq [of y x] unfolding bv_members_update [OF assms]
    by (auto simp: bit_simps bv_members_iff)
qed

lemma bv_members_and_not:
  assumes "x div 64 < length b"
  shows "bv_members (b[x div 64 := (b ! (x div 64)) AND NOT (push_bit (x mod 64) 1)]) = bv_members b - {x}"
proof (rule set_eqI)
  fix y
  show "y \<in> bv_members (b[x div 64 := (b ! (x div 64)) AND NOT (push_bit (x mod 64) 1)]) \<longleftrightarrow>
      y \<in> bv_members b - {x}"
    using assms div_mod_64_eq [of y x] unfolding bv_members_update [OF assms]
    by (auto simp: bit_simps bv_members_iff)
qed

lemma bv_members_validate [simp]: "bv_members (vec_validate 0 i b) = bv_members b"
  by (auto simp: bv_members_iff nth_vec_validate split: if_splits)

lemma bv_members_replicate_0 [simp]: "bv_members (replicate n 0) = {}"
  by (auto simp: bv_members_iff)

lemma bv_members_bound: "x \<in> bv_members b \<Longrightarrow> x < 64 * length b"
  by (auto simp: bv_members_iff div_less_iff_less_mult mult.commute)

subsection \<open>The interface of a mutable bit set\<close>

text \<open>
  What the callers of the set and unset operations rely on: inside the capacity they succeed,
  change exactly one member, keep the capacity and report the old value; outside they panic.
\<close>

locale bit_store =
  fixes cap :: "'s \<Rightarrow> nat"
    and members :: "'s \<Rightarrow> nat set"
    and setb :: "'s \<Rightarrow> u64 \<Rightarrow> ('s \<times> bool) option"
    and unsetb :: "'s \<Rightarrow> u64 \<Rightarrow> ('s \<times> bool) option"
  assumes setb_panics: "cap s \<le> unat x \<Longrightarrow> setb s x = None"
    and setb_in: "unat x < cap s \<Longrightarrow> \<exists>t. setb s x = Some (t, unat x \<in> members s) \<and>
      members t = insert (unat x) (members s) \<and> cap t = cap s"
    and unsetb_panics: "cap s \<le> unat x \<Longrightarrow> unsetb s x = None"
    and unsetb_in: "unat x < cap s \<Longrightarrow> \<exists>t. unsetb s x = Some (t, unat x \<in> members s) \<and>
      members t = members s - {unat x} \<and> cap t = cap s"
begin

lemma setb_Some_iff: "(\<exists>r. setb s x = Some r) \<longleftrightarrow> unat x < cap s"
  using setb_panics [of s x] setb_in [of x s] by (cases "unat x < cap s") auto

lemma setb_SomeD:
  assumes "setb s x = Some (t, old)"
  shows "unat x < cap s" "old \<longleftrightarrow> unat x \<in> members s"
    "members t = insert (unat x) (members s)" "cap t = cap s"
  using assms setb_panics [of s x] setb_in [of x s] by (cases "unat x < cap s"; auto)+

lemma unsetb_SomeD:
  assumes "unsetb s x = Some (t, old)"
  shows "unat x < cap s" "old \<longleftrightarrow> unat x \<in> members s"
    "members t = members s - {unat x}" "cap t = cap s"
  using assms unsetb_panics [of s x] unsetb_in [of x s] by (cases "unat x < cap s"; auto)+

text \<open>Setting and then clearing a bit is clearing it, and reports that it was set.\<close>

lemma unset_after_set:
  assumes "setb s x = Some (t, old)"
  obtains u where "unsetb t x = Some (u, True)" "members u = members s - {unat x}"
  using setb_SomeD [OF assms] unsetb_in [of x t] that by auto

end

interpretation bitmap_words:
  bit_store "\<lambda>b. 64 * length b" bv_members bitmapSet bitmapUnset
proof unfold_locales
  fix b :: "gword list" and x :: u64
  note d = div_less_iff_less_mult [of 64 "unat x" "length b", simplified]
  show "64 * length b \<le> unat x \<Longrightarrow> bitmapSet b x = None"
    using d by (simp add: bitmapSet_def bitmapIndex_eq slice_get_def mult.commute)
  show "64 * length b \<le> unat x \<Longrightarrow> bitmapUnset b x = None"
    using d by (simp add: bitmapUnset_def bitmapIndex_eq slice_get_def mult.commute)
  show "unat x < 64 * length b \<Longrightarrow> \<exists>t. bitmapSet b x = Some (t, unat x \<in> bv_members b) \<and>
      bv_members t = insert (unat x) (bv_members b) \<and> 64 * length t = 64 * length b"
    using d by (simp add: bitmapSet_def bitmapIndex_eq mult.commute bv_members_or)
      (simp add: bv_members_iff)
  show "unat x < 64 * length b \<Longrightarrow> \<exists>t. bitmapUnset b x = Some (t, unat x \<in> bv_members b) \<and>
      bv_members t = bv_members b - {unat x} \<and> 64 * length t = 64 * length b"
    using d by (simp add: bitmapUnset_def bitmapIndex_eq mult.commute bv_members_and_not)
      (simp add: bv_members_iff)
qed

text \<open>The methods of \<open>WordVec\<close> are the same operations; \<open>SetBit\<close> sets whatever its argument.\<close>

lemma SetBit_eq: "SetBit b x v = bitmapSet b x"
  by (simp add: SetBit_def bitmapSet_def)

lemma UnsetBit_eq: "UnsetBit b x = bitmapUnset b x"
  by (simp add: UnsetBit_def bitmapUnset_def)

interpretation wordvec:
  bit_store "\<lambda>b. 64 * length b" bv_members "\<lambda>b x. SetBit b x v" UnsetBit
  unfolding SetBit_eq UnsetBit_eq by (rule bitmap_words.bit_store_axioms)

lemma GetBit_iff: "GetBit b x \<longleftrightarrow> unat x \<in> bv_members b"
  by (simp add: GetBit_def bitmapIndex_eq bv_members_iff)

subsection \<open>Fields of several bits\<close>

lemma field_width: "unat n \<le> 64 \<Longrightarrow> 64 - unat (64 - n :: u64) = unat n"
  by (simp add: unat_sub word_le_nat_alt)

lemma bit_low_mask: "bit (push_bit n 1 - 1 :: u64) k \<longleftrightarrow> k < n \<and> k < 64"
  by (auto simp: push_bit_of_1 mask_eq_exp_minus_1 [symmetric] bit_simps)

text \<open>Where bit \<open>x + k\<close> lives, for \<open>k < 64\<close>.\<close>

lemma straddle:
  fixes x k :: nat
  assumes "k < 64"
  shows "(x + k) div 64 = (if x mod 64 + k < 64 then x div 64 else Suc (x div 64))"
    and "(x + k) mod 64 = (if x mod 64 + k < 64 then x mod 64 + k else x mod 64 + k - 64)"
proof -
  obtain q r where x: "x = 64 * q + r" "r < 64"
    by (metis mod_less_divisor mult_div_mod_eq zero_less_numeral)
  have e: "64 * q + r + k = r + k + q * 64" by simp
  have "(r + k) div 64 = (if r + k < 64 then 0 else 1)" "(r + k) mod 64 = (if r + k < 64 then r + k else r + k - 64)"
    using x(2) assms by (auto simp: div_if mod_if)
  then show "(x + k) div 64 = (if x mod 64 + k < 64 then x div 64 else Suc (x div 64))"
    and "(x + k) mod 64 = (if x mod 64 + k < 64 then x mod 64 + k else x mod 64 + k - 64)"
    using x(2) unfolding x(1) e by (simp_all del: add.commute)
qed

lemma bit_GetMultiple:
  assumes n: "unat n \<le> 64"
  shows "bit (GetMultiple b x n) k \<longleftrightarrow> k < unat n \<and> unat x + k \<in> bv_members b"
proof -
  let ?i = "unat x mod 64" and ?q = "unat x div 64"
  have i1: "unat (x mod 64) = ?i" and i0: "unat (x div 64) = ?q" by (simp_all add: unat_mod unat_div)
  have gt: "64 < x mod 64 + n \<longleftrightarrow> 64 < ?i + unat n"
    using n unfolding word_less_nat_alt unat_word_ariths(1) i1 by simp
  have r: "unat (64 - x mod 64) = 64 - ?i"
    using i1 by (simp add: unat_sub word_le_nat_alt)
  have n': "unat (n - (64 - x mod 64)) = unat n - (64 - ?i)" if "64 < ?i + unat n"
    using that r by (simp add: unat_sub word_le_nat_alt)
  define v where "v = (if ?q < length b then drop_bit ?i (b ! ?q) AND mask (unat n) else 0)"
  have v: "bit v k \<longleftrightarrow> ?q < length b \<and> bit (b ! ?q) (?i + k) \<and> k < unat n"
    using n by (auto simp: v_def bit_simps dest: bit_imp_le_length)
  have G: "GetMultiple b x n = (if 64 < ?i + unat n \<and> Suc ?q < length b
     then v OR push_bit (64 - ?i) ((b ! Suc ?q) AND (push_bit (unat n - (64 - ?i)) 1 - 1)) else v)"
    by (simp add: GetMultiple_def Let_def i0 i1 gt r n' v_def field_width [OF n])
  show ?thesis
  proof (cases "k < unat n")
    case False
    then show ?thesis
      by (auto simp: G v bit_or_iff bit_push_bit_iff bit_and_iff bit_low_mask)
  next
    case True
    then have k: "k < 64" using n by simp
    show ?thesis
    proof (cases "?i + k < 64")
      case True
      then show ?thesis
        using straddle [OF k, of "unat x"] \<open>k < unat n\<close>
        by (auto simp: G v bv_members_iff bit_or_iff bit_push_bit_iff bit_and_iff bit_low_mask)
    next
      case False
      then have "\<not> bit (b ! ?q) (?i + k)" by (auto dest: bit_imp_le_length)
      then show ?thesis
        using straddle [OF k, of "unat x"] \<open>k < unat n\<close> False k
        by (auto simp: G v bv_members_iff bit_or_iff bit_push_bit_iff bit_and_iff bit_low_mask
          add.commute [of k "?i"] diff_less_mono)
    qed
  qed
qed

text \<open>
  \<open>SetMultiple\<close> returns what \<open>GetMultiple\<close> reads before (bits past the end being 0), and
  writes exactly the field.
\<close>

lemma SetMultiple_eq:
  fixes x n new :: u64 and bm :: "gword list"
  assumes n: "0 < unat n" "unat n \<le> 64" and x: "unat x + unat n \<le> 2 ^ 64"
  defines "i \<equiv> unat x mod 64" and "q \<equiv> unat x div 64" and "N \<equiv> unat n"
  defines "b \<equiv> vec_validate 0 ((unat x + unat n - 1) div 64) bm"
  defines "t \<equiv> ((b ! q) AND NOT (push_bit i (mask N))) OR push_bit i (new AND mask N)"
  defines "u \<equiv> ((b ! Suc q) AND NOT (drop_bit (64 - i) (mask N))) OR drop_bit (64 - i) (new AND mask N)"
  defines "old \<equiv> drop_bit i (b ! q) AND mask N"
  shows "q < length b" "64 < i + N \<Longrightarrow> Suc q < length b"
    and "SetMultiple bm x n new = (if 64 < i + N
      then Some (b[q := t, Suc q := u],
                 old OR push_bit (64 - i) ((b ! Suc q) AND drop_bit (64 - i) (mask N)))
      else Some (b[q := t], old))"
proof -
  have i1: "unat (x mod 64) = i" and i0: "unat (x div 64) = q"
    by (simp_all add: unat_mod unat_div i_def q_def)
  have i: "i < 64" by (simp add: i_def)
  have gt: "64 < x mod 64 + n \<longleftrightarrow> 64 < i + N"
    using n i unfolding word_less_nat_alt unat_word_ariths(1) i1 N_def by simp
  have r: "unat (64 - x mod 64) = 64 - i"
    using i1 i by (simp add: unat_sub word_le_nat_alt)
  have "unat (n - 1) = N - 1" using n by (simp add: unat_sub word_le_nat_alt N_def)
  then have "unat (x + (n - 1)) = unat x + N - 1"
    using x n unfolding unat_word_ariths(1) by (simp add: N_def)
  then have e: "unat ((x + n - 1) div 64) = (unat x + unat n - 1) div 64"
    by (simp add: unat_div add_diff_eq N_def)
  have M: "drop_bit (unat (64 - n)) (NOT 0) = (mask N :: u64)"
    by (simp add: field_width [OF n(2)] N_def)
  have xq: "unat x = 64 * q + i" by (simp add: q_def i_def)
  have "q \<le> (unat x + N - 1) div 64"
    unfolding q_def using n by (intro div_le_mono) (simp add: N_def)
  then show q: "q < length b" unfolding b_def N_def by simp
  have "64 * Suc q \<le> unat x + N - 1" if "64 < i + N" unfolding xq using that by simp
  then have "Suc q \<le> (unat x + N - 1) div 64" if "64 < i + N" using that
    by (simp add: less_eq_div_iff_mult_less_eq mult.commute)
  then show q1: "64 < i + N \<Longrightarrow> Suc q < length b" unfolding b_def N_def by simp
  have S: "slice_get b q = Some (b ! q)" "slice_set b q t = Some (b[q := t])"
    using q by simp_all
  have S1: "slice_get (b[q := t]) (Suc q) = Some (b ! Suc q)"
    "slice_set (b[q := t]) (Suc q) u = Some (b[q := t, Suc q := u])" if "64 < i + N"
    using q1 [OF that] by simp_all
  show "SetMultiple bm x n new = (if 64 < i + N
      then Some (b[q := t, Suc q := u],
                 old OR push_bit (64 - i) ((b ! Suc q) AND drop_bit (64 - i) (mask N)))
      else Some (b[q := t], old))"
    using q1 unfolding SetMultiple_def Let_def WordBits_eq i0 i1 r gt M e b_def [symmetric]
    by (cases "64 < i + N") (simp_all only: S S1 Option.bind_lunit t_def [symmetric] u_def [symmetric]
      old_def [symmetric] length_list_update Suc_eq_plus1 [symmetric] if_True if_False simp_thms)
qed

lemma bit_SetMultiple_words:
  fixes t u new :: u64
  assumes "i < 64" "N \<le> 64"
  shows "p < 64 \<Longrightarrow> bit ((t AND NOT (push_bit i (mask N))) OR push_bit i (new AND mask N)) p \<longleftrightarrow>
      (if i \<le> p \<and> p < i + N then bit new (p - i) else bit t p)"
    and "p < 64 \<Longrightarrow> 64 < i + N \<Longrightarrow>
      bit ((u AND NOT (drop_bit (64 - i) (mask N))) OR drop_bit (64 - i) (new AND mask N)) p \<longleftrightarrow>
      (if p < i + N - 64 then bit new (64 - i + p) else bit u p)"
  using assms by (auto simp: bit_simps)

lemma SetMultiple_spec:
  fixes x n new :: u64
  assumes n: "0 < unat n" "unat n \<le> 64" and x: "unat x + unat n \<le> 2 ^ 64"
  obtains b' where "SetMultiple bm x n new = Some (b', GetMultiple bm x n)"
    and "\<And>y. y \<in> bv_members b' \<longleftrightarrow>
      (if unat x \<le> y \<and> y < unat x + unat n then bit new (y - unat x) else y \<in> bv_members bm)"
proof -
  define i q N where "i = unat x mod 64" and "q = unat x div 64" and "N = unat n"
  define b where "b = vec_validate 0 ((unat x + unat n - 1) div 64) bm"
  note q = SetMultiple_eq(1,2) [OF n x, where bm = bm, folded i_def q_def N_def b_def]
  note eq = SetMultiple_eq(3) [OF n x, where bm = bm and new = new, folded i_def q_def N_def b_def]
  have i: "i < 64" and X: "unat x = 64 * q + i" and N: "N \<le> 64" by (simp_all add: i_def q_def N_def n)
  let ?t = "((b ! q) AND NOT (push_bit i (mask N))) OR push_bit i (new AND mask N)"
  let ?u = "((b ! Suc q) AND NOT (drop_bit (64 - i) (mask N))) OR drop_bit (64 - i) (new AND mask N)"
  define b' where "b' = (if 64 < i + N then b[q := ?t, Suc q := ?u] else b[q := ?t])"
  have mem: "bv_members b = bv_members bm" by (simp add: b_def)
  obtain old where S: "SetMultiple bm x n new = Some (b', old)"
    and old: "old = (if 64 < i + N then (drop_bit i (b ! q) AND mask N) OR
       push_bit (64 - i) ((b ! Suc q) AND drop_bit (64 - i) (mask N)) else drop_bit i (b ! q) AND mask N)"
    using eq by (simp add: b'_def)
  have "bit old k \<longleftrightarrow> bit (GetMultiple bm x n) k" if "k < 64" for k
    unfolding bit_GetMultiple [OF n(2)] mem [symmetric]
    using straddle [OF that, of "unat x", folded i_def q_def] q N i diff_diff_right [of i 64 k]
    by (auto simp: add.commute [of k i] old N_def bv_members_iff bit_simps dest: bit_imp_le_length)
  then have "old = GetMultiple bm x n" by (intro bit_word_eqI) simp
  moreover have "y \<in> bv_members b' \<longleftrightarrow>
    (if unat x \<le> y \<and> y < unat x + unat n then bit new (y - unat x) else y \<in> bv_members bm)" for y
  proof (cases "y div 64 = q \<or> y div 64 = Suc q \<and> 64 < i + N")
    case False
    then have "y \<in> bv_members b' \<longleftrightarrow> y \<in> bv_members b"
      by (auto simp: b'_def bv_members_iff)
    moreover have "\<not> (unat x \<le> y \<and> y < unat x + unat n)"
      using straddle [of "y - unat x" "unat x", folded i_def q_def] False n
      by (auto simp: N_def split: if_splits)
    ultimately show ?thesis by (auto simp: mem)
  next
    case True
    obtain d p where y: "y = 64 * d + p" "p < 64"
      by (metis mod_less_divisor mult_div_mod_eq zero_less_numeral)
    then have yd: "y div 64 = d" "y mod 64 = p" by simp_all
    have mb: "y \<in> bv_members b' \<longleftrightarrow> d < length b \<and> bit (b' ! d) p"
      by (simp add: bv_members_iff yd b'_def)
    have mm: "y \<in> bv_members bm \<longleftrightarrow> d < length b \<and> bit (b ! d) p"
      by (simp add: mem [symmetric] bv_members_iff yd)
    show ?thesis
    proof (cases "d = q")
      case True
      then have "b' ! d = ?t" using q by (simp add: b'_def)
      then show ?thesis
        using q bit_SetMultiple_words(1) [OF i N y(2), of "b ! q" new] True
        unfolding mb mm by (simp add: y X N_def [symmetric])
    next
      case False
      with True yd have d: "d = Suc q" "64 < i + N" by auto
      then have "b' ! d = ?u" using q by (simp add: b'_def)
      then show ?thesis
        using q(2) [OF d(2)] bit_SetMultiple_words(2) [OF i N y(2) d(2), of "b ! Suc q" new] d i
        unfolding mb mm by (auto simp: y X N_def [symmetric])
    qed
  qed
  ultimately show thesis using S that by blast
qed

subsection \<open>Properties\<close>

text \<open>Writing a field of up to 64 bits returns the field's old value; afterwards the field reads as
  the low bits of the new value, and every bit outside it is what it was.\<close>

theorem SetMultiple_field:
  assumes "0 < unat n" "unat n \<le> 64" "unat x + unat n \<le> 2 ^ 64"
  shows "\<exists>b'. SetMultiple bm x n new = Some (b', GetMultiple bm x n) \<and>
    GetMultiple b' x n = new AND mask (unat n) \<and>
    (\<forall>y. y < unat x \<or> unat x + unat n \<le> y \<longrightarrow> (y \<in> bv_members b' \<longleftrightarrow> y \<in> bv_members bm))"
proof -
  obtain b' where b': "SetMultiple bm x n new = Some (b', GetMultiple bm x n)"
    "\<And>y. y \<in> bv_members b' \<longleftrightarrow>
      (if unat x \<le> y \<and> y < unat x + unat n then bit new (y - unat x) else y \<in> bv_members bm)"
    by (rule SetMultiple_spec [OF assms, of bm new]) blast
  have "GetMultiple b' x n = new AND mask (unat n)"
    by (rule bit_word_eqI) (auto simp: bit_GetMultiple [OF assms(2)] b'(2) bit_and_iff bit_mask_iff)
  then show ?thesis using b' by auto
qed

lemma SetMultiple_field_witness:
  "\<exists>b'. SetMultiple [0, 0] 60 8 0xab = Some (b', GetMultiple [0, 0] 60 8) \<and>
    GetMultiple b' 60 8 = 0xab AND mask (unat (8 :: u64)) \<and> (70 \<in> bv_members b') = (70 \<in> bv_members [0, 0])"
  by (rule exE [OF SetMultiple_field [of 8 60 "[0, 0]" "0xab"]]) auto

end
