(* ===== verification/Pool.thy ===== *)
theory Pool
  imports Go_Prelude
begin

section \<open>Index pools: elib/pool.go and the typed pools generated from it\<close>

text \<open>
  A pool hands out small indices and takes them back. The free indices are a stack, with a
  bitmap of them to answer \<open>IsFree\<close> and to refuse a second \<open>PutIndex\<close>; the bitmap is
  modelled by the set of its members (the theory \<open>Bitmap_Pool\<close> relates the two). A typed pool
  adds the vector the indices refer to: \<open>arr\<close> is its backing array, whose length is the
  capacity, and \<open>plen\<close> its length. The capacity \<open>NextResizeCap\<close> chooses is computed in floating
  point and is a parameter \<open>nc\<close>, of which only \<open>l \<le> nc l\<close> is used.
\<close>

record Pool =
  freeIndices :: "u32 list"
  freeBitmap :: "nat set"
  maxLen :: nat

text \<open>The last element of \<open>freeIndices\<close> is popped; \<open>n\<close> is the index of a new element.\<close>

definition Pool_GetIndex :: "Pool \<Rightarrow> nat \<Rightarrow> (nat \<times> Pool) option" where
  "Pool_GetIndex p n = (
     let (i, p) = (if freeIndices p \<noteq> []
           then let i = unat (last (freeIndices p))
                in (i, p\<lparr>freeIndices := butlast (freeIndices p), freeBitmap := freeBitmap p - {i}\<rparr>)
           else (n, p))
     in if maxLen p \<noteq> 0 \<and> maxLen p \<le> i then None else Some (i, p))"

definition Pool_PutIndex :: "Pool \<Rightarrow> nat \<Rightarrow> bool \<times> Pool" where
  "Pool_PutIndex p i = (
     if i \<notin> freeBitmap p
     then (True, p\<lparr>freeIndices := freeIndices p @ [of_nat i], freeBitmap := insert i (freeBitmap p)\<rparr>)
     else (False, p))"

definition Pool_Reset :: "Pool \<Rightarrow> Pool" where
  "Pool_Reset p = p\<lparr>freeIndices := [], freeBitmap := {}\<rparr>"

definition Pool_IsFree :: "Pool \<Rightarrow> nat \<Rightarrow> bool" where
  "Pool_IsFree p i \<longleftrightarrow> i \<in> freeBitmap p"

definition FreeLen :: "Pool \<Rightarrow> nat" where
  "FreeLen p = length (freeIndices p)"

definition SetMaxLen :: "Pool \<Rightarrow> nat \<Rightarrow> Pool" where
  "SetMaxLen p x = p\<lparr>maxLen := x\<rparr>"

subsection \<open>Typed pools\<close>

record 'a tpool =
  pool :: Pool
  arr :: "'a list"
  plen :: nat

definition data :: "'a tpool \<Rightarrow> 'a list" where
  "data p = take (plen p) (arr p)"

definition new_pool :: "'a tpool" where
  "new_pool = \<lparr>pool = \<lparr>freeIndices = [], freeBitmap = {}, maxLen = 0\<rparr>, arr = [], plen = 0\<rparr>"

definition grow_to :: "(nat \<Rightarrow> nat) \<Rightarrow> 'a \<Rightarrow> nat \<Rightarrow> 'a tpool \<Rightarrow> 'a tpool" where
  "grow_to nc zero l p =
     (if length (arr p) < l then p\<lparr>arr := data p @ replicate (nc l - plen p) zero\<rparr> else p)"

definition Pool_Validate :: "(nat \<Rightarrow> nat) \<Rightarrow> 'a \<Rightarrow> 'a tpool \<Rightarrow> nat \<Rightarrow> 'a tpool" where
  "Pool_Validate nc zero p i = (
     let l = i + 1; p = grow_to nc zero l p
     in if plen p < l then p\<lparr>plen := l\<rparr> else p)"

definition Pool_Resize :: "(nat \<Rightarrow> nat) \<Rightarrow> 'a \<Rightarrow> 'a tpool \<Rightarrow> nat \<Rightarrow> 'a tpool" where
  "Pool_Resize nc zero p n = (let l = plen p + n in (grow_to nc zero l p)\<lparr>plen := l\<rparr>)"

definition GetIndex :: "(nat \<Rightarrow> nat) \<Rightarrow> 'a \<Rightarrow> 'a tpool \<Rightarrow> (nat \<times> 'a tpool) option" where
  "GetIndex nc zero p = do {
     let l = plen p;
     (i, q) \<leftarrow> Pool_GetIndex (pool p) l;
     let p = p\<lparr>pool := q\<rparr>;
     Some (i, if l \<le> i then Pool_Validate nc zero p i else p) }"

definition PutIndex :: "'a tpool \<Rightarrow> nat \<Rightarrow> bool \<times> 'a tpool" where
  "PutIndex p i = (let (ok, q) = Pool_PutIndex (pool p) i in (ok, p\<lparr>pool := q\<rparr>))"

definition IsFree :: "'a tpool \<Rightarrow> nat \<Rightarrow> bool" where
  "IsFree p i \<longleftrightarrow> plen p \<le> i \<or> Pool_IsFree (pool p) i"

definition Elts :: "'a tpool \<Rightarrow> nat" where
  "Elts p = plen p - FreeLen (pool p)"

definition ForeachIndex :: "'a tpool \<Rightarrow> nat list" where
  "ForeachIndex p = filter (\<lambda>i. \<not> Pool_IsFree (pool p) i) [0..<plen p]"

definition Pool_Foreach :: "'a tpool \<Rightarrow> 'a list" where
  "Pool_Foreach p = map (\<lambda>i. arr p ! i) (filter (\<lambda>i. \<not> Pool_IsFree (pool p) i) [0..<plen p])"

definition Pool_ResetAll :: "'a tpool \<Rightarrow> 'a tpool" where
  "Pool_ResetAll p = (let p = p\<lparr>pool := Pool_Reset (pool p)\<rparr> in
     if 0 < plen p then p\<lparr>plen := 0\<rparr> else p)"

subsection \<open>The contract of an allocator of indices\<close>

datatype alloc_op = OpGet | OpPut nat

text \<open>
  A client of an allocator: \<open>OpPut k\<close> gives back the \<open>k\<close>-th index it got (perhaps not for the
  first time). The run keeps the live indices beside the allocator and stops with \<open>None\<close> as soon
  as the allocator hands out a live index or misjudges a \<open>Put\<close>.
\<close>

fun alloc_run :: "('s \<Rightarrow> (nat \<times> 's) option) \<Rightarrow> ('s \<Rightarrow> nat \<Rightarrow> bool \<times> 's) \<Rightarrow>
    nat list \<Rightarrow> nat set \<Rightarrow> 's \<Rightarrow> alloc_op list \<Rightarrow> (nat list \<times> nat set \<times> 's) option" where
  "alloc_run get put got live s [] = Some (got, live, s)"
| "alloc_run get put got live s (OpGet # ops) = do {
     (i, s) \<leftarrow> get s;
     panic_unless (i \<notin> live);
     alloc_run get put (got @ [i]) (insert i live) s ops }"
| "alloc_run get put got live s (OpPut k # ops) = (
     if k < length got
     then let i = got ! k; (ok, s) = put s i
          in if ok = (i \<in> live) then alloc_run get put got (live - {i}) s ops else None
     else alloc_run get put got live s ops)"

locale index_allocator =
  fixes inv :: "nat \<Rightarrow> 's \<Rightarrow> bool"
    and used :: "'s \<Rightarrow> nat set"
    and get :: "'s \<Rightarrow> (nat \<times> 's) option"
    and put :: "'s \<Rightarrow> nat \<Rightarrow> bool \<times> 's"
    and bound :: nat
  assumes get_fresh: "inv n s \<Longrightarrow> n < bound \<Longrightarrow> \<exists>i s' n'. get s = Some (i, s') \<and> i \<notin> used s \<and>
      used s' = insert i (used s) \<and> inv n' s' \<and> n \<le> n' \<and> n' \<le> Suc n \<and> i < n'"
    and put_live: "inv n s \<Longrightarrow> i \<in> used s \<Longrightarrow>
      fst (put s i) \<and> used (snd (put s i)) = used s - {i} \<and> inv n (snd (put s i))"
    and put_dead: "inv n s \<Longrightarrow> i \<notin> used s \<Longrightarrow> i < n \<Longrightarrow> put s i = (False, s)"
begin

lemma run_ok:
  "inv n s \<Longrightarrow> n + length ops \<le> bound \<Longrightarrow> \<forall>i \<in> set got. i < n \<Longrightarrow>
     \<exists>got' s'. alloc_run get put got (used s) s ops = Some (got', used s', s')"
proof (induction ops arbitrary: n s got)
  case (Cons op ops)
  show ?case
  proof (cases op)
    case OpGet
    then have "n < bound" using Cons.prems(2) by simp
    from get_fresh [OF Cons.prems(1) this] obtain i s1 n1 where
      1: "get s = Some (i, s1)" "i \<notin> used s" "used s1 = insert i (used s)" "inv n1 s1"
        "n \<le> n1" "n1 \<le> Suc n" "i < n1" by auto
    have "\<exists>got' s'. alloc_run get put (got @ [i]) (used s1) s1 ops = Some (got', used s', s')"
      using Cons.IH [OF 1(4), of "got @ [i]"] Cons.prems(2,3) 1(5-7) by fastforce
    then show ?thesis using 1 OpGet by simp
  next
    case (OpPut k)
    show ?thesis
    proof (cases "k < length got")
      case True
      then have k: "got ! k < n" using Cons.prems(3) by simp
      have 1: "inv n (snd (put s (got ! k)))" "used (snd (put s (got ! k))) = used s - {got ! k}"
        "fst (put s (got ! k)) = (got ! k \<in> used s)"
        using put_live [OF Cons.prems(1), of "got ! k"] put_dead [OF Cons.prems(1) _ k] Cons.prems(1)
        by (cases "got ! k \<in> used s"; auto)+
      then show ?thesis using Cons.IH [OF 1(1), of got] Cons.prems(2,3) OpPut True
        by (simp add: case_prod_beta Let_def)
    next
      case False
      then show ?thesis using Cons.IH [OF Cons.prems(1), of got] Cons.prems(2,3) OpPut by simp
    qed
  qed
qed simp

end

subsection \<open>Typed pools are allocators\<close>

definition pool_used :: "'a tpool \<Rightarrow> nat set" where
  "pool_used p = {..<plen p} - freeBitmap (pool p)"

definition pool_inv :: "'a tpool \<Rightarrow> bool" where
  "pool_inv p \<longleftrightarrow> distinct (freeIndices (pool p)) \<and> unat ` set (freeIndices (pool p)) = freeBitmap (pool p) \<and>
     freeBitmap (pool p) \<subseteq> {..<plen p} \<and> plen p \<le> length (arr p) \<and> plen p \<le> 2 ^ 32"

lemma new_pool_inv: "pool_inv new_pool" "pool_used new_pool = {}"
  by (simp_all add: pool_inv_def new_pool_def pool_used_def)

lemma plen_Validate [simp]: "plen (Pool_Validate nc z p i) = max (plen p) (Suc i)"
  by (simp add: Pool_Validate_def grow_to_def Let_def)

lemma pool_Validate [simp]: "pool (Pool_Validate nc z p i) = pool p"
  by (simp add: Pool_Validate_def grow_to_def Let_def)

lemma arr_Validate:
  assumes "plen p \<le> length (arr p)" "\<forall>l. l \<le> nc l"
  shows "length (arr (Pool_Validate nc z p i)) \<ge> max (plen p) (Suc i)"
    and "j < plen p \<Longrightarrow> arr (Pool_Validate nc z p i) ! j = arr p ! j"
  using assms(1) assms(2) [rule_format, of "Suc i"]
  by (auto simp: Pool_Validate_def grow_to_def Let_def data_def nth_append)

lemma GetIndex_pop:
  assumes "pool_inv p" "maxLen (pool p) = 0" "freeIndices (pool p) \<noteq> []"
  obtains p' i where "GetIndex nc z p = Some (i, p')" "i \<in> freeBitmap (pool p)" "i < plen p"
    "freeBitmap (pool p') = freeBitmap (pool p) - {i}" "pool_inv p'" "plen p' = plen p"
    "arr p' = arr p" "maxLen (pool p') = 0" "freeIndices (pool p') = butlast (freeIndices (pool p))"
proof -
  define i where "i = unat (last (freeIndices (pool p)))"
  let ?fi = "freeIndices (pool p)"
  have e: "?fi = butlast ?fi @ [last ?fi]" using assms(3) by simp
  have mem: "i \<in> freeBitmap (pool p)" using assms(1,3) unfolding pool_inv_def i_def by auto
  then have less: "i < plen p" using assms(1) by (auto simp: pool_inv_def)
  have bl: "distinct (butlast ?fi)" "last ?fi \<notin> set (butlast ?fi)" "set ?fi = insert (last ?fi) (set (butlast ?fi))"
    using assms(1) e unfolding pool_inv_def
    by (metis distinct_butlast, metis distinct_append disjoint_iff list.set_intros(1),
        metis Un_insert_right append_Nil2 list.simps(15) set_append)
  have "unat ` set (butlast ?fi) = freeBitmap (pool p) - {i}"
    using assms(1) bl unfolding pool_inv_def i_def by (auto dest: word_unat_eq_iff [THEN iffD2])
  then show thesis using mem less bl assms
    by (intro that[of i "p\<lparr>pool := (pool p)\<lparr>freeIndices := butlast ?fi, freeBitmap := freeBitmap (pool p) - {i}\<rparr>\<rparr>"])
      (auto simp: GetIndex_def Pool_GetIndex_def i_def pool_inv_def Let_def)
qed


lemma GetIndex_extend:
  assumes "pool_inv p" "maxLen (pool p) = 0" "freeIndices (pool p) = []" "plen p < 2 ^ 32" "\<forall>l. l \<le> nc l"
  shows "GetIndex nc z p = Some (plen p, Pool_Validate nc z p (plen p))"
    and "pool_inv (Pool_Validate nc z p (plen p))" and "freeBitmap (pool p) = {}"
  using assms arr_Validate(1) [where p = p and nc = nc and z = z and i = "plen p"]
  by (auto simp: GetIndex_def Pool_GetIndex_def pool_inv_def Let_def)

lemma GetIndex_fresh:
  assumes "pool_inv p" "maxLen (pool p) = 0" "plen p < 2 ^ 32" "\<forall>l. l \<le> nc l"
  shows "\<exists>i p'. GetIndex nc z p = Some (i, p') \<and> i \<notin> pool_used p \<and> pool_used p' = insert i (pool_used p) \<and>
    pool_inv p' \<and> plen p \<le> plen p' \<and> plen p' \<le> Suc (plen p) \<and> i < plen p' \<and> maxLen (pool p') = 0 \<and>
    (\<forall>j < plen p. arr p' ! j = arr p ! j)"
proof (cases "freeIndices (pool p) = []")
  case True
  from GetIndex_extend(1,2) [OF assms(1,2) True assms(3,4), of z] GetIndex_extend(3) [OF assms(1,2) True assms(3,4)] arr_Validate(2) [where p = p and nc = nc and z = z and i = "plen p"] assms
  show ?thesis by (auto simp: pool_used_def pool_inv_def)
next
  case False
  obtain p' i where p': "GetIndex nc z p = Some (i, p')" "i \<in> freeBitmap (pool p)" "i < plen p"
    "freeBitmap (pool p') = freeBitmap (pool p) - {i}" "pool_inv p'" "plen p' = plen p"
    "arr p' = arr p" "maxLen (pool p') = 0"
    by (rule GetIndex_pop [OF assms(1,2) False])
  have "i \<notin> pool_used p" "pool_used p' = insert i (pool_used p)"
    using p'(2-4,6) by (auto simp: pool_used_def)
  then show ?thesis using p' by auto
qed

lemma PutIndex_live:
  assumes "pool_inv p" "i \<in> pool_used p"
  shows "fst (PutIndex p i)" "pool_used (snd (PutIndex p i)) = pool_used p - {i}"
    "pool_inv (snd (PutIndex p i))" "plen (snd (PutIndex p i)) = plen p"
    "arr (snd (PutIndex p i)) = arr p" "maxLen (pool (snd (PutIndex p i))) = maxLen (pool p)"
proof -
  have i: "i \<notin> freeBitmap (pool p)" "i < plen p" "i < 2 ^ 32"
    using assms by (auto simp: pool_used_def pool_inv_def)
  then have u: "unat (word_of_nat i :: u32) = i"
    by (simp add: unsigned_of_nat take_bit_nat_eq_self)
  then have "word_of_nat i \<notin> set (freeIndices (pool p))"
    using assms(1) i(1) unfolding pool_inv_def by (metis imageI)
  then show "fst (PutIndex p i)" "pool_used (snd (PutIndex p i)) = pool_used p - {i}"
    "pool_inv (snd (PutIndex p i))" "plen (snd (PutIndex p i)) = plen p"
    "arr (snd (PutIndex p i)) = arr p" "maxLen (pool (snd (PutIndex p i))) = maxLen (pool p)"
    using assms i u by (auto simp: PutIndex_def Pool_PutIndex_def pool_used_def pool_inv_def)
qed

lemma PutIndex_free: "i \<notin> pool_used p \<Longrightarrow> i < plen p \<Longrightarrow> PutIndex p i = (False, p)"
  by (simp add: PutIndex_def Pool_PutIndex_def pool_used_def)

interpretation tpool: index_allocator "\<lambda>n p. pool_inv p \<and> maxLen (pool p) = 0 \<and> plen p = n"
  pool_used "GetIndex (\<lambda>l. l) z" PutIndex "2 ^ 32"
proof
  fix n and p :: "'a tpool"
  assume "pool_inv p \<and> maxLen (pool p) = 0 \<and> plen p = n" "n < 2 ^ 32"
  then show "\<exists>i s' n'. GetIndex (\<lambda>l. l) z p = Some (i, s') \<and> i \<notin> pool_used p \<and>
      pool_used s' = insert i (pool_used p) \<and> (pool_inv s' \<and> maxLen (pool s') = 0 \<and> plen s' = n') \<and>
      n \<le> n' \<and> n' \<le> Suc n \<and> i < n'"
    using GetIndex_fresh [of p "\<lambda>l. l" z] by auto
qed (auto simp: PutIndex_live PutIndex_free)

lemma Elts_card: "pool_inv p \<Longrightarrow> Elts p = card (pool_used p)"
proof -
  assume p: "pool_inv p"
  have "card (freeBitmap (pool p)) = length (freeIndices (pool p))"
    using p unfolding pool_inv_def
    by (metis card_image distinct_card inj_onI word_unat_eq_iff)
  moreover have "finite (freeBitmap (pool p))" "freeBitmap (pool p) \<subseteq> {..<plen p}"
    using p finite_subset [OF _ finite_lessThan] by (auto simp: pool_inv_def)
  ultimately show ?thesis
    by (simp add: Elts_def FreeLen_def pool_used_def card_Diff_subset)
qed

lemma IsFree_iff: "IsFree p i \<longleftrightarrow> i \<notin> pool_used p"
  by (auto simp: IsFree_def Pool_IsFree_def pool_used_def)

lemma ForeachIndex_used: "ForeachIndex p = sorted_list_of_set (pool_used p)"
proof (rule sorted_distinct_set_unique)
  show "set (ForeachIndex p) = set (sorted_list_of_set (pool_used p))"
    by (auto simp: ForeachIndex_def Pool_IsFree_def pool_used_def)
qed (simp_all add: ForeachIndex_def sorted_wrt_filter)

lemma ResetAll_inv: "pool_inv (Pool_ResetAll p)" "pool_used (Pool_ResetAll p) = {}"
  by (auto simp: Pool_ResetAll_def Pool_Reset_def pool_inv_def pool_used_def Let_def)

subsection \<open>Properties\<close>



text \<open>In a well-formed pool \<open>Elts\<close> counts the used indices, \<open>IsFree\<close> decides them (indices past the end
  are free), and \<open>ForeachIndex\<close> lists them in ascending order.\<close>

theorem pool_observers:
  assumes "pool_inv p"
  shows "Elts p = card (pool_used p) \<and> (\<forall>i. IsFree p i \<longleftrightarrow> i \<notin> pool_used p) \<and>
    ForeachIndex p = sorted_list_of_set (pool_used p)"
  using Elts_card [OF assms] IsFree_iff ForeachIndex_used by blast

lemma pool_observers_witness:
  "Elts (new_pool :: nat tpool) = card (pool_used (new_pool :: nat tpool)) \<and>
    (\<forall>i. IsFree (new_pool :: nat tpool) i \<longleftrightarrow> i \<notin> pool_used (new_pool :: nat tpool)) \<and>
    ForeachIndex (new_pool :: nat tpool) = sorted_list_of_set (pool_used (new_pool :: nat tpool))"
  by (rule pool_observers) (rule new_pool_inv(1))

end
