(* ===== verification/Bitmap_Pool.thy ===== *)
theory Bitmap_Pool
  imports Bitmap_Vec Pool
begin

section \<open>Pooled bitmaps: the Bitmap type of elib/bitmap.go\<close>

text \<open>
  A bitmap is one word: up to 63 bits inline, or, with the top bit set, the complement of the index of a
  word vector in a pool of them. The pool is a typed pool of the theory \<open>Pool\<close>; its own free bitmap is a
  set there, so the pools here are those whose free bitmap does not live in the pool itself. The
  abstraction of a bitmap is the set of its members; a bitmap is live when it is inline or its vector is
  in use and not empty.
\<close>

type_synonym Bitmap = u64
type_synonym BitmapPool = "gword list tpool"

definition isPoolIndex :: "Bitmap \<Rightarrow> bool" where
  "isPoolIndex b \<longleftrightarrow> drop_bit 63 b \<noteq> 0"

definition isInline :: "Bitmap \<Rightarrow> bool" where
  "isInline b \<longleftrightarrow> \<not> isPoolIndex b"

definition bothInline :: "Bitmap \<Rightarrow> Bitmap \<Rightarrow> bool" where
  "bothInline b c \<longleftrightarrow> isInline (b OR c)"

text \<open>\<open>p.bitmaps[bi]\<close>, read and written.\<close>

definition bitmaps :: "BitmapPool \<Rightarrow> nat \<Rightarrow> gword list option" where
  "bitmaps p bi = slice_get (data p) bi"

definition set_bitmaps :: "BitmapPool \<Rightarrow> nat \<Rightarrow> gword list \<Rightarrow> BitmapPool option" where
  "set_bitmaps p bi s = (if bi < plen p then Some (p\<lparr>arr := (arr p)[bi := s]\<rparr>) else None)"

definition bp_new :: "(nat \<Rightarrow> nat) \<Rightarrow> BitmapPool \<Rightarrow> (nat \<times> BitmapPool) option" where
  "bp_new nc p = do {
     (bi, p) \<leftarrow> GetIndex nc [] p;
     Some (bi, Pool_Validate nc [] p bi) }"

definition toMem :: "(nat \<Rightarrow> nat) \<Rightarrow> BitmapPool \<Rightarrow> Bitmap \<Rightarrow> (Bitmap \<times> BitmapPool) option" where
  "toMem nc p b = do {
     (bi, p) \<leftarrow> bp_new nc p;
     s \<leftarrow> bitmaps p bi;
     p \<leftarrow> set_bitmaps p bi (if s = [] then s @ [b] else (take 1 s)[0 := b]);
     Some (NOT (of_nat bi), p) }"

definition inlineToMem :: "(nat \<Rightarrow> nat) \<Rightarrow> BitmapPool \<Rightarrow> Bitmap \<Rightarrow> (Bitmap \<times> BitmapPool) option" where
  "inlineToMem nc p b = (if isInline b then toMem nc p b else Some (b, p))"

text \<open>The update the three two-result operations share: the word with bit \<open>x\<close>, found or made.\<close>

definition bp_modify :: "BitmapPool \<Rightarrow> Bitmap \<Rightarrow> u64 \<Rightarrow> (gword \<Rightarrow> gword \<Rightarrow> gword) \<Rightarrow> (BitmapPool \<times> bool) option" where
  "bp_modify p r x f = (let (i, m) = bitmapIndex x; bi = unat (NOT r) in do {
     s \<leftarrow> bitmaps p bi;
     let s = vec_validate 0 i s;
     p \<leftarrow> set_bitmaps p bi s;
     si \<leftarrow> slice_get s i;
     s \<leftarrow> slice_set s i (f si m);
     p \<leftarrow> set_bitmaps p bi s;
     Some (p, si AND m \<noteq> 0) })"

definition bp_Set2 :: "(nat \<Rightarrow> nat) \<Rightarrow> BitmapPool \<Rightarrow> Bitmap \<Rightarrow> u64 \<Rightarrow> (Bitmap \<times> bool \<times> BitmapPool) option" where
  "bp_Set2 nc p b x =
     (if isInline b \<and> x < WordBits - 1 then let m = push_bit (unat x) 1 in Some (b OR m, b AND m \<noteq> 0, p)
      else do {
        (r, p) \<leftarrow> (if isInline b then toMem nc p b else Some (b, p));
        (p, v) \<leftarrow> bp_modify p r x (\<lambda>si m. si OR m);
        Some (r, v, p) })"

definition bp_Set :: "(nat \<Rightarrow> nat) \<Rightarrow> BitmapPool \<Rightarrow> Bitmap \<Rightarrow> u64 \<Rightarrow> (Bitmap \<times> BitmapPool) option" where
  "bp_Set nc p b x = do { (r, _, p) \<leftarrow> bp_Set2 nc p b x; Some (r, p) }"

definition bp_Get :: "BitmapPool \<Rightarrow> Bitmap \<Rightarrow> u64 \<Rightarrow> bool option" where
  "bp_Get p b x =
     (if \<not> isPoolIndex b then let m = (if WordBits \<le> x then 0 else push_bit (unat x) 1) in Some (b AND m \<noteq> 0)
      else let (i, m) = bitmapIndex x in do {
        bm \<leftarrow> bitmaps p (unat (NOT b));
        Some (if i < length bm then bm ! i AND m \<noteq> 0 else False) })"

definition bp_Unset2 :: "BitmapPool \<Rightarrow> Bitmap \<Rightarrow> u64 \<Rightarrow> (Bitmap \<times> bool \<times> BitmapPool) option" where
  "bp_Unset2 p b x =
     (if \<not> isPoolIndex b then let m = push_bit (unat x) 1 in Some (b AND NOT m, b AND m \<noteq> 0, p)
      else let (i, m) = bitmapIndex x in do {
        s \<leftarrow> bitmaps p (unat (NOT b));
        si \<leftarrow> slice_get s i;
        s \<leftarrow> slice_set s i (si AND NOT m);
        p \<leftarrow> set_bitmaps p (unat (NOT b)) s;
        Some (b, si AND m \<noteq> 0, p) })"

definition bp_Unset :: "BitmapPool \<Rightarrow> Bitmap \<Rightarrow> u64 \<Rightarrow> (Bitmap \<times> BitmapPool) option" where
  "bp_Unset p b x = do { (r, _, p) \<leftarrow> bp_Unset2 p b x; Some (r, p) }"

definition bp_Invert2 :: "(nat \<Rightarrow> nat) \<Rightarrow> BitmapPool \<Rightarrow> Bitmap \<Rightarrow> u64 \<Rightarrow> (Bitmap \<times> bool \<times> BitmapPool) option" where
  "bp_Invert2 nc p b x =
     (if isInline b \<and> x < WordBits - 1 then let m = push_bit (unat x) 1 in Some (b XOR m, b AND m \<noteq> 0, p)
      else do {
        (r, p) \<leftarrow> (if isInline b then toMem nc p b else Some (b, p));
        (p, v) \<leftarrow> bp_modify p r x (\<lambda>si m. si XOR m);
        Some (r, v, p) })"

definition bp_Invert :: "(nat \<Rightarrow> nat) \<Rightarrow> BitmapPool \<Rightarrow> Bitmap \<Rightarrow> u64 \<Rightarrow> (Bitmap \<times> BitmapPool) option" where
  "bp_Invert nc p b x = do { (r, _, p) \<leftarrow> bp_Invert2 nc p b x; Some (r, p) }"

definition bp_Orx :: "(nat \<Rightarrow> nat) \<Rightarrow> BitmapPool \<Rightarrow> Bitmap \<Rightarrow> u64 \<Rightarrow> (Bitmap \<times> BitmapPool) option" where
  "bp_Orx nc p b x =
     (if \<not> isPoolIndex b \<and> x < WordBits - 1 then Some (b OR push_bit (unat x) 1, p)
      else do {
        (r, p) \<leftarrow> (if \<not> isPoolIndex b then toMem nc p b else Some (b, p));
        (p, _) \<leftarrow> bp_modify p r x (\<lambda>si m. si OR m);
        Some (r, p) })"

text \<open>The words of the second operand.\<close>

definition bp_words :: "BitmapPool \<Rightarrow> Bitmap \<Rightarrow> gword list option" where
  "bp_words p c = (if isPoolIndex c then bitmaps p (unat (NOT c)) else Some [c])"

fun or_words :: "gword list \<Rightarrow> gword list \<Rightarrow> gword list" where
  "or_words (s # ss) (c # cs) = (s OR c) # or_words ss cs"
| "or_words ss cs = ss"

definition bp_Or :: "(nat \<Rightarrow> nat) \<Rightarrow> BitmapPool \<Rightarrow> Bitmap \<Rightarrow> Bitmap \<Rightarrow> (Bitmap \<times> BitmapPool) option" where
  "bp_Or nc p b c =
     (if bothInline b c then Some (b OR c, p)
      else do {
        (r, p) \<leftarrow> inlineToMem nc p b;
        let bi = unat (NOT r);
        cs \<leftarrow> bp_words p c;
        s \<leftarrow> bitmaps p bi;
        panic_unless (cs \<noteq> []);
        p \<leftarrow> set_bitmaps p bi (or_words (vec_validate 0 (length cs - 1) s) cs);
        Some (r, p) })"

definition checkInline :: "BitmapPool \<Rightarrow> Bitmap \<Rightarrow> (Bitmap \<times> BitmapPool) option" where
  "checkInline p b = do {
     s \<leftarrow> bitmaps p (unat (NOT b));
     Some (if length s > 1 \<or> length s = 1 \<and> \<not> isInline (s ! 0) then (b, p)
       else (if length s = 1 then s ! 0 else 0, snd (PutIndex p (unat (NOT b))))) }"

fun and_not_words :: "gword list \<Rightarrow> gword list \<Rightarrow> gword list" where
  "and_not_words (s # ss) (c # cs) = (s AND NOT c) # and_not_words ss cs"
| "and_not_words ss cs = ss"

text \<open>One more than the index of the last non-zero word among the first \<open>n\<close>, as the loop counts it.\<close>

fun last_nonzero :: "gword list \<Rightarrow> nat \<Rightarrow> nat" where
  "last_nonzero s 0 = 0"
| "last_nonzero s (Suc i) = (if s ! i \<noteq> 0 then Suc i else last_nonzero s i)"

definition bp_AndNot :: "(nat \<Rightarrow> nat) \<Rightarrow> BitmapPool \<Rightarrow> Bitmap \<Rightarrow> Bitmap \<Rightarrow> (Bitmap \<times> BitmapPool) option" where
  "bp_AndNot nc p b c =
     (if bothInline b c then Some (b AND NOT c, p)
      else do {
        (r, p) \<leftarrow> inlineToMem nc p b;
        let bi = unat (NOT r);
        cs \<leftarrow> bp_words p c;
        s \<leftarrow> bitmaps p bi;
        panic_unless (cs \<noteq> []);
        let s = and_not_words (vec_validate 0 (length cs - 1) s) cs;
        p \<leftarrow> set_bitmaps p bi (take (last_nonzero s (length cs)) s);
        checkInline p r })"

definition bp_AndNotx :: "(nat \<Rightarrow> nat) \<Rightarrow> BitmapPool \<Rightarrow> Bitmap \<Rightarrow> u64 \<Rightarrow> (Bitmap \<times> BitmapPool) option" where
  "bp_AndNotx nc p b x =
     (if \<not> isPoolIndex b \<and> x < WordBits - 1 then Some (b AND NOT (push_bit (unat x) 1), p)
      else do {
        (r, p) \<leftarrow> (if \<not> isPoolIndex b then toMem nc p b else Some (b, p));
        let bi = unat (NOT r);
        let (i, m) = bitmapIndex x;
        s \<leftarrow> bitmaps p bi;
        let s = vec_validate 0 i s;
        v \<leftarrow> slice_get s i;
        let v = v AND NOT m;
        s \<leftarrow> slice_set s i v;
        p \<leftarrow> set_bitmaps p bi s;
        if i = length s - 1 \<and> v = 0
        then do {
          p \<leftarrow> set_bitmaps p bi (take (last_nonzero s (length s)) s);
          checkInline p r }
        else Some (r, p) })"

definition Dup :: "(nat \<Rightarrow> nat) \<Rightarrow> BitmapPool \<Rightarrow> Bitmap \<Rightarrow> (Bitmap \<times> BitmapPool) option" where
  "Dup nc p b =
     (if isPoolIndex b
      then do {
        (bi, p) \<leftarrow> bp_new nc p;
        s \<leftarrow> bitmaps p (unat (NOT b));
        panic_unless (s \<noteq> []);
        d \<leftarrow> bitmaps p bi;
        let d = take (length s) (vec_validate 0 (length s - 1) d);
        p \<leftarrow> set_bitmaps p bi (take (length d) s @ drop (length s) d);
        Some (NOT (of_nat bi), p) }
      else Some (b, p))"

definition bp_Free :: "BitmapPool \<Rightarrow> Bitmap \<Rightarrow> Bitmap \<times> BitmapPool" where
  "bp_Free p b = (0, if isPoolIndex b then snd (PutIndex p (unat (NOT b))) else p)"

definition bp_ForeachSetBit :: "BitmapPool \<Rightarrow> Bitmap \<Rightarrow> u64 list option" where
  "bp_ForeachSetBit p b = do {
     s \<leftarrow> bp_words p b;
     Some (concat (map (\<lambda>i. map (\<lambda>l. of_nat (i * 64) + l) (ForeachSetBit (s ! i))) [0..<length s])) }"

fun next_word :: "gword list \<Rightarrow> nat \<Rightarrow> u64 option" where
  "next_word [] i = None"
| "next_word (m # ms) i = (if m \<noteq> 0 then Some (of_nat i * WordBits + MinLog2 (FirstSet m)) else next_word ms (i + 1))"

text \<open>\<open>Next\<close>: the new value of the cursor and whether there is a next bit.\<close>

definition bp_Next :: "BitmapPool \<Rightarrow> Bitmap \<Rightarrow> u64 \<Rightarrow> (u64 \<times> bool) option" where
  "bp_Next p b x = (
     let (i, m) = (if x \<noteq> NOT 0 then let (i, m) = bitmapIndex x in (i, NOT (m OR (m - 1))) else (0, NOT 0))
     in do {
       s \<leftarrow> bp_words p b;
       si \<leftarrow> slice_get s i;
       let m = m AND si;
       Some (if m \<noteq> 0 then (of_nat i * WordBits + MinLog2 (FirstSet m), True)
         else case next_word (drop (i + 1) s) (i + 1) of Some y \<Rightarrow> (y, True) | None \<Rightarrow> (NOT 0, False)) })"

subsection \<open>Live bitmaps and their members\<close>

definition ix :: "Bitmap \<Rightarrow> nat" where
  "ix b = unat (NOT b)"

definition bp_inv :: "BitmapPool \<Rightarrow> bool" where
  "bp_inv p \<longleftrightarrow> pool_inv p \<and> maxLen (pool p) = 0"

definition words :: "BitmapPool \<Rightarrow> Bitmap \<Rightarrow> gword list" where
  "words p b = (if isPoolIndex b then arr p ! ix b else [b])"

definition members :: "BitmapPool \<Rightarrow> Bitmap \<Rightarrow> nat set" where
  "members p b = bv_members (words p b)"

definition live :: "BitmapPool \<Rightarrow> Bitmap \<Rightarrow> bool" where
  "live p b \<longleftrightarrow> isPoolIndex b \<longrightarrow> ix b \<in> pool_used p \<and> arr p ! ix b \<noteq> []"

text \<open>What an operation that turns \<open>b\<close> into \<open>r\<close> keeps: every other live bitmap, and none is confused
  with the result.\<close>

definition keeps :: "BitmapPool \<Rightarrow> Bitmap \<Rightarrow> BitmapPool \<Rightarrow> Bitmap \<Rightarrow> bool" where
  "keeps p b p' r \<longleftrightarrow> bp_inv p' \<and> plen p \<le> plen p' \<and> plen p' \<le> Suc (plen p) \<and>
     (\<forall>c. live p c \<and> (isInline c \<or> c \<noteq> b) \<longrightarrow> live p' c \<and> words p' c = words p c \<and> (isInline c \<or> c \<noteq> r))"

lemma isPoolIndex_bit: "isPoolIndex b \<longleftrightarrow> bit b 63"
proof
  assume "isPoolIndex b"
  then obtain k where k: "bit b (63 + k)" by (auto simp: isPoolIndex_def bit_eq_iff bit_simps)
  then have "63 + k < 64" using bit_imp_le_length by fastforce
  then show "bit b 63" using k by simp
next
  assume "bit b 63"
  then have "bit (drop_bit 63 b) 0" by (simp add: bit_drop_bit_eq)
  then show "isPoolIndex b" by (auto simp: isPoolIndex_def)
qed

lemma ix_NOT [simp]: "ix (NOT (of_nat i)) = i" if "i < 2 ^ 33"
  using that by (simp add: ix_def unsigned_of_nat take_bit_nat_eq_self)

lemma isPoolIndex_NOT:
  assumes "i < 2 ^ 33"
  shows "isPoolIndex (NOT (of_nat i))"
proof -
  have "\<not> bit i 63" using assms by (simp add: bit_iff_odd)
  then have "\<not> bit (of_nat i :: Bitmap) 63" by (simp only: bit_of_nat_iff simp_thms)
  then show ?thesis unfolding isPoolIndex_bit by (simp only: bit_not_iff_eq) simp
qed

lemma ix_inj: "ix b = ix c \<longleftrightarrow> b = c"
  by (simp add: ix_def flip: word_unat_eq_iff)

lemma keeps_refl: "bp_inv p \<Longrightarrow> keeps p b p b"
  by (auto simp: keeps_def)

lemma bitmaps_used:
  assumes "bp_inv p" "i \<in> pool_used p"
  shows "bitmaps p i = Some (arr p ! i)" "i < plen p" "i < length (arr p)"
  using assms by (auto simp: bitmaps_def data_def bp_inv_def pool_inv_def pool_used_def)

lemma set_bitmaps_used:
  assumes "bp_inv p" "isPoolIndex r" "ix r \<in> pool_used p"
  obtains p' where "set_bitmaps p (ix r) s = Some p'" "keeps p r p' r" "words p' r = s"
    "pool_used p' = pool_used p" "bp_inv p'" "plen p' = plen p"
proof (rule that)
  note b = bitmaps_used [OF assms(1,3)]
  let ?p = "p\<lparr>arr := (arr p)[ix r := s]\<rparr>"
  show "set_bitmaps p (ix r) s = Some ?p" using b(2) by (simp add: set_bitmaps_def)
  show i: "bp_inv ?p" using assms(1) by (simp add: bp_inv_def pool_inv_def)
  show u: "pool_used ?p = pool_used p" by (simp add: pool_used_def)
  show "keeps p r ?p r" unfolding keeps_def using i u
    by (auto simp: live_def words_def isInline_def nth_list_update ix_inj)
  show "words ?p r = s" using b(3) assms(2) by (simp add: words_def)
qed simp

lemma keeps_trans [trans]: "keeps p b p1 r1 \<Longrightarrow> keeps p1 r1 p2 r2 \<Longrightarrow> plen p1 = plen p \<or> plen p2 = plen p1 \<Longrightarrow> keeps p b p2 r2"
  unfolding keeps_def by auto

lemma Pool_Validate_id: "i < plen p \<Longrightarrow> plen p \<le> length (arr p) \<Longrightarrow> Pool_Validate nc z p i = p"
  by (simp add: Pool_Validate_def grow_to_def Let_def)

lemma bp_new_fresh:
  assumes "bp_inv p" "plen p < 2 ^ 32" "\<forall>l. l \<le> nc l"
  obtains bi p' where "bp_new nc p = Some (bi, p')" "bi \<notin> pool_used p" "pool_used p' = insert bi (pool_used p)"
    "bp_inv p'" "bi < 2 ^ 33" "plen p \<le> plen p'" "plen p' \<le> Suc (plen p)" "\<forall>j \<in> pool_used p. arr p' ! j = arr p ! j"
proof -
  obtain bi p' where p': "GetIndex nc [] p = Some (bi, p')" "bi \<notin> pool_used p" "pool_used p' = insert bi (pool_used p)"
    "pool_inv p'" "plen p \<le> plen p'" "plen p' \<le> Suc (plen p)" "bi < plen p'" "maxLen (pool p') = 0"
    "\<forall>j < plen p. arr p' ! j = arr p ! j"
    using GetIndex_fresh [of p nc "[]"] assms unfolding bp_inv_def by auto
  then have "bp_new nc p = Some (bi, p')" by (simp add: bp_new_def Pool_Validate_id pool_inv_def)
  then show thesis using p' assms(2) by (intro that) (auto simp: bp_inv_def pool_used_def)
qed

lemma toMem_fresh:
  assumes "bp_inv p" "plen p < 2 ^ 32" "\<forall>l. l \<le> nc l" "isInline b"
  obtains r p' where "toMem nc p b = Some (r, p')" "isPoolIndex r" "ix r \<in> pool_used p'" "words p' r = [b]"
    "keeps p b p' r" "bp_inv p'"
proof -
  obtain bi p1 where p1: "bp_new nc p = Some (bi, p1)" "bi \<notin> pool_used p" "pool_used p1 = insert bi (pool_used p)"
    "bp_inv p1" "bi < 2 ^ 33" "plen p \<le> plen p1" "plen p1 \<le> Suc (plen p)"
    "\<forall>j \<in> pool_used p. arr p1 ! j = arr p ! j"
    by (rule bp_new_fresh [OF assms(1-3)])
  define r where "r = (NOT (of_nat bi) :: Bitmap)"
  define s where "s = arr p1 ! bi"
  have r: "ix r = bi" "isPoolIndex r" using p1(5) by (simp_all add: r_def isPoolIndex_NOT)
  then have used: "ix r \<in> pool_used p1" using p1(3) by simp
  have s: "bitmaps p1 bi = Some s" using bitmaps_used(1) [OF p1(4) used] r(1) by (simp add: s_def)
  have b: "(if s = [] then s @ [b] else (take 1 s)[0 := b]) = [b]" by (cases s) auto
  obtain p2 where p2: "set_bitmaps p1 (ix r) [b] = Some p2" "keeps p1 r p2 r" "words p2 r = [b]"
    "pool_used p2 = pool_used p1" "bp_inv p2" "plen p2 = plen p1"
    by (rule set_bitmaps_used [OF p1(4) r(2) used])
  have "toMem nc p b = Some (r, p2)"
    using p1(1) s p2(1) r(1) by (simp add: toMem_def b r_def)
  moreover have "keeps p b p1 r"
    using p1 r assms(1) unfolding keeps_def by (auto simp: live_def words_def isInline_def)
  then have "keeps p b p2 r" using p2(2) by (rule keeps_trans) (simp add: p2(6))
  ultimately show thesis using that r(2) used p2(3-5) by simp
qed

text \<open>The first step of every operation that may move an inline bitmap to memory.\<close>

lemma to_memory:
  assumes "bp_inv p" "plen p < 2 ^ 32" "\<forall>l. l \<le> nc l" "live p b"
  obtains r p' where "(if isInline b then toMem nc p b else Some (b, p)) = Some (r, p')" "isPoolIndex r"
    "ix r \<in> pool_used p'" "words p' r = words p b" "words p b \<noteq> []" "keeps p b p' r" "bp_inv p'"
proof (cases "isInline b")
  case True
  obtain r p' where "toMem nc p b = Some (r, p')" "isPoolIndex r" "ix r \<in> pool_used p'" "words p' r = [b]"
    "keeps p b p' r" "bp_inv p'"
    by (rule toMem_fresh [OF assms(1-3) True])
  then show thesis using True by (intro that) (auto simp: words_def isInline_def)
next
  case False
  then show thesis using assms(1,4) by (intro that [of b p]) (auto simp: live_def isInline_def words_def keeps_refl)
qed

subsection \<open>The operations as set operations\<close>

lemma bp_modify_or:
  assumes "bp_inv p" "isPoolIndex r" "ix r \<in> pool_used p"
  obtains p' where "bp_modify p r x (\<lambda>si m. si OR m) = Some (p', unat x \<in> members p r)"
    "keeps p r p' r" "live p' r" "members p' r = insert (unat x) (members p r)" "plen p' = plen p"
proof -
  define i where "i = unat x div 64"
  define s where "s = vec_validate 0 i (arr p ! ix r)"
  have il: "i < length s" by (simp add: s_def)
  have m: "bv_members s = members p r" using assms(2) by (simp add: s_def members_def words_def)
  define t where "t = s[i := s ! i OR push_bit (unat x mod 64) 1]"
  obtain p1 where p1: "set_bitmaps p (ix r) s = Some p1" "keeps p r p1 r" "words p1 r = s"
    "pool_used p1 = pool_used p" "bp_inv p1" "plen p1 = plen p"
    by (rule set_bitmaps_used [OF assms])
  then have u1: "ix r \<in> pool_used p1" using assms(3) by simp
  obtain p2 where p2: "set_bitmaps p1 (ix r) t = Some p2" "keeps p1 r p2 r" "words p2 r = t"
    "pool_used p2 = pool_used p1" "bp_inv p2" "plen p2 = plen p1"
    by (rule set_bitmaps_used [OF p1(5) assms(2) u1])
  have tm: "bv_members t = insert (unat x) (members p r)"
    using bv_members_or [of "unat x" s] il m by (simp add: t_def i_def)
  have old: "s ! i AND push_bit (unat x mod 64) 1 \<noteq> 0 \<longleftrightarrow> unat x \<in> members p r"
    using m il by (simp add: i_def flip: m) (simp add: bv_members_iff)
  have "bp_modify p r x (\<lambda>si m. si OR m) = Some (p2, unat x \<in> members p r)"
    using bitmaps_used(1) [OF assms(1,3)] p1(1) p2(1) il old
    by (simp add: bp_modify_def bitmapIndex_eq Let_def s_def [symmetric] i_def [symmetric] ix_def [symmetric] t_def)
  moreover have "keeps p r p2 r" using p1(2) p2(2) by (rule keeps_trans) (simp add: p1(6))
  moreover have "t \<noteq> []" using il by (auto simp: t_def)
  then have "live p2 r" using p2(3,4) u1 assms(2) by (simp add: live_def words_def)
  ultimately show thesis using that p2(3,6) p1(6) tm by (simp add: members_def)
qed

lemma inline_or:
  assumes "isInline b" "x < (63 :: u64)"
  shows "isInline (b OR push_bit (unat x) 1)" "b AND push_bit (unat x) 1 \<noteq> 0 \<longleftrightarrow> unat x \<in> bv_members [b]"
    "bv_members [b OR push_bit (unat x) 1] = insert (unat x) (bv_members [b])"
proof -
  have x: "unat x < 63" using assms(2) by (simp add: word_less_nat_alt)
  then show "isInline (b OR push_bit (unat x) 1)"
    using assms(1) by (simp add: isInline_def isPoolIndex_bit bit_simps)
  show "b AND push_bit (unat x) 1 \<noteq> 0 \<longleftrightarrow> unat x \<in> bv_members [b]"
    using x by (simp add: bv_members_iff)
  show "bv_members [b OR push_bit (unat x) 1] = insert (unat x) (bv_members [b])"
    using bv_members_or [of "unat x" "[b]"] x by simp
qed

lemma words_inline: "isInline b \<Longrightarrow> words p b = [b]" "isInline b \<Longrightarrow> live p b"
  by (auto simp: isInline_def words_def live_def)

lemma keeps_inline: "bp_inv p \<Longrightarrow> isInline b \<Longrightarrow> isInline r \<Longrightarrow> keeps p b p r"
  by (auto simp: keeps_def isInline_def live_def)

lemma WordBits_minus_1: "WordBits - 1 = (63 :: u64)"
  by (simp add: WordBits_def Log2WordBits_def)

lemma bp_Set2_spec:
  assumes "bp_inv p" "plen p < 2 ^ 32" "\<forall>l. l \<le> nc l" "live p b"
  shows "\<exists>r p'. bp_Set2 nc p b x = Some (r, unat x \<in> members p b, p') \<and> keeps p b p' r \<and> live p' r \<and>
    members p' r = insert (unat x) (members p b)"
proof (cases "isInline b \<and> x < 63")
  case True
  then have i: "isInline b" "x < 63" by simp_all
  note io = inline_or [OF i]
  have "bp_Set2 nc p b x = Some (b OR push_bit (unat x) 1, unat x \<in> members p b, p)"
    using i io(2) by (simp add: bp_Set2_def WordBits_minus_1 Let_def members_def words_inline)
  then show ?thesis using keeps_inline [OF assms(1) i(1) io(1)] io i words_inline(1,2) [OF io(1)]
    by (simp add: members_def words_inline)
next
  case False
  obtain r p1 where p1: "(if isInline b then toMem nc p b else Some (b, p)) = Some (r, p1)" "isPoolIndex r"
    "ix r \<in> pool_used p1" "words p1 r = words p b" "keeps p b p1 r" "bp_inv p1"
    by (rule to_memory [OF assms])
  obtain p2 where p2: "bp_modify p1 r x (\<lambda>si m. si OR m) = Some (p2, unat x \<in> members p1 r)"
    "keeps p1 r p2 r" "live p2 r" "members p2 r = insert (unat x) (members p1 r)" "plen p2 = plen p1"
    by (rule bp_modify_or [OF p1(6,2,3)])
  have "bp_Set2 nc p b x = Some (r, unat x \<in> members p b, p2)"
    unfolding bp_Set2_def WordBits_minus_1 using False p1(1,4) p2(1)
    by (simp only: if_False p1(1)) (simp add: members_def)
  moreover have "keeps p b p2 r" using p1(5) p2(2) by (rule keeps_trans) (simp add: p2(5))
  ultimately show ?thesis using p2(3,4) p1(4) by (simp add: members_def)
qed

lemma bp_Get_spec:
  assumes "bp_inv p" "live p b"
  shows "bp_Get p b x = Some (unat x \<in> members p b)"
proof (cases "isPoolIndex b")
  case True
  then have "bitmaps p (unat (NOT b)) = Some (arr p ! ix b)"
    using bitmaps_used(1) [OF assms(1), of "ix b"] assms(2) by (simp add: live_def ix_def)
  then show ?thesis using True
    by (simp add: bp_Get_def bitmapIndex_eq members_def words_def bv_members_iff)
next
  case False
  have "WordBits \<le> x \<longleftrightarrow> \<not> unat x < 64"
    by (simp add: WordBits_def Log2WordBits_def word_le_nat_alt not_less)
  then show ?thesis using False
    by (auto simp: bp_Get_def members_def words_def bv_members_iff Let_def bit_imp_le_length)
qed

text \<open>Trailing zero words hold no members.\<close>

lemma last_nonzero_le: "last_nonzero s n \<le> n"
  by (induction n) auto

lemma last_nonzero_zero: "last_nonzero s n \<le> j \<Longrightarrow> j < n \<Longrightarrow> s ! j = 0"
  by (induction n) (auto simp: less_Suc_eq split: if_splits)

lemma bv_members_trim: "bv_members (take (last_nonzero s (length s)) s) = bv_members s"
proof -
  have "bit (s ! j) k \<Longrightarrow> j < length s \<Longrightarrow> j < last_nonzero s (length s)" for j k
    using last_nonzero_zero [of s "length s" j] by (cases "j < last_nonzero s (length s)") auto
  then show ?thesis by (auto simp: bv_members_iff)
qed

lemma checkInline_spec:
  assumes "bp_inv p" "isPoolIndex r" "ix r \<in> pool_used p"
  obtains r' p' where "checkInline p r = Some (r', p')" "keeps p r p' r'" "live p' r'"
    "members p' r' = members p r" "plen p' = plen p"
proof -
  let ?s = "arr p ! ix r"
  have s: "bitmaps p (unat (NOT r)) = Some ?s" using bitmaps_used(1) [OF assms(1,3)] by (simp add: ix_def)
  show thesis
  proof (cases "length ?s > 1 \<or> length ?s = 1 \<and> \<not> isInline (?s ! 0)")
    case True
    then have "checkInline p r = Some (r, p)" using s by (simp add: checkInline_def)
    moreover have "live p r" using True assms(2,3) by (auto simp: live_def)
    ultimately show thesis using that keeps_refl [OF assms(1)] by simp
  next
    case False
    let ?r = "if length ?s = 1 then ?s ! 0 else 0" and ?p = "snd (PutIndex p (ix r))"
    have "pool_inv p" using assms(1) by (simp add: bp_inv_def)
    note put = PutIndex_live [OF this assms(3)]
    have inl: "isInline ?r" using False by (auto simp: isInline_def isPoolIndex_def)
    have "bv_members [?r] = bv_members ?s"
    proof (cases "?s")
      case Nil
      then show ?thesis by (auto simp: bv_members_iff)
    next
      case (Cons w ws)
      then have "?s = [w]" using False by (cases ws) auto
      then show ?thesis by simp
    qed
    then have mem: "members ?p ?r = members p r"
      unfolding members_def words_inline(1) [OF inl] using assms(2) by (simp only: words_def if_True)
    have c: "live ?p c \<and> words ?p c = words p c" if "live p c" "isInline c \<or> c \<noteq> r" for c
      using that put(2,5) by (auto simp: live_def words_def isInline_def ix_inj)
    have "bp_inv ?p" using put(3,6) assms(1) by (simp add: bp_inv_def)
    then have k: "keeps p r ?p ?r" unfolding keeps_def using put(4) c inl by (auto simp: isInline_def)
    have e: "checkInline p r = Some (?r, ?p)" using s False by (simp add: checkInline_def ix_def)
    show thesis by (rule that [OF e k words_inline(2) [OF inl] mem put(4)])
  qed
qed

lemma inline_and_not:
  assumes "isInline b"
  shows "isInline (b AND NOT c)" "bv_members [b AND NOT c] = bv_members [b] - bv_members [c]"
  using assms by (auto simp: isInline_def isPoolIndex_bit bv_members_iff bit_simps)

lemma bv_members_bit: "unat x < 64 \<Longrightarrow> bv_members [push_bit (unat x) 1 :: gword] = {unat x}"
  by (auto simp: bv_members_iff bit_simps)

lemma bp_AndNotx_spec:
  assumes "bp_inv p" "plen p < 2 ^ 32" "\<forall>l. l \<le> nc l" "live p b"
  shows "\<exists>r p'. bp_AndNotx nc p b x = Some (r, p') \<and> keeps p b p' r \<and> live p' r \<and>
    members p' r = members p b - {unat x}"
proof (cases "isInline b \<and> x < 63")
  case True
  then have "unat x < 64" by (simp add: word_less_nat_alt)
  moreover have "bp_AndNotx nc p b x = Some (b AND NOT (push_bit (unat x) 1), p)"
    using True by (simp add: bp_AndNotx_def WordBits_minus_1 isInline_def)
  ultimately show ?thesis using True inline_and_not [of b "push_bit (unat x) 1"] keeps_inline [OF assms(1)]
    by (simp add: members_def words_inline bv_members_bit)
next
  case False
  obtain r p1 where p1: "(if isInline b then toMem nc p b else Some (b, p)) = Some (r, p1)" "isPoolIndex r"
    "ix r \<in> pool_used p1" "words p1 r = words p b" "words p b \<noteq> []" "keeps p b p1 r" "bp_inv p1"
    by (rule to_memory [OF assms])
  define i where "i = unat x div 64"
  define s where "s = vec_validate 0 i (arr p1 ! ix r)"
  define v where "v = s ! i AND NOT (push_bit (unat x mod 64) 1)"
  define t where "t = s[i := v]"
  have il: "i < length s" by (simp add: s_def)
  have m: "bv_members s = members p b" using p1(2,4) by (simp add: s_def members_def words_def split: if_splits)
  have tm: "bv_members t = members p b - {unat x}"
    using bv_members_and_not [of "unat x" s] il m by (simp add: t_def v_def i_def)
  obtain p2 where p2: "set_bitmaps p1 (ix r) t = Some p2" "keeps p1 r p2 r" "words p2 r = t"
    "pool_used p2 = pool_used p1" "bp_inv p2" "plen p2 = plen p1"
    by (rule set_bitmaps_used [OF p1(7,2,3)])
  have k2: "keeps p b p2 r" using p1(6) p2(2) by (rule keeps_trans) (simp add: p2(6))
  have u2: "ix r \<in> pool_used p2" using p1(3) p2(4) by simp
  have c1: "(if \<not> isPoolIndex b then toMem nc p b else Some (b, p)) = Some (r, p1)"
    using p1(1) by (simp add: isInline_def)
  have e: "bp_AndNotx nc p b x = (if i = length t - 1 \<and> v = 0
        then do { p3 \<leftarrow> set_bitmaps p2 (ix r) (take (last_nonzero t (length t)) t); checkInline p3 r }
        else Some (r, p2))"
  proof -
    have n: "(\<not> isPoolIndex b \<and> x < 63) = False" using False by (simp add: isInline_def)
    have sg: "slice_get s i = Some (s ! i)" "slice_set s i v = Some t" using il by (simp_all add: t_def)
    have ix: "bitmapIndex x = (i, push_bit (unat x mod 64) 1)" by (simp add: bitmapIndex_eq i_def)
    show ?thesis
      unfolding bp_AndNotx_def WordBits_minus_1 c1 n if_False ix_def [symmetric] ix
      by (simp only: Let_def prod.case Option.bind.simps bitmaps_used(1) [OF p1(7,3)] s_def [symmetric] sg
          v_def [symmetric] p2(1))
  qed
  show ?thesis
  proof (cases "i = length t - 1 \<and> v = 0")
    case True
    let ?u = "take (last_nonzero t (length t)) t"
    obtain p3 where p3: "set_bitmaps p2 (ix r) ?u = Some p3" "keeps p2 r p3 r" "words p3 r = ?u"
      "pool_used p3 = pool_used p2" "bp_inv p3" "plen p3 = plen p2"
      by (rule set_bitmaps_used [OF p2(5) p1(2) u2])
    then have u3: "ix r \<in> pool_used p3" using u2 by simp
    obtain r' p4 where p4: "checkInline p3 r = Some (r', p4)" "keeps p3 r p4 r'" "live p4 r'"
      "members p4 r' = members p3 r" "plen p4 = plen p3"
      by (rule checkInline_spec [OF p3(5) p1(2) u3])
    have "keeps p b p4 r'" using k2 keeps_trans [OF p3(2) p4(2)] by (rule keeps_trans) (simp_all add: p4(5) p3(6))
    moreover have "members p4 r' = members p b - {unat x}"
      using p4(4) p3(3) tm by (simp add: members_def bv_members_trim)
    ultimately show ?thesis using e True p3(1) p4(1,3) by simp
  next
    case False
    have "t \<noteq> []" using il by (auto simp: t_def)
    then have "live p2 r" using p1(2) p2(3) u2 by (simp add: live_def words_def)
    moreover have "bp_AndNotx nc p b x = Some (r, p2)" unfolding e using False by (rule if_not_P)
    ultimately show ?thesis using k2 p2(3) tm by (auto simp: members_def)
  qed
qed

lemma or_words_nth: "length (or_words s c) = length s"
  "i < length s \<Longrightarrow> or_words s c ! i = (if i < length c then s ! i OR c ! i else s ! i)"
  by (induction s c arbitrary: i rule: or_words.induct) (auto simp: nth_Cons split: nat.splits)

lemma bv_members_or_words: "length c \<le> length s \<Longrightarrow> bv_members (or_words s c) = bv_members s \<union> bv_members c"
  by (auto simp: bv_members_iff or_words_nth bit_or_iff split: if_splits)

lemma bp_words_live: "bp_inv p \<Longrightarrow> live p c \<Longrightarrow> bp_words p c = Some (words p c) \<and> words p c \<noteq> []"
  using bitmaps_used(1) [of p "ix c"] by (auto simp: bp_words_def words_def live_def ix_def)

lemma bp_Or_spec:
  assumes "bp_inv p" "plen p < 2 ^ 32" "\<forall>l. l \<le> nc l" "live p b" "live p c"
  shows "\<exists>r p'. bp_Or nc p b c = Some (r, p') \<and> keeps p b p' r \<and> live p' r \<and> members p' r = members p b \<union> members p c"
proof (cases "bothInline b c")
  case True
  then have i: "isInline b" "isInline c" "isInline (b OR c)"
    by (auto simp: bothInline_def isInline_def isPoolIndex_bit bit_simps)
  moreover have "bv_members [b OR c] = bv_members [b] \<union> bv_members [c]"
    using bv_members_or_words [of "[c]" "[b]"] by simp
  ultimately show ?thesis using True keeps_inline [OF assms(1) i(1,3)]
    by (simp add: bp_Or_def members_def words_inline)
next
  case False
  obtain r p1 where p1: "(if isInline b then toMem nc p b else Some (b, p)) = Some (r, p1)" "isPoolIndex r"
    "ix r \<in> pool_used p1" "words p1 r = words p b" "words p b \<noteq> []" "keeps p b p1 r" "bp_inv p1"
    by (rule to_memory [OF assms(1-4)])
  have c: "words p1 c = words p c" "live p1 c"
  proof (atomize (full), cases "isInline c \<or> c \<noteq> b")
    case True
    then show "words p1 c = words p c \<and> live p1 c" using p1(6) assms(5) by (simp add: keeps_def)
  next
    case cb: False
    then have "r = b" "p1 = p" using p1(1) by auto
    then show "words p1 c = words p c \<and> live p1 c" using assms(5) by simp
  qed
  note w = bp_words_live [OF p1(7) c(2)]
  let ?t = "or_words (vec_validate 0 (length (words p c) - 1) (words p b)) (words p c)"
  have l: "length (words p c) \<le> length (vec_validate 0 (length (words p c) - 1) (words p b))" by simp
  have tm: "bv_members ?t = members p b \<union> members p c"
    using bv_members_or_words [OF l] by (simp add: members_def)
  obtain p2 where p2: "set_bitmaps p1 (ix r) ?t = Some p2" "keeps p1 r p2 r" "words p2 r = ?t"
    "pool_used p2 = pool_used p1" "bp_inv p2" "plen p2 = plen p1"
    by (rule set_bitmaps_used [OF p1(7,2,3)])
  have "arr p1 ! ix r = words p b" using p1(2,4) by (simp add: words_def)
  then have "bp_Or nc p b c = Some (r, p2)"
    using False p1(1) w bitmaps_used(1) [OF p1(7,3)] p2(1) c(1)
    by (simp add: bp_Or_def inlineToMem_def ix_def [symmetric] Let_def)
  moreover have "keeps p b p2 r" using p1(6) p2(2) by (rule keeps_trans) (simp add: p2(6))
  moreover have "?t \<noteq> []" using or_words_nth(1) [of "vec_validate 0 (length (words p c) - 1) (words p b)" "words p c"]
    by (metis length_0_conv length_vec_validate max_nat.neutr_eq_iff nat.distinct(1))
  then have "live p2 r" using p2(3,4) p1(2,3) by (simp add: live_def words_def)
  ultimately show ?thesis using p2(3) tm by (simp add: members_def)
qed

subsection \<open>Properties\<close>

text \<open>C11: On a pool whose free bitmap is not in the pool, setting a bit of a live bitmap succeeds, inline or in memory:
  the result has exactly one more member, the old value of the bit is reported, \<open>Get\<close> then finds it, and every other live bitmap keeps its
  words and is not aliased by the result.\<close>

theorem bitmap_Set2:
  assumes "bp_inv p" "plen p < 2 ^ 32" "\<forall>l. l \<le> nc l" "live p b"
  shows "\<exists>r p'. bp_Set2 nc p b x = Some (r, unat x \<in> members p b, p') \<and> keeps p b p' r \<and> live p' r \<and>
    members p' r = insert (unat x) (members p b) \<and> (\<forall>y. bp_Get p' r y = Some (unat y \<in> insert (unat x) (members p b)))"
proof -
  from bp_Set2_spec [OF assms] obtain r p' where r: "bp_Set2 nc p b x = Some (r, unat x \<in> members p b, p')"
    "keeps p b p' r" "live p' r" "members p' r = insert (unat x) (members p b)" by blast
  then have "bp_inv p'" by (simp add: keeps_def)
  then show ?thesis using r bp_Get_spec [OF _ r(3)] by auto
qed

lemma bv_members_zero: "bv_members [0] = {}"
  by (auto simp: bv_members_iff)

lemma bp_inv_new: "bp_inv new_pool" "live new_pool 0" "members new_pool 0 = {}"
  by (simp_all add: bp_inv_def new_pool_inv new_pool_def pool_inv_def live_def isPoolIndex_def members_def words_def bv_members_zero)

lemma bitmap_Set2_witness:
  "\<exists>r p. bp_Set2 (\<lambda>l. l) new_pool 0 200 = Some (r, False, p) \<and> live p r \<and> members p r = {200} \<and> bp_Get p r 200 = Some True"
proof -
  have "unat (200 :: u64) = 200" by simp
  then show ?thesis using bitmap_Set2 [OF bp_inv_new(1) _ _ bp_inv_new(2), of "\<lambda>l. l" 200] bp_inv_new(3)
    by (auto simp: new_pool_def)
qed

text \<open>Clearing a bit with \<open>AndNotx\<close> removes exactly that member, whether the bitmap stays in memory, is
  trimmed, or returns to inline form and frees its vector.\<close>

theorem bitmap_AndNotx:
  assumes "bp_inv p" "plen p < 2 ^ 32" "\<forall>l. l \<le> nc l" "live p b"
  shows "\<exists>r p'. bp_AndNotx nc p b x = Some (r, p') \<and> keeps p b p' r \<and> live p' r \<and>
    members p' r = members p b - {unat x}"
  by (rule bp_AndNotx_spec [OF assms])

lemma bitmap_AndNotx_witness:
  "\<exists>r p. bp_AndNotx (\<lambda>l. l) new_pool 5 2 = Some (r, p) \<and> live p r \<and> members p r = members new_pool 5 - {2}"
proof -
  have "live new_pool 5" by (simp add: live_def isPoolIndex_def)
  moreover have "unat (2 :: u64) = 2" by simp
  ultimately show ?thesis using bitmap_AndNotx [OF bp_inv_new(1), of "\<lambda>l. l" 5 2] by (auto simp: new_pool_def)
qed

definition set_0_200 :: "(Bitmap \<times> BitmapPool) option" where
  "set_0_200 = do { (r, p) \<leftarrow> bp_Set (\<lambda>l. l) new_pool 0 0; bp_Set (\<lambda>l. l) p r 200 }"

text \<open>\<open>AndNot\<close> with a shorter operand is not set difference: the bitmap is cut to the operand's
  length, so \<open>{0, 200}\<close> without \<open>{0}\<close> is empty.\<close>

theorem bitmap_AndNot_truncates:
  "\<exists>b p r p'. set_0_200 = Some (b, p) \<and> bp_Get p b 200 = Some True \<and>
     bp_AndNot (\<lambda>l. l) p b 1 = Some (r, p') \<and> r = 0 \<and> bp_Get p' r 200 = Some False"
proof -
  have b1: "bp_Set (\<lambda>l. l) new_pool 0 0 = Some (1, new_pool)"
    by (simp add: bp_Set_def bp_Set2_def isInline_def isPoolIndex_def WordBits_minus_1 Let_def push_bit_of_1)
  have v: "vec_validate 0 3 [1] = [1, 0, 0, 0 :: gword]"
    by (simp add: vec_validate_def) (simp add: numeral_eq_Suc)
  have i: "bitmapIndex 200 = (3, 256)"
    by (simp add: bitmapIndex_def WordBits_def Log2WordBits_def push_bit_of_1)
  let ?p = "\<lparr>pool = \<lparr>freeIndices = [], freeBitmap = {}, maxLen = 0\<rparr>, arr = [[1, 0, 0, 256]], plen = 1\<rparr>"
  have "set_0_200 = Some (NOT 0, ?p)"
    by (simp add: set_0_200_def b1) (simp add: bp_Set_def bp_Set2_def isInline_def isPoolIndex_def toMem_def bp_new_def GetIndex_def
        Pool_GetIndex_def new_pool_def Pool_Validate_def grow_to_def data_def bitmaps_def set_bitmaps_def bp_modify_def
        i v WordBits_minus_1 Let_def push_bit_of_1)
  moreover have "bp_Get ?p (NOT 0) 200 = Some True"
    by (simp add: bp_Get_def isPoolIndex_def bitmaps_def data_def i)
  moreover have "bp_AndNot (\<lambda>l. l) ?p (NOT 0) 1 = Some (0, snd (PutIndex (?p\<lparr>arr := [[]]\<rparr>) 0))"
    by (simp add: bp_AndNot_def bothInline_def isInline_def isPoolIndex_def inlineToMem_def bp_words_def bitmaps_def
        data_def set_bitmaps_def checkInline_def)
  moreover have "bp_Get q 0 200 = Some False" for q by (simp add: bp_Get_def isPoolIndex_def)
  ultimately show ?thesis by blast
qed

end
