(* ===== verification/Sparse_Index.thy ===== *)
theory Sparse_Index
  imports Bitmap_Vec
begin

section \<open>Sparse to dense indices: elib/sparse.go\<close>

text \<open>
  A \<open>Sparse\<close> maps the set bits of a bit vector to consecutive dense indices. Its invariant
  \<open>sp_inv\<close> says that \<open>count[i]\<close> is the number of members below word \<open>i\<close>; under it the
  dense index of a member is its rank, \<open>Set\<close> and \<open>Unset\<close> add and remove one member and
  keep the invariant.
\<close>

subsection \<open>Definitions (sparse.go)\<close>

text \<open>The \<open>int32\<close> counts are kept as their 32-bit patterns.\<close>

record Sparse =
  sp_valid :: "gword list"
  sp_count :: "u32 list"

definition MaxIndex :: u32 where
  "MaxIndex = NOT 0"

definition Sparse_Get :: "Sparse \<Rightarrow> u32 \<Rightarrow> (u32 \<times> bool) option" where
  "Sparse_Get s sparse = (let (i, m) = bitmapIndex (ucast sparse) in
     if i \<ge> length (sp_valid s) then Some (0, False)
     else let v = sp_valid s ! i in
       if v AND m \<noteq> 0
       then do { c \<leftarrow> slice_get (sp_count s) i; Some (c + ucast (NSetBits (v AND (m - 1))), True) }
       else Some (MaxIndex, False))"

text \<open>The loop of \<open>inc\<close> from \<open>start + 1\<close> to the end of the counts.\<close>

definition Sparse_inc :: "Sparse \<Rightarrow> nat \<Rightarrow> u32 \<Rightarrow> Sparse" where
  "Sparse_inc s start dx = s\<lparr>sp_count :=
     take (start + 1) (sp_count s) @ map (\<lambda>c. c + dx) (drop (start + 1) (sp_count s))\<rparr>"

definition eltsBefore :: "Sparse \<Rightarrow> nat \<Rightarrow> u32 option" where
  "eltsBefore s i = do {
     c \<leftarrow> slice_get (sp_count s) i;
     v \<leftarrow> slice_get (sp_valid s) i;
     Some (c + ucast (NSetBits v)) }"

definition Sparse_Set :: "Sparse \<Rightarrow> u32 \<Rightarrow> (Sparse \<times> u32) option" where
  "Sparse_Set s0 sparse = (
     let (i, m) = bitmapIndex (ucast sparse);
         l = length (sp_valid s0);
         s = s0\<lparr>sp_valid := vec_validate 0 i (sp_valid s0), sp_count := vec_validate 0 i (sp_count s0)\<rparr>
     in do {
       s \<leftarrow> (if l > 0 \<and> length (sp_valid s) > l
            then do {
              e \<leftarrow> eltsBefore s (l - 1);
              if e \<noteq> 0
              then Some (s\<lparr>sp_count := take l (sp_count s) @
                     replicate (length (sp_valid s) - l) e @ drop (length (sp_valid s)) (sp_count s)\<rparr>)
              else Some s }
            else Some s);
       v \<leftarrow> slice_get (sp_valid s) i;
       if v AND m \<noteq> 0 then Some (s, 0)
       else do {
         c \<leftarrow> slice_get (sp_count s) i;
         let dense = c + ucast (NSetBits (v AND (m - 1)));
         Some (Sparse_inc (s\<lparr>sp_valid := (sp_valid s)[i := v OR m]\<rparr>) i 1, dense) } })"

definition Sparse_Unset :: "Sparse \<Rightarrow> u32 \<Rightarrow> (Sparse \<times> bool) option" where
  "Sparse_Unset s sparse = (let (i, m) = bitmapIndex (ucast sparse) in do {
     v \<leftarrow> slice_get (sp_valid s) i;
     if v AND m \<noteq> 0
     then Some (Sparse_inc (s\<lparr>sp_valid := (sp_valid s)[i := v XOR m]\<rparr>) i (-1), True)
     else Some (s, False) })"

definition Sparse_elts :: "Sparse \<Rightarrow> u32 option" where
  "Sparse_elts s = (if sp_count s = [] then None else eltsBefore s (length (sp_count s) - 1))"

subsection \<open>Sparse indices are ranks\<close>

definition sp_members :: "Sparse \<Rightarrow> nat set" where
  "sp_members s = bv_members (sp_valid s)"

definition rank :: "nat set \<Rightarrow> nat \<Rightarrow> nat" where
  "rank A x = card {y \<in> A. y < x}"

text \<open>The invariant: each count is the number of members below its word.\<close>

definition sp_inv :: "Sparse \<Rightarrow> bool" where
  "sp_inv s \<longleftrightarrow> length (sp_count s) = length (sp_valid s) \<and>
     (\<forall>i < length (sp_count s). sp_count s ! i = of_nat (rank (sp_members s) (64 * i)))"

lemma rank_0 [simp]: "rank A 0 = 0"
  by (simp add: rank_def)

lemma rank_Suc: "rank A (Suc x) = rank A x + of_bool (x \<in> A)"
proof -
  have "{y \<in> A. y < Suc x} = (if x \<in> A then insert x {y \<in> A. y < x} else {y \<in> A. y < x})"
    by (auto simp: less_Suc_eq)
  then show ?thesis by (simp add: rank_def)
qed

lemma rank_add: "rank A (x + k) = rank A x + length (filter (\<lambda>j. x + j \<in> A) [0..<k])"
  by (induction k) (simp_all add: rank_Suc)

lemma rank_insert:
  "x \<notin> A \<Longrightarrow> rank (insert x A) z = rank A z + of_bool (x < z)"
  by (induction z) (auto simp: rank_Suc less_Suc_eq)

lemma rank_remove:
  "x \<in> A \<Longrightarrow> rank A z = rank (A - {x}) z + of_bool (x < z)"
  using rank_insert [of x "A - {x}" z] by (simp add: insert_absorb)

text \<open>The members of word \<open>i\<close> below bit \<open>k\<close> are counted by the masked population count.\<close>

lemma NSetBits_below:
  assumes "k \<le> 64"
  shows "unat (NSetBits (v AND (push_bit k 1 - 1))) = length (filter (bit v) [0..<k])"
proof -
  let ?P = "bit (v AND (push_bit k 1 - 1))"
  have "[0..<64] = [0..<k] @ [k..<64]"
    using assms upt_add_eq_append [of 0 k "64 - k"] by simp
  moreover have "filter ?P [0..<k] = filter (bit v) [0..<k]"
    using assms by (intro filter_cong) (auto simp: bit_and_iff bit_low_mask)
  moreover have "filter ?P [k..<64] = []"
    by (auto simp: filter_empty_conv bit_and_iff bit_low_mask)
  ultimately have "filter ?P [0..<64] = filter (bit v) [0..<k]"
    by (simp only: filter_append append_Nil2)
  then show ?thesis by (simp only: NSetBits_count)
qed

lemma rank_word:
  assumes "i < length b" "k \<le> 64"
  shows "rank (bv_members b) (64 * i + k) =
    rank (bv_members b) (64 * i) + length (filter (bit (b ! i)) [0..<k])"
proof -
  have "filter (\<lambda>j. 64 * i + j \<in> bv_members b) [0..<k] = filter (bit (b ! i)) [0..<k]"
    using assms by (intro filter_cong) (auto simp: bv_members_iff)
  then show ?thesis by (simp add: rank_add)
qed

lemma unat_ucast_32_64 [simp]: "unat (ucast (x :: u32) :: u64) = unat x"
  using unat_u32_less [of x] by (simp add: unsigned_ucast_eq take_bit_nat_eq_self)

lemma rank_of_dense:
  assumes inv: "sp_inv s" and i: "x div 64 < length (sp_valid s)"
  shows "sp_count s ! (x div 64) +
    ucast (NSetBits ((sp_valid s ! (x div 64)) AND (push_bit (x mod 64) 1 - 1))) =
    of_nat (rank (sp_members s) x)"
proof -
  have "rank (sp_members s) x = rank (sp_members s) (64 * (x div 64)) +
      unat (NSetBits ((sp_valid s ! (x div 64)) AND (push_bit (x mod 64) 1 - 1)))"
    using rank_word [OF i, of "x mod 64"] by (simp add: sp_members_def NSetBits_below)
  then show ?thesis
    using inv i by (simp add: sp_inv_def)
qed

lemma Sparse_Get_spec:
  assumes "sp_inv s"
  shows "Sparse_Get s x = Some
    (if length (sp_valid s) \<le> unat x div 64 then (0, False)
     else if unat x \<in> sp_members s then (of_nat (rank (sp_members s) (unat x)), True)
     else (MaxIndex, False))"
  using rank_of_dense [OF assms, of "unat x"] assms
  by (auto simp: Sparse_Get_def bitmapIndex_eq sp_members_def bv_members_iff sp_inv_def Let_def)
text \<open>Adding to the counts after word \<open>i\<close>.\<close>

lemma nth_inc:
  "j < length c \<Longrightarrow> (take (Suc i) c @ map (\<lambda>c. c + d) (drop (Suc i) c)) ! j =
     (if j \<le> i then c ! j else c ! j + d)"
  by (auto simp: nth_append min_def)

lemma rank_beyond:
  assumes "length b \<le> i"
  shows "rank (bv_members b) (64 * i) = rank (bv_members b) (64 * length b)"
proof -
  have "{y \<in> bv_members b. y < 64 * i} = {y \<in> bv_members b. y < 64 * length b}"
    using assms by (auto dest: bv_members_bound)
  then show ?thesis by (simp add: rank_def)
qed

text \<open>After growing to word \<open>i\<close>, the new counts continue the old total.\<close>

lemma eltsBefore_last:
  assumes inv: "sp_inv s" and l: "sp_valid s \<noteq> []"
  shows "sp_count s ! (length (sp_valid s) - 1) +
    ucast (NSetBits (sp_valid s ! (length (sp_valid s) - 1))) =
    of_nat (rank (sp_members s) (64 * length (sp_valid s)))"
proof -
  let ?n = "length (sp_valid s) - 1"
  have n: "?n < length (sp_valid s)" using l by simp
  have e: "64 * ?n + 64 = 64 * length (sp_valid s)" using n by simp
  have "rank (sp_members s) (64 * length (sp_valid s)) =
      rank (sp_members s) (64 * ?n) + unat (NSetBits (sp_valid s ! ?n))"
    unfolding sp_members_def NSetBits_count using rank_word [OF n, of 64] unfolding e by (simp only:)
  then show ?thesis using inv n by (simp add: sp_inv_def)
qed

definition grow :: "nat \<Rightarrow> Sparse \<Rightarrow> Sparse" where
  "grow i s = s\<lparr>sp_valid := vec_validate 0 i (sp_valid s),
     sp_count := sp_count s @ replicate (Suc i - length (sp_valid s))
       (of_nat (rank (sp_members s) (64 * length (sp_valid s))))\<rparr>"

lemma grow_inv:
  assumes "sp_inv s"
  shows "sp_inv (grow i s)" "sp_members (grow i s) = sp_members s" "i < length (sp_valid (grow i s))"
proof -
  show m: "sp_members (grow i s) = sp_members s" and "i < length (sp_valid (grow i s))"
    by (simp_all add: grow_def sp_members_def)
  have "sp_count (grow i s) ! j = of_nat (rank (sp_members s) (64 * j))"
    if "j < length (sp_count (grow i s))" for j
  proof (cases "j < length (sp_count s)")
    case True
    then show ?thesis using assms by (simp add: grow_def sp_inv_def nth_append)
  next
    case False
    then have "rank (sp_members s) (64 * j) = rank (sp_members s) (64 * length (sp_valid s))"
      using assms unfolding sp_members_def by (intro rank_beyond) (simp add: sp_inv_def)
    with False that assms show ?thesis by (simp add: grow_def nth_append)
  qed
  then show "sp_inv (grow i s)"
    using assms unfolding sp_inv_def m by (simp add: grow_def max_def)
qed

lemma Sparse_Set_eq:
  assumes inv: "sp_inv s"
  shows "Sparse_Set s x = (let i = unat x div 64; k = unat x mod 64; t = grow i s; v = sp_valid t ! i in
    if bit v k then Some (t, 0)
    else Some (Sparse_inc (t\<lparr>sp_valid := (sp_valid t)[i := v OR push_bit k 1]\<rparr>) i 1,
               of_nat (rank (sp_members s) (unat x))))"
proof -
  let ?i = "unat x div 64" and ?k = "unat x mod 64"
  let ?l = "length (sp_valid s)" and ?t = "grow (unat x div 64) s"
  define s1 where "s1 = s\<lparr>sp_valid := vec_validate 0 ?i (sp_valid s), sp_count := vec_validate 0 ?i (sp_count s)\<rparr>"
  have lc: "length (sp_count s) = ?l" using inv by (simp add: sp_inv_def)
  have step: "(if ?l > 0 \<and> length (sp_valid s1) > ?l
     then do { e \<leftarrow> eltsBefore s1 (?l - 1);
       if e \<noteq> 0 then Some (s1\<lparr>sp_count := take ?l (sp_count s1) @
           replicate (length (sp_valid s1) - ?l) e @ drop (length (sp_valid s1)) (sp_count s1)\<rparr>)
       else Some s1 }
     else Some s1) = Some ?t"
  proof (cases "sp_valid s = []")
    case True
    then show ?thesis using lc
      by (simp add: s1_def grow_def vec_validate_def sp_members_def bv_members_def rank_def)
  next
    case False
    let ?e = "of_nat (rank (sp_members s) (64 * ?l)) :: u32"
    have l: "?l - 1 < ?l" using False by simp
    have "eltsBefore s1 (?l - 1) = Some ?e"
      using eltsBefore_last [OF inv False] l lc
      by (simp add: eltsBefore_def s1_def vec_validate_def nth_append)
    then show ?thesis using False lc
      by (auto simp: s1_def grow_def vec_validate_def max_def)
  qed
  show ?thesis
    using grow_inv [OF inv, of ?i] rank_of_dense [OF grow_inv(1) [OF inv], of "unat x" ?i]
    unfolding Sparse_Set_def bitmapIndex_eq unat_ucast_32_64 Let_def prod.case s1_def [symmetric] step
    by (simp add: sp_inv_def)
qed

lemma Sparse_inc_inv:
  assumes inv: "sp_inv t" and i: "i < length (sp_valid t)"
    and r: "\<And>j. of_nat (rank (bv_members ((sp_valid t)[i := w])) (64 * j)) =
      (of_nat (rank (sp_members t) (64 * j)) + (if i < j then d else 0) :: u32)"
  shows "sp_inv (Sparse_inc (t\<lparr>sp_valid := (sp_valid t)[i := w]\<rparr>) i d)"
    and "sp_members (Sparse_inc (t\<lparr>sp_valid := (sp_valid t)[i := w]\<rparr>) i d) = bv_members ((sp_valid t)[i := w])"
proof -
  show m: "sp_members (Sparse_inc (t\<lparr>sp_valid := (sp_valid t)[i := w]\<rparr>) i d) = bv_members ((sp_valid t)[i := w])"
    by (simp add: sp_members_def Sparse_inc_def)
  show "sp_inv (Sparse_inc (t\<lparr>sp_valid := (sp_valid t)[i := w]\<rparr>) i d)"
    using inv i r unfolding sp_inv_def m
    by (auto simp: Sparse_inc_def nth_inc)
qed

lemma Sparse_Set_spec:
  assumes inv: "sp_inv s"
  obtains t where "Sparse_Set s x =
      Some (t, if unat x \<in> sp_members s then 0 else of_nat (rank (sp_members s) (unat x)))"
    and "sp_inv t" "sp_members t = insert (unat x) (sp_members s)"
proof -
  let ?i = "unat x div 64" and ?k = "unat x mod 64"
  define t where "t = grow ?i s"
  have t: "sp_inv t" "sp_members t = sp_members s" "?i < length (sp_valid t)"
    unfolding t_def using grow_inv [OF inv] by simp_all
  have b: "bit (sp_valid t ! ?i) ?k \<longleftrightarrow> unat x \<in> sp_members s"
    using t(2,3) by (metis bv_members_iff sp_members_def)
  show thesis
  proof (cases "unat x \<in> sp_members s")
    case True
    show thesis
      by (rule that [of t]) (use t b True in \<open>auto simp: Sparse_Set_eq [OF inv] t_def [symmetric] Let_def\<close>)
  next
    case False
    let ?w = "(sp_valid t ! ?i) OR push_bit ?k 1"
    let ?u = "Sparse_inc (t\<lparr>sp_valid := (sp_valid t)[?i := ?w]\<rparr>) ?i 1"
    have m: "bv_members ((sp_valid t)[?i := ?w]) = insert (unat x) (sp_members t)"
      using bv_members_or [OF t(3)] by (simp add: sp_members_def)
    have "of_nat (rank (bv_members ((sp_valid t)[?i := ?w])) (64 * j)) =
      (of_nat (rank (sp_members t) (64 * j)) + (if ?i < j then 1 else 0) :: u32)" for j
      unfolding m using False t(2) by (simp add: rank_insert div_less_iff_less_mult mult.commute)
    note inc = Sparse_inc_inv [OF t(1,3) this, unfolded m]
    show thesis
      by (rule that [of ?u]) (use inc t b False in \<open>auto simp: Sparse_Set_eq [OF inv] t_def [symmetric] Let_def\<close>)
  qed
qed

lemma Sparse_Unset_spec:
  assumes inv: "sp_inv s" and i: "unat x div 64 < length (sp_valid s)"
  obtains t where "Sparse_Unset s x = Some (t, unat x \<in> sp_members s)"
    and "sp_inv t" "sp_members t = sp_members s - {unat x}"
proof (cases "unat x \<in> sp_members s")
  case False
  then show thesis
    using i inv by (intro that [of s])
      (auto simp: Sparse_Unset_def bitmapIndex_eq sp_members_def bv_members_iff)
next
  case True
  let ?i = "unat x div 64" and ?k = "unat x mod 64"
  let ?w = "(sp_valid s ! ?i) XOR push_bit ?k 1"
  let ?u = "Sparse_inc (s\<lparr>sp_valid := (sp_valid s)[?i := ?w]\<rparr>) ?i (-1)"
  have b: "bit (sp_valid s ! ?i) ?k" using True by (simp add: sp_members_def bv_members_iff)
  have "?w = (sp_valid s ! ?i) AND NOT (push_bit ?k 1)"
    by (rule bit_word_eqI) (use b in \<open>auto simp: bit_simps\<close>)
  then have m: "bv_members ((sp_valid s)[?i := ?w]) = sp_members s - {unat x}"
    using bv_members_and_not [OF i] by (simp add: sp_members_def)
  have "of_nat (rank (bv_members ((sp_valid s)[?i := ?w])) (64 * j)) =
      (of_nat (rank (sp_members s) (64 * j)) + (if ?i < j then - 1 else 0) :: u32)" for j
    unfolding m rank_remove [OF True] by (simp add: div_less_iff_less_mult mult.commute)
  note inc = Sparse_inc_inv [OF inv i this, unfolded m]
  show thesis
    by (rule that [of ?u]) (use inc True b i in \<open>auto simp: Sparse_Unset_def bitmapIndex_eq\<close>)
qed

lemma Sparse_empty_inv: "sp_inv \<lparr>sp_valid = [], sp_count = []\<rparr>"
  by (simp add: sp_inv_def)

subsection \<open>Properties\<close>

text \<open>C7: Setting a sparse index keeps the invariant, adds exactly that index, and afterwards every set
  index has its rank as its dense index. (The dense index returned for an index already set is 0.)\<close>

theorem Sparse_Set_ranks:
  assumes "sp_inv s"
  shows "\<exists>t. Sparse_Set s x = Some (t, if unat x \<in> sp_members s then 0 else of_nat (rank (sp_members s) (unat x))) \<and>
    sp_inv t \<and> sp_members t = insert (unat x) (sp_members s) \<and>
    (\<forall>y. unat y \<in> sp_members t \<longrightarrow> Sparse_Get t y = Some (of_nat (rank (sp_members t) (unat y)), True))"
proof -
  obtain t where t: "Sparse_Set s x =
      Some (t, if unat x \<in> sp_members s then 0 else of_nat (rank (sp_members s) (unat x)))"
    "sp_inv t" "sp_members t = insert (unat x) (sp_members s)" by (rule Sparse_Set_spec [OF assms])
  have "Sparse_Get t y = Some (of_nat (rank (sp_members t) (unat y)), True)" if "unat y \<in> sp_members t" for y
  proof -
    have "unat y div 64 < length (sp_valid t)" using that by (simp add: sp_members_def bv_members_iff)
    then show ?thesis using Sparse_Get_spec [OF t(2), of y] that by simp
  qed
  then show ?thesis using t by blast
qed

lemma Sparse_Set_ranks_witness:
  "\<exists>t. Sparse_Set \<lparr>sp_valid = [], sp_count = []\<rparr> 70 = Some (t, 0) \<and> sp_inv t \<and>
    sp_members t = {70} \<and> Sparse_Get t 70 = Some (0, True)"
proof -
  have "sp_members \<lparr>sp_valid = [], sp_count = []\<rparr> = {}" by (simp add: sp_members_def bv_members_def)
  moreover have "rank {70} 70 = 0" by (auto simp: rank_def card_eq_0_iff)
  moreover have "rank {} 70 = 0" by (simp add: rank_def)
  ultimately show ?thesis using Sparse_Set_ranks [OF Sparse_empty_inv, of 70] by auto
qed

text \<open>Unsetting a sparse index within the table removes exactly it and keeps the invariant; the
  result says whether it was set.\<close>

theorem Sparse_Unset_removes:
  assumes "sp_inv s" "unat x div 64 < length (sp_valid s)"
  shows "\<exists>t. Sparse_Unset s x = Some (t, unat x \<in> sp_members s) \<and> sp_inv t \<and> sp_members t = sp_members s - {unat x}"
  by (rule Sparse_Unset_spec [OF assms]) blast

lemma Sparse_Unset_removes_witness:
  "\<exists>s t. Sparse_Unset s 70 = Some (t, True) \<and> sp_inv t \<and> sp_members t = {}"
proof -
  obtain s where s: "sp_inv s" "sp_members s = {70}"
    using Sparse_Set_spec [OF Sparse_empty_inv, of 70] by (auto simp: sp_members_def bv_members_def)
  then have "unat (70 :: u32) \<in> bv_members (sp_valid s)" by (simp add: sp_members_def)
  then have "unat (70 :: u32) div 64 < length (sp_valid s)" by (simp only: bv_members_iff)
  from Sparse_Unset_removes [OF s(1) this] s(2) show ?thesis by auto
qed

end
