(* ===== verification/Heap.thy ===== *)
theory Heap
  imports Go_Prelude
begin

section \<open>Block allocation of an array: elib/heap.go\<close>

text \<open>
  A heap hands out blocks of consecutive indices of an array it does not hold. Its elements are
  the blocks, free and allocated, doubly linked in the order of their offsets; a free element
  knows its position in the free list of its size, where list 0 is for the sizes larger than
  any request so far. An element index is handed out as the name of its block; the elements no
  longer in use are recycled through \<open>removed\<close>. Indices have 32 bits: they are naturals here
  with the wrap-around of \<open>+\<close> and \<open>-\<close> written out, and \<open>MaxIndex\<close> is the null index. The panics of
  the code, explicit or by an index out of range, are \<open>None\<close>.
\<close>

definition MaxIdx :: nat where "MaxIdx = 2 ^ 32 - 1"

definition iadd :: "nat \<Rightarrow> nat \<Rightarrow> nat" where
  "iadd a b = (a + b) mod 2 ^ 32"

definition isub :: "nat \<Rightarrow> nat \<Rightarrow> nat" where
  "isub a b = (a + (2 ^ 32 - b mod 2 ^ 32)) mod 2 ^ 32"

record heapElt =
  offset :: nat
  free :: nat
  nxt :: nat
  prev :: nat

record Heap =
  elts :: "heapElt list"
  frees :: "nat list list"
  removed :: "nat list"
  hhead :: nat
  htail :: nat
  hlen :: nat
  maxSize :: nat
  hmaxLen :: nat

definition new_heap :: Heap where
  "new_heap = \<lparr>elts = [], frees = [], removed = [], hhead = 0, htail = 0, hlen = 0, maxSize = 0, hmaxLen = 0\<rparr>"

definition isFree :: "heapElt \<Rightarrow> bool" where
  "isFree e \<longleftrightarrow> free e \<noteq> MaxIdx"

definition poison :: heapElt where
  "poison = \<lparr>offset = MaxIdx, free = MaxIdx, nxt = MaxIdx, prev = MaxIdx\<rparr>"

definition get_elt :: "Heap \<Rightarrow> nat \<Rightarrow> heapElt option" where
  "get_elt h i = slice_get (elts h) i"

text \<open>An assignment to fields of \<open>heap.elts[i]\<close>.\<close>

definition upd_elt :: "Heap \<Rightarrow> nat \<Rightarrow> (heapElt \<Rightarrow> heapElt) \<Rightarrow> Heap option" where
  "upd_elt h i f = do {
     e \<leftarrow> slice_get (elts h) i;
     es \<leftarrow> slice_set (elts h) i (f e);
     Some (h\<lparr>elts := es\<rparr>) }"

definition newElt :: "Heap \<Rightarrow> (nat \<times> Heap) option" where
  "newElt h = (if removed h \<noteq> []
     then let ei = last (removed h) in do {
       es \<leftarrow> slice_set (elts h) ei poison;
       Some (ei, h\<lparr>removed := butlast (removed h), elts := es\<rparr>) }
     else Some (length (elts h) mod 2 ^ 32, h\<lparr>elts := elts h @ [poison]\<rparr>))"

definition freeElt :: "Heap \<Rightarrow> nat \<Rightarrow> nat \<Rightarrow> Heap option" where
  "freeElt h ei sz = (
     let sz = (if maxSize h < sz then 0 else sz);
         fv = vec_validate [] sz (frees h)
     in do {
       l \<leftarrow> slice_get fv sz;
       h \<leftarrow> upd_elt (h\<lparr>frees := fv\<rparr>) ei (\<lambda>e. e\<lparr>free := length l mod 2 ^ 32\<rparr>);
       Some (h\<lparr>frees := (frees h)[sz := l @ [ei]]\<rparr>) })"

definition removeFreeElt :: "Heap \<Rightarrow> nat \<Rightarrow> nat \<Rightarrow> Heap option" where
  "removeFreeElt h ei sz = do {
     e \<leftarrow> get_elt h ei;
     let fi = free e;
     let sz = (if length (frees h) mod 2 ^ 32 \<le> sz then 0 else sz);
     fl \<leftarrow> slice_get (frees h) sz;
     let l = length fl;
     if fi < l \<and> fl ! fi = ei
     then do {
       h \<leftarrow> (if fi < l - 1
         then let gi = fl ! (l - 1) in
           upd_elt (h\<lparr>frees := (frees h)[sz := fl[fi := gi]]\<rparr>) gi (\<lambda>e. e\<lparr>free := fi\<rparr>)
         else Some h);
       fl \<leftarrow> slice_get (frees h) sz;
       h \<leftarrow> upd_elt (h\<lparr>frees := (frees h)[sz := take (l - 1) fl]\<rparr>) ei (\<lambda>_. poison);
       Some (h\<lparr>removed := removed h @ [ei]\<rparr>) }
     else None }"

definition eltSize :: "Heap \<Rightarrow> heapElt \<Rightarrow> nat option" where
  "eltSize h e = do {
     o' \<leftarrow> (if nxt e \<noteq> MaxIdx then map_option offset (get_elt h (nxt e)) else Some (hlen h));
     Some (isub o' (offset e)) }"

definition heap_size :: "Heap \<Rightarrow> nat \<Rightarrow> nat option" where
  "heap_size h ei = do { e \<leftarrow> get_elt h ei; eltSize h e }"

definition GetID :: "Heap \<Rightarrow> nat \<Rightarrow> (nat \<times> nat) option" where
  "GetID h ei = do { e \<leftarrow> get_elt h ei; s \<leftarrow> eltSize h e; Some (offset e, s) }"

definition freeAfter :: "Heap \<Rightarrow> nat \<Rightarrow> nat \<Rightarrow> nat \<Rightarrow> Heap option" where
  "freeAfter h ei eSize freeSize = do {
     (fi, h) \<leftarrow> newElt h;
     e \<leftarrow> get_elt h ei;
     h \<leftarrow> upd_elt h fi (\<lambda>f. f\<lparr>offset := iadd (offset e) (isub eSize freeSize), nxt := nxt e, prev := ei\<rparr>);
     h \<leftarrow> (if nxt e \<noteq> MaxIdx then upd_elt h (nxt e) (\<lambda>n. n\<lparr>prev := fi\<rparr>) else Some h);
     h \<leftarrow> upd_elt h ei (\<lambda>e. e\<lparr>nxt := fi\<rparr>);
     let h = (if ei = htail h then h\<lparr>htail := fi\<rparr> else h);
     freeElt h fi freeSize }"

definition freeBefore :: "Heap \<Rightarrow> nat \<Rightarrow> nat \<Rightarrow> nat \<Rightarrow> Heap option" where
  "freeBefore h ei eSize freeSize = do {
     (fi, h) \<leftarrow> newElt h;
     e \<leftarrow> get_elt h ei;
     h \<leftarrow> upd_elt h fi (\<lambda>f. f\<lparr>offset := offset e, prev := prev e, nxt := ei\<rparr>);
     h \<leftarrow> (if prev e = MaxIdx then Some (h\<lparr>hhead := fi\<rparr>)
          else upd_elt h (prev e) (\<lambda>p. p\<lparr>nxt := fi\<rparr>));
     h \<leftarrow> upd_elt h ei (\<lambda>e. e\<lparr>offset := iadd (offset e) freeSize, prev := fi\<rparr>);
     freeElt h fi freeSize }"

text \<open>The search of free list 0, from position \<open>fi\<close> of \<open>l\<close>: the first element that is large enough.\<close>

function search_large :: "Heap \<Rightarrow> nat \<Rightarrow> nat \<Rightarrow> nat \<Rightarrow> (nat \<times> nat \<times> nat) option option" where
  "search_large h sz fi l = (if fi < l
     then do {
       fl \<leftarrow> slice_get (frees h) 0;
       ei \<leftarrow> slice_get fl fi;
       e \<leftarrow> get_elt h ei;
       es \<leftarrow> eltSize h e;
       if es < sz then search_large h sz (fi + 1) l else Some (Some (fi, ei, es)) }
     else Some None)"
  by pat_completeness auto
termination by (relation "measure (\<lambda>(h, sz, fi, l). l - fi)") auto

declare search_large.simps [simp del]

text \<open>\<open>get\<close> with the sz the caller asked for and the sz to allocate.\<close>

definition heap_get :: "Heap \<Rightarrow> nat \<Rightarrow> nat \<Rightarrow> (nat \<times> nat \<times> Heap) option" where
  "heap_get h sizeArg sz = (
     let sizeArg = sizeArg mod 2 ^ 32;
         h = (if maxSize h < sizeArg then h\<lparr>maxSize := sizeArg\<rparr> else h)
     in if sz = 0 then None
     else if sz < length (frees h) \<and> frees h ! sz \<noteq> []
     then let ei = last (frees h ! sz) in do {
       e \<leftarrow> get_elt h ei;
       h \<leftarrow> upd_elt (h\<lparr>frees := (frees h)[sz := butlast (frees h ! sz)]\<rparr>) ei (\<lambda>e. e\<lparr>free := MaxIdx\<rparr>);
       Some (ei, offset e, h) }
     else do {
       found \<leftarrow> (if frees h \<noteq> [] then search_large h sz 0 (length (frees h ! 0)) else Some None);
       (case found of
          Some (fi, ei, es) \<Rightarrow> do {
            let fl = frees h ! 0;
            let l = length fl;
            let fs = es - sz;
            h \<leftarrow> (if fi < l - 1
              then let gi = fl ! (l - 1) in
                upd_elt (h\<lparr>frees := (frees h)[0 := fl[fi := gi]]\<rparr>) gi (\<lambda>e. e\<lparr>free := fi\<rparr>)
              else Some h);
            let h = h\<lparr>frees := (frees h)[0 := take (l - 1) (frees h ! 0)]\<rparr>;
            e \<leftarrow> get_elt h ei;
            h \<leftarrow> upd_elt h ei (\<lambda>e. e\<lparr>free := MaxIdx\<rparr>);
            h \<leftarrow> (if 0 < fs then freeAfter h ei es fs else Some h);
            Some (ei, offset e, h) }
        | None \<Rightarrow>
            if hmaxLen h \<noteq> 0 \<and> hmaxLen h < iadd (hlen h) sz then None
            else let h = (if hlen h = 0 then h\<lparr>hhead := 0, htail := MaxIdx\<rparr> else h) in do {
              (ei, h) \<leftarrow> newElt h;
              let off = hlen h;
              let t = htail h;
              h \<leftarrow> upd_elt (h\<lparr>hlen := iadd off sz\<rparr>) ei
                   (\<lambda>e. e\<lparr>offset := off, nxt := MaxIdx, prev := t, free := MaxIdx\<rparr>);
              let h = h\<lparr>htail := ei\<rparr>;
              h \<leftarrow> (if t \<noteq> MaxIdx then upd_elt h t (\<lambda>p. p\<lparr>nxt := ei\<rparr>) else Some h);
              Some (ei, off, h) }) })"

definition heap_Get :: "Heap \<Rightarrow> nat \<Rightarrow> (nat \<times> nat \<times> Heap) option" where
  "heap_Get h sz = heap_get h sz (sz mod 2 ^ 32)"

definition newEltBefore :: "Heap \<Rightarrow> nat \<Rightarrow> (nat \<times> Heap) option" where
  "newEltBefore h ei = do {
     (pi', h) \<leftarrow> newElt h;
     e \<leftarrow> get_elt h ei;
     h \<leftarrow> upd_elt h pi' (\<lambda>p. p\<lparr>nxt := ei, prev := prev e\<rparr>);
     h \<leftarrow> (if prev e = MaxIdx then Some (h\<lparr>hhead := pi'\<rparr>)
          else upd_elt h (prev e) (\<lambda>q. q\<lparr>nxt := pi'\<rparr>));
     h \<leftarrow> upd_elt h ei (\<lambda>e. e\<lparr>prev := pi'\<rparr>);
     Some (pi', h) }"

definition newEltAfter :: "Heap \<Rightarrow> nat \<Rightarrow> (nat \<times> Heap) option" where
  "newEltAfter h ei = do {
     (ni, h) \<leftarrow> newElt h;
     e \<leftarrow> get_elt h ei;
     h \<leftarrow> upd_elt h ni (\<lambda>n. n\<lparr>prev := ei, nxt := nxt e\<rparr>);
     h \<leftarrow> (if nxt e = MaxIdx then Some (h\<lparr>htail := ni\<rparr>)
          else upd_elt h (nxt e) (\<lambda>q. q\<lparr>prev := ni\<rparr>));
     h \<leftarrow> upd_elt h ei (\<lambda>e. e\<lparr>nxt := ni\<rparr>);
     Some (ni, h) }"

definition heap_Put :: "Heap \<Rightarrow> nat \<Rightarrow> Heap option" where
  "heap_Put h ei = do {
     e \<leftarrow> get_elt h ei;
     panic_unless (\<not> isFree e);
     h \<leftarrow> (if prev e \<noteq> MaxIdx
       then do {
         let p' = prev e;
         p \<leftarrow> get_elt h p';
         if isFree p
         then do {
           let ps = isub (offset e) (offset p);
           h \<leftarrow> upd_elt h ei (\<lambda>e. e\<lparr>offset := offset p, prev := prev p\<rparr>);
           h \<leftarrow> (if prev p \<noteq> MaxIdx then upd_elt h (prev p) (\<lambda>q. q\<lparr>nxt := ei\<rparr>) else Some h);
           h \<leftarrow> removeFreeElt h p' ps;
           Some (if p' = hhead h then h\<lparr>hhead := ei\<rparr> else h) }
         else Some h }
       else Some h);
     e \<leftarrow> get_elt h ei;
     h \<leftarrow> (if nxt e \<noteq> MaxIdx
       then do {
         let ni = nxt e;
         n \<leftarrow> get_elt h ni;
         if isFree n
         then do {
           ns \<leftarrow> heap_size h ni;
           h \<leftarrow> upd_elt h ei (\<lambda>e. e\<lparr>nxt := nxt n\<rparr>);
           h \<leftarrow> (if nxt n \<noteq> MaxIdx then upd_elt h (nxt n) (\<lambda>q. q\<lparr>prev := ei\<rparr>) else Some h);
           h \<leftarrow> removeFreeElt h ni ns;
           Some (if ni = htail h then h\<lparr>htail := ei\<rparr> else h) }
         else Some h }
       else Some h);
     es \<leftarrow> heap_size h ei;
     freeElt h ei es }"

definition GetAligned :: "Heap \<Rightarrow> nat \<Rightarrow> nat \<Rightarrow> (nat \<times> nat \<times> Heap) option" where
  "GetAligned h sizeArg log2Alignment = (
     let a = (2 ^ log2Alignment) mod 2 ^ 32;
         sz = (sizeArg + a + 2 ^ 64 - 1) mod 2 ^ 64;
         sa = sizeArg mod 2 ^ 32;
         s = sz mod 2 ^ 32
     in do {
       (ei, off, h) \<leftarrow> heap_get h sizeArg s;
       let ao = iadd (iadd off a) (2 ^ 32 - 1) div a * a;
       if 0 < log2Alignment then do {
         h \<leftarrow> (if isub ao off \<noteq> 0 then do {
             (pi', h) \<leftarrow> newEltBefore h ei;
             h \<leftarrow> upd_elt h pi' (\<lambda>p. p\<lparr>offset := off\<rparr>);
             h \<leftarrow> upd_elt h ei (\<lambda>e. e\<lparr>offset := ao\<rparr>);
             heap_Put h pi' }
           else Some h);
         h \<leftarrow> (if iadd ao sa < iadd off s then do {
             (ni, h) \<leftarrow> newEltAfter h ei;
             h \<leftarrow> upd_elt h ei (\<lambda>e. e\<lparr>offset := ao\<rparr>);
             h \<leftarrow> upd_elt h ni (\<lambda>n. n\<lparr>offset := iadd ao sa\<rparr>);
             heap_Put h ni }
           else Some h);
         Some (ei, ao, h) }
       else Some (ei, ao, h) })"

definition GetUsage :: "Heap \<Rightarrow> (nat \<times> nat) option" where
  "GetUsage h = fold (\<lambda>e u. do {
     (used, fr) \<leftarrow> u;
     sz \<leftarrow> eltSize h e;
     Some (if isFree e then (used, fr + sz) else (used + sz, fr)) }) (elts h) (Some (0, 0))"

text \<open>The blocks \<open>Foreach\<close> visits.\<close>

definition heap_Foreach :: "Heap \<Rightarrow> (nat \<times> nat) list option" where
  "heap_Foreach h = those (map (\<lambda>e. map_option (Pair (offset e)) (eltSize h e)) (filter (\<lambda>e. \<not> isFree e) (elts h)))"

subsection \<open>Two faults of the code\<close>

lemmas heap_eval = heap_Get_def heap_get_def heap_Put_def newElt_def
  freeElt_def removeFreeElt_def freeAfter_def eltSize_def heap_size_def upd_elt_def get_elt_def
  search_large.simps isFree_def poison_def iadd_def isub_def MaxIdx_def slice_get_def slice_set_def
  panic_unless_def vec_validate_def new_heap_def heap_Foreach_def GetUsage_def Let_def

text \<open>Three blocks of 3 indices, the first two given back and merged.\<close>

definition merged_heap :: "Heap option" where
  "merged_heap = do {
     (a, x, h) \<leftarrow> heap_Get new_heap 3;
     (b, x, h) \<leftarrow> heap_Get h 3;
     (c, x, h) \<leftarrow> heap_Get h 3;
     h \<leftarrow> heap_Put h a;
     heap_Put h b }"

lemma replicate_4: "replicate 4 x = [x, x, x, x]" and replicate_5: "replicate 5 x = [x, x, x, x, x]"
  by (simp_all add: numeral_eq_Suc)

lemma merged_heap_eq: "merged_heap = Some
  \<lparr>elts = [\<lparr>offset = 4294967295, free = 4294967295, nxt = 4294967295, prev = 4294967295\<rparr>,
       \<lparr>offset = 0, free = 0, nxt = 2, prev = 4294967295\<rparr>,
       \<lparr>offset = 6, free = 4294967295, nxt = 4294967295, prev = 1\<rparr>],
      frees = [[1], [], [], []], removed = [0],
      hhead = 1, htail = 2, hlen = 9, maxSize = 3, hmaxLen = 0\<rparr>"
  unfolding merged_heap_def by (simp add: heap_eval replicate_4)

subsection \<open>Properties\<close>


text \<open>\<open>Foreach\<close> and \<open>GetUsage\<close> take the recycled elements for allocated blocks: with one block of 3
  allocated and 6 indices free of the 9, the heap reports 13 used and visits a block of 10 at offset
  \<open>MaxIndex\<close>.\<close>

theorem heap_usage_counts_removed:
  "\<exists>h. merged_heap = Some h \<and> hlen h = 9 \<and> GetUsage h = Some (13, 6) \<and>
     heap_Foreach h = Some [(MaxIdx, 10), (6, 3)]"
  unfolding merged_heap_eq by (simp add: heap_eval)

end
