(* ===== verification/Hash_Table.thy ===== *)
theory Hash_Table
  imports Bits
begin

section \<open>The hash table of elib/hash.go\<close>

text \<open>
  The hash function (a 256-bit mixing state) and an open-addressing table with buckets. An index is the
  base index of its key with some low bits flipped; the table keeps, per index, the flipped bits plus
  one (0: free) and per bucket the largest of them, which bounds a search. The keys are the client's: the
  record holds them as the client's array (\<open>hkeys\<close>, refilled by the client's \<open>HashResize\<close> with the
  copies the table asks for, unused slots \<open>zero\<close>). The client's \<open>HashKey\<close> is the parameter \<open>hk\<close>, the
  stream of random seeds \<open>rnd\<close>, the next capacity (floating point in cap.go) \<open>nu\<close>. \<open>None\<close> is a panic or the
  end of the fuel. The counters of the table's statistics are left out.
\<close>

subsection \<open>The hash function\<close>

type_synonym hash64 = u64
type_synonym HashState = "hash64 \<times> hash64"

definition rotate64 :: "hash64 \<Rightarrow> nat \<Rightarrow> hash64" where
  "rotate64 h n = push_bit n h OR drop_bit (64 - n) h"

definition mixStep :: "hash64 \<Rightarrow> hash64 \<Rightarrow> hash64 \<Rightarrow> nat \<Rightarrow> hash64 \<times> hash64 \<times> hash64" where
  "mixStep a b c n = (let a = rotate64 a n + b; c = c XOR a in (a, b, c))"

definition mix :: "hash64 \<times> hash64 \<times> hash64 \<times> hash64 \<Rightarrow> hash64 \<times> hash64 \<times> hash64 \<times> hash64" where
  "mix = (\<lambda>(h0, h1, h2, h3).
     let (h2, h3, h0) = mixStep h2 h3 h0 50; (h3, h0, h1) = mixStep h3 h0 h1 52;
         (h0, h1, h2) = mixStep h0 h1 h2 30; (h1, h2, h3) = mixStep h1 h2 h3 41;
         (h2, h3, h0) = mixStep h2 h3 h0 54; (h3, h0, h1) = mixStep h3 h0 h1 48;
         (h0, h1, h2) = mixStep h0 h1 h2 38; (h1, h2, h3) = mixStep h1 h2 h3 37;
         (h2, h3, h0) = mixStep h2 h3 h0 62; (h3, h0, h1) = mixStep h3 h0 h1 34;
         (h0, h1, h2) = mixStep h0 h1 h2 5; (h1, h2, h3) = mixStep h1 h2 h3 36
     in (h0, h1, h2, h3))"

definition finStep :: "hash64 \<Rightarrow> hash64 \<Rightarrow> nat \<Rightarrow> hash64 \<times> hash64" where
  "finStep a b n = (let a = a XOR b; b = rotate64 b n; a = a + b in (a, b))"

definition Finalize :: "hash64 \<times> hash64 \<times> hash64 \<times> hash64 \<Rightarrow> HashState" where
  "Finalize = (\<lambda>(h0, h1, h2, h3).
     let (h3, h2) = finStep h3 h2 15; (h0, h3) = finStep h0 h3 52;
         (h1, h0) = finStep h1 h0 26; (h2, h1) = finStep h2 h1 51;
         (h3, h2) = finStep h3 h2 28; (h0, h3) = finStep h0 h3 9;
         (h1, h0) = finStep h1 h0 47; (h2, h1) = finStep h2 h1 54;
         (h3, h2) = finStep h3 h2 32; (h0, h3) = finStep h0 h3 25;
         (h1, h0) = finStep h1 h0 63
     in (h0, h1))"

definition MixUint64 :: "hash64 \<times> hash64 \<times> hash64 \<times> hash64 \<Rightarrow> u64 \<Rightarrow> u64 \<Rightarrow> u64 \<Rightarrow> u64 \<Rightarrow>
    hash64 \<times> hash64 \<times> hash64 \<times> hash64" where
  "MixUint64 hs x0 x1 x2 x3 = (
     let (h0, h1, h2, h3) = hs; (h0, h1, h2, h3) = mix (h0, h1, h2 + x0, h3 + x1)
     in (h0 + x2, h1 + x3, h2, h3))"

text \<open>\<open>MixPointer\<close> over the bytes pointed to; a last odd byte is not mixed in.\<close>

fun mix_32 :: "hash64 \<times> hash64 \<times> hash64 \<times> hash64 \<Rightarrow> u8 list \<Rightarrow>
    (hash64 \<times> hash64 \<times> hash64 \<times> hash64) \<times> u8 list" where
  "mix_32 hs p = (if 32 \<le> length p
     then mix_32 (MixUint64 hs (load (take 8 p)) (load (take 8 (drop 8 p)))
            (load (take 8 (drop 16 p))) (load (take 8 (drop 24 p)))) (drop 32 p)
     else (hs, p))"

declare mix_32.simps [simp del]

definition MixPointer :: "hash64 \<times> hash64 \<times> hash64 \<times> hash64 \<Rightarrow> u8 list \<Rightarrow>
    hash64 \<times> hash64 \<times> hash64 \<times> hash64" where
  "MixPointer hs p = (
     let (hs, p) = mix_32 hs p;
         (hs, p) = (if 16 \<le> length p then (MixUint64 hs (load (take 8 p)) (load (take 8 (drop 8 p))) 0 0, drop 16 p) else (hs, p));
         (h0, h1, h2, h3) = hs;
         (h2, p) = (if 8 \<le> length p then (h2 + load (take 8 p), drop 8 p) else (h2, p));
         (h3, p) = (if 4 \<le> length p then (h3 + load (take 4 p), drop 4 p) else (h3, p));
         (h3, p) = (if 2 \<le> length p then (h3 + push_bit 32 (load (take 2 p)), drop 2 p) else (h3, p))
     in (h0, h1, h2, h3))"

definition hash_init :: "HashState \<Rightarrow> hash64 \<times> hash64 \<times> hash64 \<times> hash64" where
  "hash_init s = (fst s, snd s, 0xdeadbeefdeadbeef, 0xdeadbeefdeadbeef)"

definition HashUint64 :: "HashState \<Rightarrow> u64 \<Rightarrow> u64 \<Rightarrow> u64 \<Rightarrow> u64 \<Rightarrow> HashState" where
  "HashUint64 s x0 x1 x2 x3 = Finalize (MixUint64 (hash_init s) x0 x1 x2 x3)"

definition HashPointer :: "HashState \<Rightarrow> u8 list \<Rightarrow> HashState" where
  "HashPointer s p = (let (h0, h1, h2, h3) = hash_init s in Finalize (MixPointer (h0 + of_nat (length p), h1, h2, h3) p))"

subsection \<open>The table\<close>

record 'k Hash =
  seed :: HashState
  hcap :: u64
  log2Cap0 :: nat
  log2Cap1 :: nat
  log2EltsPerBucket :: nat
  limit0 :: u32
  bitDiffs :: "u8 list"
  maxBucketBitDiffs :: "u8 list"
  nElts :: nat
  hkeys :: "'k list"
  drawn :: nat

definition bd_match :: "u8 \<Rightarrow> nat \<Rightarrow> bool" where
  "bd_match d diff \<longleftrightarrow> diff + 1 = unat d"

text \<open>Method \<open>set\<close> of a bit difference: the element at index \<open>i\<close>.\<close>

definition bd_set :: "'k Hash \<Rightarrow> nat \<Rightarrow> u64 \<Rightarrow> nat \<Rightarrow> 'k Hash option" where
  "bd_set h i base diff = (
     let bd = of_nat (1 + diff); bi = unat (drop_bit (log2EltsPerBucket h) base) in do {
       mx \<leftarrow> slice_get (maxBucketBitDiffs h) bi;
       ds \<leftarrow> slice_set (bitDiffs h) i bd;
       Some (h\<lparr>bitDiffs := ds,
         maxBucketBitDiffs := (if mx < bd then (maxBucketBitDiffs h)[bi := bd] else maxBucketBitDiffs h)\<rparr>) })"

definition capMask :: "'k Hash \<Rightarrow> nat \<Rightarrow> u64" where
  "capMask h i = push_bit (if i = 0 then log2Cap0 h else log2Cap1 h) 1 - 1"

definition limit :: "HashState \<Rightarrow> u32" where
  "limit s = ucast (drop_bit 32 (fst s))"

definition baseIndex :: "'k Hash \<Rightarrow> HashState \<Rightarrow> u64" where
  "baseIndex h s = (let t = if limit s > limit0 h then 1 else 0
     in (snd s AND capMask h t) + push_bit (log2Cap0 h) (of_nat t))"

definition baseIndexForKey :: "(HashState \<Rightarrow> 'k \<Rightarrow> HashState) \<Rightarrow> 'k Hash \<Rightarrow> 'k \<Rightarrow> u64" where
  "baseIndexForKey hk h k = baseIndex h (hk (seed h) k)"

definition hash_empty :: "'k Hash \<Rightarrow> bool" where
  "hash_empty h \<longleftrightarrow> length (bitDiffs h) = 0"

text \<open>The search of a bucket, \<open>n\<close> differences to go: the matching difference.\<close>

fun search_loop :: "'k Hash \<Rightarrow> 'k \<Rightarrow> u64 \<Rightarrow> u8 \<Rightarrow> nat \<Rightarrow> nat \<Rightarrow> nat option option" where
  "search_loop h k base mx 0 diff = Some None"
| "search_loop h k base mx (Suc n) diff = (let i = unat (base XOR of_nat diff) in do {
     bd \<leftarrow> slice_get (bitDiffs h) i;
     if bd_match bd diff
     then do { ki \<leftarrow> slice_get (hkeys h) i;
               if k = ki then Some (Some diff) else search_loop h k base mx n (diff + 1) }
     else if unat mx \<le> diff + 1 then Some None
     else search_loop h k base mx n (diff + 1) })"

definition searchBase :: "'k Hash \<Rightarrow> 'k \<Rightarrow> u64 \<Rightarrow> nat option option" where
  "searchBase h k base = do {
     mx \<leftarrow> slice_get (maxBucketBitDiffs h) (unat (drop_bit (log2EltsPerBucket h) base));
     search_loop h k base mx (2 ^ log2EltsPerBucket h) 0 }"

definition searchKey :: "(HashState \<Rightarrow> 'k \<Rightarrow> HashState) \<Rightarrow> 'k Hash \<Rightarrow> 'k \<Rightarrow> (u64 \<times> nat option) option" where
  "searchKey hk h k = (let base = baseIndexForKey hk h k in do { d \<leftarrow> searchBase h k base; Some (base, d) })"

text \<open>The search of a free slot; the slot found is taken.\<close>

fun free_loop :: "'k Hash \<Rightarrow> u64 \<Rightarrow> nat \<Rightarrow> nat \<Rightarrow> ((nat \<times> nat) option \<times> 'k Hash) option" where
  "free_loop h base 0 diff = Some (None, h)"
| "free_loop h base (Suc n) diff = (let i = unat (base XOR of_nat diff) in do {
     bd \<leftarrow> slice_get (bitDiffs h) i;
     if bd = 0 then do { h \<leftarrow> bd_set h i base diff; Some (Some (i, diff), h) }
     else free_loop h base n (diff + 1) })"

definition searchFreeIndex :: "'k Hash \<Rightarrow> u64 \<Rightarrow> ((nat \<times> nat) option \<times> 'k Hash) option" where
  "searchFreeIndex h base = free_loop h base (2 ^ log2EltsPerBucket h) 0"

definition hash_ForeachIndex :: "'k Hash \<Rightarrow> nat list" where
  "hash_ForeachIndex h = filter (\<lambda>i. bitDiffs h ! i \<noteq> 0) [0..<length (bitDiffs h)]"

text \<open>\<open>nextValidIndex\<close>; \<open>None\<close> stands for the index \<open>^uint(0)\<close>.\<close>

definition nextValidIndex :: "'k Hash \<Rightarrow> nat option \<Rightarrow> nat \<Rightarrow> nat option" where
  "nextValidIndex h i nth_i = (
     let i = (case i of None \<Rightarrow> 0 | Some i \<Rightarrow> i);
         v = filter (\<lambda>i. bitDiffs h ! i \<noteq> 0) [i..<length (bitDiffs h)]
     in if nth_i < length v then Some (v ! nth_i) else None)"

definition NextIndex :: "'k Hash \<Rightarrow> nat option \<Rightarrow> nat option" where
  "NextIndex h i = nextValidIndex h i 1"

definition hash_Get :: "(HashState \<Rightarrow> 'k \<Rightarrow> HashState) \<Rightarrow> 'k Hash \<Rightarrow> 'k \<Rightarrow> (nat option) option" where
  "hash_Get hk h k = (if hash_empty h then Some None
     else do { (base, d) \<leftarrow> searchKey hk h k; Some (map_option (\<lambda>diff. unat (base XOR of_nat diff)) d) })"

definition hash_alloc :: "(nat \<Rightarrow> u64) \<Rightarrow> 'k Hash \<Rightarrow> 'k Hash" where
  "hash_alloc rnd h = (
     let (c0, c1) = Cap_Log2 (hcap h);
         l0 = unat c0; l1 = (if c1 \<noteq> CapNil then unat c1 else 0);
         e = min (unat (ucast ((c0 - 1) div 2) :: u8)) 7;
         (cap, l1, lim) = (if c1 = CapNil then (hcap h, l1, NOT 0)
           else let (cap, l1) = (if l1 < e then (push_bit l0 1 OR push_bit e 1, e) else (hcap h, l1))
                in (cap, l1, ucast (push_bit (32 + l0) 1 div cap)))
     in h\<lparr>seed := (rnd (drawn h), rnd (drawn h + 1)), drawn := drawn h + 2, hcap := cap, log2Cap0 := l0, log2Cap1 := l1,
          log2EltsPerBucket := e, limit0 := lim, bitDiffs := replicate (unat cap) 0,
          maxBucketBitDiffs := replicate (unat (drop_bit e cap)) 0, nElts := 0\<rparr>)"

definition hash_grow :: "(nat \<Rightarrow> u64) \<Rightarrow> (u64 \<Rightarrow> u64) \<Rightarrow> 'k Hash \<Rightarrow> 'k Hash" where
  "hash_grow rnd nu h = hash_alloc rnd (h\<lparr>hcap := nu (hcap h)\<rparr>)"

text \<open>The client's \<open>HashResize\<close>.\<close>

definition HashResize :: "'k \<Rightarrow> 'k Hash \<Rightarrow> (nat \<times> nat) list \<Rightarrow> 'k Hash" where
  "HashResize zero h copies = h\<lparr>hkeys := fold (\<lambda>(src, dst) ks. ks[dst := hkeys h ! src]) copies (replicate (unat (hcap h)) zero)\<rparr>"

definition hash_Init :: "(nat \<Rightarrow> u64) \<Rightarrow> 'k \<Rightarrow> u64 \<Rightarrow> 'k Hash \<Rightarrow> 'k Hash" where
  "hash_Init rnd zero c h = HashResize zero (hash_alloc rnd (h\<lparr>hcap := Cap_Round c 3\<rparr>)) []"

text \<open>The copies for the valid indices of the old table; \<open>None\<close> inside when a bucket is full.\<close>

fun copy_loop :: "(HashState \<Rightarrow> 'k \<Rightarrow> HashState) \<Rightarrow> u8 list \<Rightarrow> nat list \<Rightarrow> 'k Hash \<Rightarrow> (nat \<times> nat) list \<Rightarrow>
    ((nat \<times> nat) list option \<times> 'k Hash) option" where
  "copy_loop hk bds [] h cs = Some (Some cs, h)"
| "copy_loop hk bds (src # srcs) h cs =
     (if bds ! src \<noteq> 0
      then do {
        k \<leftarrow> slice_get (hkeys h) src;
        (r, h) \<leftarrow> searchFreeIndex h (baseIndexForKey hk h k);
        (case r of Some (dst, _) \<Rightarrow> copy_loop hk bds srcs h (cs @ [(src, dst)]) | None \<Rightarrow> Some (None, h)) }
      else copy_loop hk bds srcs h cs)"

definition hash_copy :: "(HashState \<Rightarrow> 'k \<Rightarrow> HashState) \<Rightarrow> 'k \<Rightarrow> u8 list \<Rightarrow> 'k Hash \<Rightarrow> (bool \<times> 'k Hash) option" where
  "hash_copy hk zero bds h = do {
     (cs, h) \<leftarrow> copy_loop hk bds [0..<length bds] h [];
     Some (case cs of Some cs \<Rightarrow> (True, (HashResize zero h cs)\<lparr>nElts := length cs\<rparr>) | None \<Rightarrow> (False, h)) }"

fun grow_loop :: "nat \<Rightarrow> (HashState \<Rightarrow> 'k \<Rightarrow> HashState) \<Rightarrow> (nat \<Rightarrow> u64) \<Rightarrow> (u64 \<Rightarrow> u64) \<Rightarrow> 'k \<Rightarrow> u8 list \<Rightarrow>
    'k Hash \<Rightarrow> 'k Hash option" where
  "grow_loop 0 hk rnd nu zero save h = None"
| "grow_loop (Suc n) hk rnd nu zero save h = do {
     (ok, h) \<leftarrow> hash_copy hk zero save (hash_grow rnd nu h);
     if ok then Some h else grow_loop n hk rnd nu zero save h }"

fun set_loop :: "nat \<Rightarrow> (HashState \<Rightarrow> 'k \<Rightarrow> HashState) \<Rightarrow> (nat \<Rightarrow> u64) \<Rightarrow> (u64 \<Rightarrow> u64) \<Rightarrow> 'k \<Rightarrow> bool \<Rightarrow> 'k Hash \<Rightarrow> 'k \<Rightarrow>
    (nat \<times> bool \<times> 'k Hash) option" where
  "set_loop 0 hk rnd nu zero nonEmpty h k = None"
| "set_loop (Suc n) hk rnd nu zero nonEmpty h k = do {
     (base, d) \<leftarrow> (if nonEmpty then searchKey hk h k else Some (0, None));
     case d of Some diff \<Rightarrow> Some (unat (base XOR of_nat diff), True, h)
     | None \<Rightarrow> do {
         (r, h) \<leftarrow> (if nonEmpty then searchFreeIndex h base else Some (None, h));
         case r of Some (_, fi) \<Rightarrow> do {
             let i = unat (base XOR of_nat fi);
             h \<leftarrow> bd_set h i base fi;
             Some (i, False, h\<lparr>nElts := nElts h + 1\<rparr>) }
         | None \<Rightarrow> do {
             h \<leftarrow> grow_loop n hk rnd nu zero (bitDiffs h) h;
             set_loop n hk rnd nu zero True h k } } }"

definition hash_Set :: "nat \<Rightarrow> (HashState \<Rightarrow> 'k \<Rightarrow> HashState) \<Rightarrow> (nat \<Rightarrow> u64) \<Rightarrow> (u64 \<Rightarrow> u64) \<Rightarrow> 'k \<Rightarrow> 'k Hash \<Rightarrow> 'k \<Rightarrow>
    (nat \<times> bool \<times> 'k Hash) option" where
  "hash_Set n hk rnd nu zero h k = set_loop n hk rnd nu zero (\<not> hash_empty h) h k"

definition hash_Unset :: "(HashState \<Rightarrow> 'k \<Rightarrow> HashState) \<Rightarrow> 'k Hash \<Rightarrow> 'k \<Rightarrow> (nat option \<times> 'k Hash) option" where
  "hash_Unset hk h k = do {
     (base, d) \<leftarrow> searchKey hk h k;
     Some (case d of None \<Rightarrow> (None, h)
       | Some diff \<Rightarrow> let i = unat (base XOR of_nat diff)
           in (Some i, h\<lparr>bitDiffs := (bitDiffs h)[i := 0], nElts := nElts h - 1\<rparr>)) }"

definition hash_Clear :: "'k Hash \<Rightarrow> 'k Hash" where
  "hash_Clear h = h\<lparr>bitDiffs := map (\<lambda>_. 0) (bitDiffs h), maxBucketBitDiffs := map (\<lambda>_. 0) (maxBucketBitDiffs h), nElts := 0\<rparr>"

text \<open>A client inserts a key: \<open>Set\<close>, then the key stored at the index given.\<close>

definition hash_insert :: "nat \<Rightarrow> (HashState \<Rightarrow> 'k \<Rightarrow> HashState) \<Rightarrow> (nat \<Rightarrow> u64) \<Rightarrow> (u64 \<Rightarrow> u64) \<Rightarrow> 'k \<Rightarrow> 'k Hash \<Rightarrow> 'k \<Rightarrow>
    (nat \<times> bool \<times> 'k Hash) option" where
  "hash_insert n hk rnd nu zero h k = do {
     (i, ex, h) \<leftarrow> hash_Set n hk rnd nu zero h k;
     ks \<leftarrow> slice_set (hkeys h) i k;
     Some (i, ex, h\<lparr>hkeys := ks\<rparr>) }"

subsection \<open>The invariant\<close>

definition shape :: "'k Hash \<Rightarrow> bool" where
  "shape h \<longleftrightarrow> (let e = log2EltsPerBucket h; c = length (bitDiffs h) in
     c = unat (hcap h) \<and> 2 ^ e dvd c \<and> e \<le> 7 \<and> length (maxBucketBitDiffs h) = c div 2 ^ e \<and> 0 < c \<and>
     (\<forall>s. unat (baseIndex h s) < c))"

definition valid_set :: "'k Hash \<Rightarrow> nat set" where
  "valid_set h = {i. i < length (bitDiffs h) \<and> bitDiffs h ! i \<noteq> 0}"

text \<open>Every valid index is its key's base index with the recorded bits flipped, and its bucket's bound
  covers them.\<close>

definition placed :: "(HashState \<Rightarrow> 'k \<Rightarrow> HashState) \<Rightarrow> 'k Hash \<Rightarrow> (nat \<Rightarrow> 'k) \<Rightarrow> bool" where
  "placed hk h ky \<longleftrightarrow> (\<forall>i \<in> valid_set h. let d = unat (bitDiffs h ! i) in
     d \<le> 2 ^ log2EltsPerBucket h \<and> unat (baseIndexForKey hk h (ky i) XOR of_nat (d - 1)) = i \<and>
     d \<le> unat (maxBucketBitDiffs h ! (i div 2 ^ log2EltsPerBucket h)))"

definition hinv :: "(HashState \<Rightarrow> 'k \<Rightarrow> HashState) \<Rightarrow> 'k Hash \<Rightarrow> bool" where
  "hinv hk h \<longleftrightarrow> shape h \<and> placed hk h ((!) (hkeys h)) \<and> inj_on ((!) (hkeys h)) (valid_set h) \<and>
     length (hkeys h) = length (bitDiffs h) \<and> nElts h = card (valid_set h)"

definition stored :: "'k Hash \<Rightarrow> 'k set" where
  "stored h = (!) (hkeys h) ` valid_set h"

lemma shapeD:
  assumes "shape h"
  shows "length (bitDiffs h) = unat (hcap h)" "2 ^ log2EltsPerBucket h dvd length (bitDiffs h)" "log2EltsPerBucket h \<le> 7"
    "length (maxBucketBitDiffs h) = length (bitDiffs h) div 2 ^ log2EltsPerBucket h" "0 < length (bitDiffs h)"
    "unat (baseIndex h s) < length (bitDiffs h)"
  using assms unfolding shape_def Let_def by blast+

lemma unat_drop_bit_64: "unat (drop_bit n (w :: u64)) = unat w div 2 ^ n"
  by (simp only: unat_drop_bit_eq drop_bit_eq_div [where 'a = nat])

lemma unat_of_small: "d < 2 ^ e \<Longrightarrow> e \<le> 7 \<Longrightarrow> unat (of_nat d :: u64) = d"
proof -
  assume d: "d < 2 ^ e" and "e \<le> 7"
  then have "(2::nat) ^ e \<le> 2 ^ 7" by (intro power_increasing) auto
  then show ?thesis using d by (simp add: unsigned_of_nat take_bit_nat_eq_self)
qed

lemma xor_bucket:
  assumes "d < 2 ^ e" "e \<le> 7"
  shows "unat (b XOR of_nat d :: u64) div 2 ^ e = unat b div 2 ^ e"
proof -
  have "unat (drop_bit e (of_nat d :: u64)) = 0"
    unfolding unat_drop_bit_64 unat_of_small [OF assms] using assms(1) by simp
  then have "drop_bit e (of_nat d :: u64) = 0" by (simp add: unat_eq_0)
  then have "drop_bit e (b XOR of_nat d) = drop_bit e b" by (simp add: drop_bit_xor)
  then show ?thesis by (metis unat_drop_bit_64)
qed

lemma bucket_index:
  assumes "shape h" "d < 2 ^ log2EltsPerBucket h"
  shows "unat (baseIndex h s XOR of_nat d) < length (bitDiffs h)"
    "unat (baseIndex h s) div 2 ^ log2EltsPerBucket h < length (maxBucketBitDiffs h)"
    "unat (baseIndex h s XOR of_nat d) div 2 ^ log2EltsPerBucket h = unat (baseIndex h s) div 2 ^ log2EltsPerBucket h"
proof -
  let ?e = "2 ^ log2EltsPerBucket h :: nat"
  note sh = shapeD [OF assms(1)]
  show 3: "unat (baseIndex h s XOR of_nat d) div ?e = unat (baseIndex h s) div ?e"
    using assms(2) sh(3) by (rule xor_bucket)
  obtain q where q: "length (bitDiffs h) = ?e * q" using sh(2) by (elim dvdE)
  have 2: "unat (baseIndex h s) div ?e < q" using sh(6) [of s] q by (simp add: div_less_iff_less_mult ac_simps)
  then show "unat (baseIndex h s) div ?e < length (maxBucketBitDiffs h)" using sh(4) q by simp
  have "unat (baseIndex h s XOR of_nat d) div ?e < q" using 2 3 by simp
  then show "unat (baseIndex h s XOR of_nat d) < length (bitDiffs h)" using q by (simp add: div_less_iff_less_mult ac_simps)
qed

lemma xor_left_cancel_64: "(b XOR x = b XOR y) = (x = (y :: u64))"
  by (metis bit.xor_left_self)

text \<open>The slot and the difference determine each other.\<close>

lemma xor_index_inj:
  assumes "unat (b XOR of_nat d :: u64) = unat (b XOR of_nat d')" "d < 2 ^ e" "d' < 2 ^ e" "e \<le> 7"
  shows "d = d'"
proof -
  have "(of_nat d :: u64) = of_nat d'" using assms(1) by (simp add: xor_left_cancel_64 flip: word_unat_eq_iff)
  then show ?thesis using unat_of_small [OF assms(2,4)] unat_of_small [OF assms(3,4)] by metis
qed

lemma placedD:
  assumes "placed hk h ky" "i \<in> valid_set h"
  obtains d where "unat (bitDiffs h ! i) = Suc d" "d < 2 ^ log2EltsPerBucket h"
    "unat (baseIndexForKey hk h (ky i) XOR of_nat d) = i" "Suc d \<le> unat (maxBucketBitDiffs h ! (i div 2 ^ log2EltsPerBucket h))"
proof -
  have "bitDiffs h ! i \<noteq> 0" using assms(2) by (simp add: valid_set_def)
  then have "unat (bitDiffs h ! i) \<noteq> 0" by (simp add: unat_eq_0)
  then obtain d where "unat (bitDiffs h ! i) = Suc d" by (auto simp: gr0_conv_Suc)
  then show thesis using assms(1) [unfolded placed_def Let_def, rule_format, OF assms(2)] that [of d] by simp
qed

lemma bd_match_valid: "bd_match (bitDiffs h ! j) diff \<Longrightarrow> j < length (bitDiffs h) \<Longrightarrow> j \<in> valid_set h"
  by (cases "bitDiffs h ! j = 0") (simp_all add: bd_match_def valid_set_def)

lemma search_loop_step:
  assumes "shape h" "diff < 2 ^ log2EltsPerBucket h" "length (hkeys h) = length (bitDiffs h)"
    "base = baseIndexForKey hk h k" "j = unat (base XOR of_nat diff)"
  shows "j < length (bitDiffs h)"
    "search_loop h k base mx (Suc n) diff =
      (if bd_match (bitDiffs h ! j) diff then if k = hkeys h ! j then Some (Some diff) else search_loop h k base mx n (diff + 1)
       else if unat mx \<le> diff + 1 then Some None else search_loop h k base mx n (diff + 1))"
proof -
  show "j < length (bitDiffs h)"
    using bucket_index(1) [OF assms(1,2), of "hk (seed h) k"] by (simp add: assms(4,5) baseIndexForKey_def)
  then show "search_loop h k base mx (Suc n) diff =
      (if bd_match (bitDiffs h ! j) diff then if k = hkeys h ! j then Some (Some diff) else search_loop h k base mx n (diff + 1)
       else if unat mx \<le> diff + 1 then Some None else search_loop h k base mx n (diff + 1))"
    using assms(3) by (simp add: assms(5) [symmetric] Let_def del: One_nat_def)
qed

lemma search_loop_found:
  assumes h: "shape h" "placed hk h ((!) (hkeys h))" "inj_on ((!) (hkeys h)) (valid_set h)" "length (hkeys h) = length (bitDiffs h)"
    and base: "base = baseIndexForKey hk h k"
    and mx: "mx = maxBucketBitDiffs h ! (unat base div 2 ^ log2EltsPerBucket h)"
    and i: "i \<in> valid_set h" "hkeys h ! i = k"
  shows "diff + n = 2 ^ log2EltsPerBucket h \<Longrightarrow> diff < unat (bitDiffs h ! i) \<Longrightarrow>
    search_loop h k base mx n diff = Some (Some (unat (bitDiffs h ! i) - 1))"
proof (induction n arbitrary: diff)
  obtain d where d: "unat (bitDiffs h ! i) = Suc d" "d < 2 ^ log2EltsPerBucket h" "unat (base XOR of_nat d) = i"
    "Suc d \<le> unat (maxBucketBitDiffs h ! (i div 2 ^ log2EltsPerBucket h))"
    by (rule placedD [OF h(2) i(1)]) (use i(2) base in simp)
  {
    case 0
    then show ?case using d by simp
  next
    case (Suc n)
    let ?j = "unat (base XOR of_nat diff)"
    have diff: "diff < 2 ^ log2EltsPerBucket h" using Suc.prems by simp
    note st = search_loop_step [OF h(1) diff h(4) base refl]
    show ?case
    proof (cases "diff = d")
      case True
      then show ?thesis using d i(2) unfolding st(2) by (simp add: bd_match_def)
    next
      case False
      then have less: "diff < d" using Suc.prems(2) d(1) by simp
      have "i \<noteq> ?j" using xor_index_inj [OF _ d(2) diff shapeD(3) [OF h(1)], of base] d(3) False by auto
      then have nk: "k \<noteq> hkeys h ! ?j" if "bd_match (bitDiffs h ! ?j) diff"
        using bd_match_valid [OF that st(1)] h(3) i by (metis inj_onD)
      have "i div 2 ^ log2EltsPerBucket h = unat base div 2 ^ log2EltsPerBucket h"
        using bucket_index(3) [OF h(1) d(2), of "hk (seed h) k"] d(3) by (simp add: base baseIndexForKey_def)
      then have "\<not> unat mx \<le> diff + 1" using d(4) less mx by simp
      then have "search_loop h k base mx (Suc n) diff = search_loop h k base mx n (diff + 1)"
        unfolding st(2) using nk by simp
      also have "\<dots> = Some (Some (unat (bitDiffs h ! i) - 1))" using Suc.prems less d(1) by (intro Suc.IH) simp_all
      finally show ?thesis .
    qed
  }
qed

lemma search_loop_absent:
  assumes h: "shape h" "length (hkeys h) = length (bitDiffs h)" "base = baseIndexForKey hk h k" "k \<notin> stored h"
  shows "diff + n = 2 ^ log2EltsPerBucket h \<Longrightarrow> search_loop h k base mx n diff = Some None"
proof (induction n arbitrary: diff)
  case (Suc n)
  have diff: "diff < 2 ^ log2EltsPerBucket h" using Suc.prems by simp
  note st = search_loop_step [OF h(1) diff h(2,3) refl]
  have "k \<noteq> hkeys h ! unat (base XOR of_nat diff)" if "bd_match (bitDiffs h ! unat (base XOR of_nat diff)) diff"
    using bd_match_valid [OF that st(1)] h(4) by (auto simp: stored_def)
  then show ?case using Suc.IH [of "diff + 1"] Suc.prems unfolding st(2) by simp
qed simp

lemma searchKey_spec:
  assumes "hinv hk h"
  shows "i \<in> valid_set h \<Longrightarrow> hkeys h ! i = k \<Longrightarrow>
      searchKey hk h k = Some (baseIndexForKey hk h k, Some (unat (bitDiffs h ! i) - 1)) \<and>
      unat (baseIndexForKey hk h k XOR of_nat (unat (bitDiffs h ! i) - 1)) = i"
    and "k \<notin> stored h \<Longrightarrow> searchKey hk h k = Some (baseIndexForKey hk h k, None)"
proof -
  have h: "shape h" "placed hk h ((!) (hkeys h))" "inj_on ((!) (hkeys h)) (valid_set h)" "length (hkeys h) = length (bitDiffs h)"
    using assms by (simp_all add: hinv_def)
  have b: "unat (drop_bit (log2EltsPerBucket h) (baseIndexForKey hk h k)) < length (maxBucketBitDiffs h)"
    unfolding baseIndexForKey_def unat_drop_bit_64 using bucket_index(2) [OF h(1), of 0 "hk (seed h) k"] by simp
  show "searchKey hk h k = Some (baseIndexForKey hk h k, None)" if "k \<notin> stored h"
    using search_loop_absent [OF h(1,4) refl that, of 0 "2 ^ log2EltsPerBucket h"] b
    by (simp add: searchKey_def searchBase_def unat_drop_bit_64 Let_def)
  show "searchKey hk h k = Some (baseIndexForKey hk h k, Some (unat (bitDiffs h ! i) - 1)) \<and>
      unat (baseIndexForKey hk h k XOR of_nat (unat (bitDiffs h ! i) - 1)) = i" if i: "i \<in> valid_set h" "hkeys h ! i = k"
  proof -
    obtain d where d: "unat (bitDiffs h ! i) = Suc d" "unat (baseIndexForKey hk h k XOR of_nat d) = i"
      by (rule placedD [OF h(2) i(1)]) (use i(2) in simp)
    then show ?thesis using search_loop_found [OF h refl refl i, of 0 "2 ^ log2EltsPerBucket h"] b
      by (simp add: searchKey_def searchBase_def unat_drop_bit_64 Let_def)
  qed
qed

lemma hash_Get_spec:
  assumes "hinv hk h"
  shows "\<exists>r. hash_Get hk h k = Some r \<and> (\<forall>i. r = Some i \<longleftrightarrow> i \<in> valid_set h \<and> hkeys h ! i = k)"
proof -
  have ne: "\<not> hash_empty h" using assms shapeD(5) [of h] by (simp add: hinv_def hash_empty_def)
  show ?thesis
  proof (cases "k \<in> stored h")
    case True
    then obtain i where i: "i \<in> valid_set h" "hkeys h ! i = k" by (auto simp: stored_def)
    have "hash_Get hk h k = Some (Some i)" using searchKey_spec(1) [OF assms i] ne by (simp add: hash_Get_def)
    moreover have "i' = i" if "i' \<in> valid_set h" "hkeys h ! i' = k" for i'
      using assms i that unfolding hinv_def by (metis inj_onD)
    ultimately show ?thesis using i by (intro exI [of _ "Some i"]) (metis option.inject)
  next
    case False
    then have "hash_Get hk h k = Some None" using searchKey_spec(2) [OF assms False] ne by (simp add: hash_Get_def)
    then show ?thesis using False by (auto simp: stored_def)
  qed
qed

subsection \<open>Taking a slot\<close>

text \<open>The table with slot \<open>i\<close> taken at difference \<open>d\<close>.\<close>

definition take_slot :: "'k Hash \<Rightarrow> nat \<Rightarrow> nat \<Rightarrow> 'k Hash" where
  "take_slot h i d = (let bi = i div 2 ^ log2EltsPerBucket h; bd = of_nat (1 + d) in
     h\<lparr>bitDiffs := (bitDiffs h)[i := bd],
       maxBucketBitDiffs := (maxBucketBitDiffs h)[bi := max (maxBucketBitDiffs h ! bi) bd]\<rparr>)"

lemma unat_bd: "d < 2 ^ e \<Longrightarrow> e \<le> 7 \<Longrightarrow> unat (1 + of_nat d :: u8) = Suc d"
proof -
  assume d: "d < 2 ^ e" and "e \<le> 7"
  then have "(2::nat) ^ e \<le> 2 ^ 7" by (intro power_increasing) auto
  then have "unat (of_nat (Suc d) :: u8) = Suc d" using d by (simp add: unsigned_of_nat take_bit_nat_eq_self del: of_nat_Suc)
  then show ?thesis by simp
qed

lemma max_of_less: "max a b = (if a < b then b else (a :: u8))"
  by (auto simp: max_def not_less)

lemma bd_set_take:
  assumes "shape h" "base = baseIndex h s" "d < 2 ^ log2EltsPerBucket h" "i = unat (base XOR of_nat d)"
  shows "bd_set h i base d = Some (take_slot h i d)"
proof -
  note b = bucket_index [OF assms(1,3), of s, folded assms(2), folded assms(4)]
  have bi: "unat (drop_bit (log2EltsPerBucket h) base) = i div 2 ^ log2EltsPerBucket h"
    unfolding unat_drop_bit_64 b(3) ..
  show ?thesis using b by (simp add: bd_set_def take_slot_def Let_def bi max_of_less)
qed

lemma take_slot_simps [simp]:
  "log2EltsPerBucket (take_slot h i d) = log2EltsPerBucket h" "hkeys (take_slot h i d) = hkeys h"
  "seed (take_slot h i d) = seed h" "length (bitDiffs (take_slot h i d)) = length (bitDiffs h)"
  "baseIndex (take_slot h i d) = baseIndex h" "baseIndexForKey hk (take_slot h i d) = baseIndexForKey hk h"
  "nElts (take_slot h i d) = nElts h" "hcap (take_slot h i d) = hcap h"
  "length (maxBucketBitDiffs (take_slot h i d)) = length (maxBucketBitDiffs h)"
  by (simp_all add: take_slot_def Let_def fun_eq_iff baseIndex_def capMask_def baseIndexForKey_def)

lemma shape_take_slot: "shape h \<Longrightarrow> shape (take_slot h i d)"
  unfolding shape_def Let_def take_slot_simps .

lemma valid_take_slot:
  assumes "i < length (bitDiffs h)" "d < 2 ^ e" "e \<le> 7"
  shows "valid_set (take_slot h i d) = insert i (valid_set h)"
proof -
  have "(1 + of_nat d :: u8) \<noteq> 0" using unat_bd [OF assms(2,3)] by auto
  then show ?thesis using assms(1) by (auto simp: valid_set_def take_slot_def Let_def nth_list_update)
qed

lemma unat_max_u8: "unat (max a b :: u8) = max (unat a) (unat b)"
  by (simp add: max_def word_le_nat_alt)

lemma placed_take_slot:
  assumes "shape h" "placed hk h ky" "d < 2 ^ log2EltsPerBucket h" "i = unat (baseIndexForKey hk h k XOR of_nat d)"
  shows "placed hk (take_slot h i d) (ky(i := k))"
proof -
  let ?h = "take_slot h i d" and ?e = "2 ^ log2EltsPerBucket h :: nat"
  note b = bucket_index [OF assms(1,3), of "hk (seed h) k", folded baseIndexForKey_def, folded assms(4)]
  note e7 = shapeD(3) [OF assms(1)]
  have bi: "i div ?e < length (maxBucketBitDiffs h)" using b by simp
  have mono: "unat (maxBucketBitDiffs h ! j) \<le> unat (maxBucketBitDiffs ?h ! j)" for j
    by (simp add: take_slot_def Let_def nth_list_update unat_max_u8)
      (metis bi list_update_beyond max.cobounded1 nth_list_update_eq nth_list_update_neq order_refl unat_max_u8)
  show ?thesis unfolding placed_def Let_def
  proof (intro ballI)
    fix j
    assume j: "j \<in> valid_set ?h"
    show "unat (bitDiffs ?h ! j) \<le> 2 ^ log2EltsPerBucket ?h \<and>
        unat (baseIndexForKey hk ?h ((ky(i := k)) j) XOR of_nat (unat (bitDiffs ?h ! j) - 1)) = j \<and>
        unat (bitDiffs ?h ! j) \<le> unat (maxBucketBitDiffs ?h ! (j div 2 ^ log2EltsPerBucket ?h))"
    proof (cases "j = i")
      case True
      have u: "unat (bitDiffs ?h ! i) = Suc d" using b(1) unat_bd [OF assms(3) e7] by (simp add: take_slot_def Let_def)
      moreover have "Suc d \<le> unat (maxBucketBitDiffs ?h ! (i div ?e))"
        using bi unat_bd [OF assms(3) e7] by (simp add: take_slot_def Let_def unat_max_u8)
      ultimately show ?thesis using True assms(3,4) by simp
    next
      case False
      then have jv: "j \<in> valid_set h" using j valid_take_slot [OF b(1) assms(3) e7] by auto
      have eq: "bitDiffs ?h ! j = bitDiffs h ! j" using False by (simp add: take_slot_def Let_def)
      have "unat (bitDiffs h ! j) \<le> ?e \<and> unat (baseIndexForKey hk h (ky j) XOR of_nat (unat (bitDiffs h ! j) - 1)) = j \<and>
          unat (bitDiffs h ! j) \<le> unat (maxBucketBitDiffs h ! (j div ?e))"
        using assms(2) [unfolded placed_def Let_def, rule_format, OF jv] .
      then show ?thesis unfolding eq using False mono [of "j div ?e"] by simp
    qed
  qed
qed

lemma free_loop_spec:
  assumes "shape h" "base = baseIndex h s"
  shows "diff + n = 2 ^ log2EltsPerBucket h \<Longrightarrow>
    (\<exists>d < 2 ^ log2EltsPerBucket h. bitDiffs h ! unat (base XOR of_nat d) = 0 \<and>
       free_loop h base n diff = Some (Some (unat (base XOR of_nat d), d), take_slot h (unat (base XOR of_nat d)) d)) \<or>
    (\<forall>d. diff \<le> d \<and> d < 2 ^ log2EltsPerBucket h \<longrightarrow> bitDiffs h ! unat (base XOR of_nat d) \<noteq> 0) \<and>
       free_loop h base n diff = Some (None, h)"
proof (induction n arbitrary: diff)
  case (Suc n)
  then have d: "diff < 2 ^ log2EltsPerBucket h" by simp
  have j: "unat (base XOR of_nat diff) < length (bitDiffs h)"
    using bucket_index(1) [OF assms(1) d, of s] by (simp add: assms(2))
  show ?case
  proof (cases "bitDiffs h ! unat (base XOR of_nat diff) = 0")
    case True
    then have "free_loop h base (Suc n) diff =
        Some (Some (unat (base XOR of_nat diff), diff), take_slot h (unat (base XOR of_nat diff)) diff)"
      using j bd_set_take [OF assms d refl] by (simp add: Let_def)
    then show ?thesis using d True by blast
  next
    case False
    then have "free_loop h base (Suc n) diff = free_loop h base n (diff + 1)" using j by (simp add: Let_def)
    moreover have "diff \<le> x \<longleftrightarrow> x = diff \<or> diff + 1 \<le> x" for x by auto
    ultimately show ?thesis using Suc.IH [of "diff + 1"] Suc.prems False by auto
  qed
qed auto

lemma searchFreeIndex_spec:
  assumes "shape h" "base = baseIndex h s"
  shows "(\<exists>d < 2 ^ log2EltsPerBucket h. bitDiffs h ! unat (base XOR of_nat d) = 0 \<and>
       searchFreeIndex h base = Some (Some (unat (base XOR of_nat d), d), take_slot h (unat (base XOR of_nat d)) d)) \<or>
    (\<forall>d < 2 ^ log2EltsPerBucket h. bitDiffs h ! unat (base XOR of_nat d) \<noteq> 0) \<and> searchFreeIndex h base = Some (None, h)"
  using free_loop_spec [OF assms, of 0 "2 ^ log2EltsPerBucket h"] by (simp add: searchFreeIndex_def)

lemma placed_cong: "\<forall>i \<in> valid_set h. ky i = ky' i \<Longrightarrow> placed hk h ky = placed hk h ky'"
  unfolding placed_def by (intro ball_cong refl) simp

lemma finite_valid: "finite (valid_set h)"
  by (simp add: valid_set_def)

lemma take_slot_bit: "i < length (bitDiffs h) \<Longrightarrow> bitDiffs (take_slot h i d) ! i = of_nat (1 + d)"
  by (simp add: take_slot_def Let_def)

text \<open>Taking a slot twice at the same difference is taking it once, as \<open>Set\<close> does after its search.\<close>

lemma take_slot_twice: "take_slot (take_slot h i d) i d = take_slot h i d"
  by (cases "i div 2 ^ log2EltsPerBucket h < length (maxBucketBitDiffs h)")
    (simp_all add: take_slot_def Let_def list_update_beyond)

text \<open>A new key in a free slot, stored there by the client.\<close>

lemma insert_slot:
  assumes h: "hinv hk h" and k: "k \<notin> stored h" and d: "d < 2 ^ log2EltsPerBucket h"
    and i: "i = unat (baseIndexForKey hk h k XOR of_nat d)" and free: "bitDiffs h ! i = 0"
  defines "h' \<equiv> (take_slot h i d)\<lparr>nElts := nElts h + 1, hkeys := (hkeys h)[i := k]\<rparr>"
  shows "hinv hk h'" "stored h' = insert k (stored h)" "i \<in> valid_set h'" "i < length (hkeys h)"
    "\<forall>j \<in> valid_set h. j \<in> valid_set h' \<and> hkeys h' ! j = hkeys h ! j"
proof -
  have inv: "shape h" "placed hk h ((!) (hkeys h))" "inj_on ((!) (hkeys h)) (valid_set h)"
    "length (hkeys h) = length (bitDiffs h)" "nElts h = card (valid_set h)" using h by (simp_all add: hinv_def)
  let ?t = "take_slot h i d"
  have il: "i < length (bitDiffs h)" using bucket_index(1) [OF inv(1) d, of "hk (seed h) k"] by (simp add: i baseIndexForKey_def)
  then show "i < length (hkeys h)" using inv(4) by simp
  have vt: "valid_set ?t = insert i (valid_set h)" by (rule valid_take_slot [OF il d shapeD(3) [OF inv(1)]])
  have same: "valid_set h' = valid_set ?t" "bitDiffs h' = bitDiffs ?t" "maxBucketBitDiffs h' = maxBucketBitDiffs ?t"
    "log2EltsPerBucket h' = log2EltsPerBucket h" "baseIndexForKey hk h' = baseIndexForKey hk h" "hcap h' = hcap ?t"
    "baseIndex h' = baseIndex h" "hkeys h' = (hkeys h)[i := k]"
    by (simp_all add: h'_def valid_set_def fun_eq_iff baseIndexForKey_def baseIndex_def capMask_def take_slot_def Let_def)
  have iv: "i \<notin> valid_set h" using free by (simp add: valid_set_def)
  have key: "hkeys h' ! j = (if j = i then k else hkeys h ! j)" for j
    using il inv(4) by (simp add: same(8))
  have "shape h'" using shape_take_slot [OF inv(1), of i d] unfolding shape_def Let_def same(2-4,6,7) take_slot_simps .
  moreover have "placed hk ?t (((!) (hkeys h))(i := k))" by (rule placed_take_slot [OF inv(1,2) d i])
  then have "placed hk h' (((!) (hkeys h))(i := k))" unfolding placed_def same by simp
  then have "placed hk h' ((!) (hkeys h'))" by (subst placed_cong [where ky' = "((!) (hkeys h))(i := k)"]) (simp_all add: key)
  moreover have "inj_on ((!) (hkeys h')) (valid_set h')"
  proof -
    have "inj_on ((!) (hkeys h')) (valid_set h)" using inv(3) iv by (auto simp: inj_on_def key)
    moreover have "k \<notin> (!) (hkeys h') ` (valid_set h - {i})" using k by (auto simp: stored_def key)
    ultimately show ?thesis unfolding same(1) vt using iv by (simp add: inj_on_insert key)
  qed
  moreover have "nElts h' = card (valid_set h')" using inv(5) iv finite_valid [of h] unfolding same(1) vt by (simp add: h'_def)
  ultimately show "hinv hk h'" using inv(4) same(2,8) by (simp add: hinv_def)
  show "stored h' = insert k (stored h)" unfolding stored_def same(1) vt using iv by (force simp: key)
  show "i \<in> valid_set h'" unfolding same(1) vt by simp
  show "\<forall>j \<in> valid_set h. j \<in> valid_set h' \<and> hkeys h' ! j = hkeys h ! j"
    unfolding same(1) vt using iv by (auto simp: key)
qed

lemma hash_Unset_spec:
  assumes h: "hinv hk h"
  shows "k \<notin> stored h \<Longrightarrow> hash_Unset hk h k = Some (None, h)"
    and "k \<in> stored h \<Longrightarrow> \<exists>i h'. hash_Unset hk h k = Some (Some i, h') \<and> i \<in> valid_set h \<and> hkeys h ! i = k \<and>
      hinv hk h' \<and> stored h' = stored h - {k} \<and> valid_set h' = valid_set h - {i}"
proof -
  show "hash_Unset hk h k = Some (None, h)" if "k \<notin> stored h"
    using searchKey_spec(2) [OF h that] by (simp add: hash_Unset_def)
  assume "k \<in> stored h"
  then obtain i where i: "i \<in> valid_set h" "hkeys h ! i = k" by (auto simp: stored_def)
  define h' where "h' = h\<lparr>bitDiffs := (bitDiffs h)[i := 0], nElts := nElts h - 1\<rparr>"
  have "hash_Unset hk h k = Some (Some i, h')"
    using searchKey_spec(1) [OF h i] by (simp add: hash_Unset_def Let_def h'_def)
  moreover have vs: "valid_set h' = valid_set h - {i}"
    using i(1) by (auto simp: valid_set_def h'_def nth_list_update)
  moreover have inv: "shape h" "placed hk h ((!) (hkeys h))" "inj_on ((!) (hkeys h)) (valid_set h)"
    "length (hkeys h) = length (bitDiffs h)" "nElts h = card (valid_set h)" using h by (simp_all add: hinv_def)
  moreover have "hinv hk h'"
  proof -
    have same: "baseIndex h' = baseIndex h" "baseIndexForKey hk h' = baseIndexForKey hk h" "hkeys h' = hkeys h"
      "log2EltsPerBucket h' = log2EltsPerBucket h" "maxBucketBitDiffs h' = maxBucketBitDiffs h" "hcap h' = hcap h"
      "length (bitDiffs h') = length (bitDiffs h)"
      by (simp_all add: h'_def fun_eq_iff baseIndexForKey_def baseIndex_def capMask_def)
    have "shape h'" using inv(1) unfolding shape_def Let_def same .
    moreover have "bitDiffs h' ! j = bitDiffs h ! j" if "j \<in> valid_set h'" for j
      using that vs by (auto simp: h'_def)
    then have "placed hk h' ((!) (hkeys h'))" using inv(2) vs unfolding placed_def same by auto
    moreover have "inj_on ((!) (hkeys h')) (valid_set h')" using inv(3) vs same(3) by (simp add: inj_on_diff)
    moreover have "nElts h' = card (valid_set h')" using inv(5) i(1) finite_valid [of h] by (simp add: vs) (simp add: h'_def)
    ultimately show ?thesis using inv(4) same by (simp add: hinv_def)
  qed
  moreover have "stored h' = stored h - {k}"
    using inv(3) i unfolding stored_def vs by (auto simp: h'_def inj_on_def)
  ultimately show "\<exists>i h'. hash_Unset hk h k = Some (Some i, h') \<and> i \<in> valid_set h \<and> hkeys h ! i = k \<and>
      hinv hk h' \<and> stored h' = stored h - {k} \<and> valid_set h' = valid_set h - {i}" using i by blast
qed

subsection \<open>Allocation\<close>

text \<open>The capacities a table gets: one or two powers of 2, at least 8 and below \<open>2^32\<close>.\<close>

definition cap_ok :: "u64 \<Rightarrow> bool" where
  "cap_ok c \<longleftrightarrow> (\<exists>a. 3 \<le> a \<and> a < 32 \<and> (c = push_bit a 1 \<or> (\<exists>b < a. c = push_bit a 1 + push_bit b 1)))"

lemma Cap_Log2_one:
  assumes "a < 64"
  shows "\<exists>c0. Cap_Log2 (push_bit a 1) = (c0, CapNil) \<and> unat c0 = a"
proof -
  let ?x = "push_bit a 1 :: u64"
  have "FirstSet ?x = ?x" by (rule FirstSet_lowest) (use assms in \<open>auto simp: bit_simps\<close>)
  then have "Cap_Pow2 ?x = (?x, CapNil)" by (simp add: Cap_Pow2_def Let_def FirstSet_def)
  then show ?thesis using MinLog2_push_bit_1 [OF assms] by (simp add: Cap_Log2_def Let_def)
qed

lemma push_bit_add_or: "a \<noteq> b \<Longrightarrow> push_bit a 1 + push_bit b 1 = (push_bit a 1 OR push_bit b 1 :: u64)"
  by (rule disjunctive_add_eq_or, rule bit_word_eqI) (auto simp: bit_simps)

lemma Cap_Log2_two:
  assumes "b < a" "a < 63"
  shows "\<exists>c0 c1. Cap_Log2 (push_bit a 1 + push_bit b 1) = (c0, c1) \<and> unat c0 = a \<and> unat c1 = b \<and> c1 \<noteq> CapNil"
proof -
  let ?x = "push_bit a 1 + push_bit b 1 :: u64"
  have or: "?x = push_bit a 1 OR push_bit b 1" using assms by (intro push_bit_add_or) simp
  have "bit ?x b" "\<forall>k < b. \<not> bit ?x k" unfolding or using assms by (auto simp: bit_simps)
  from FirstSet_lowest [OF this] have f: "?x AND - ?x = push_bit b 1" unfolding FirstSet_def .
  have x: "?x XOR push_bit b 1 = push_bit a 1"
    unfolding or by (rule bit_word_eqI) (use assms in \<open>auto simp: bit_simps\<close>)
  have u: "unat (push_bit b 1 :: u64) = 2 ^ b" "unat (push_bit a 1 :: u64) = 2 ^ a"
    using unat_push_bit_1 assms by simp_all
  have l: "(2::nat) ^ b < 2 ^ 63" using assms by (intro power_strict_increasing) simp_all
  have n: "unat CapNil = 2 ^ 64 - 1" by (simp add: CapNil_def unsigned_minus_1_eq_mask mask_eq_exp_minus_1)
  have "push_bit a 1 \<noteq> (0 :: u64)" using u(2) by (metis power_not_zero unsigned_0 zero_neq_numeral)
  moreover have ne: "push_bit b 1 \<noteq> CapNil" using u(1) l n by auto
  ultimately have "Cap_Log2 ?x = (MinLog2 (push_bit a 1), MinLog2 (push_bit b 1))"
    unfolding Cap_Log2_def Cap_Pow2_def Let_def f x by simp
  moreover have "unat (MinLog2 (push_bit a 1)) = a" "unat (MinLog2 (push_bit b 1)) = b"
    using MinLog2_push_bit_1 assms by simp_all
  moreover have "MinLog2 (push_bit b 1) \<noteq> CapNil"
  proof
    assume "MinLog2 (push_bit b 1) = CapNil"
    then have "unat CapNil = b" using MinLog2_push_bit_1 [of b] assms by simp
    then show False using n assms by simp
  qed
  ultimately show ?thesis by blast
qed

lemma unat_and_capMask: "l < 64 \<Longrightarrow> unat (x AND (push_bit l 1 - 1) :: u64) < 2 ^ l"
proof -
  assume l: "l < 64"
  have "unat (push_bit l 1 - 1 :: u64) = 2 ^ l - 1"
    using unat_push_bit_1 [OF l] by (subst unat_minus_one) (auto simp: unat_eq_0 [symmetric])
  moreover have "unat (x AND (push_bit l 1 - 1)) \<le> unat (push_bit l 1 - 1 :: u64)"
    by (metis word_and_le1 word_le_nat_alt)
  moreover have "(0::nat) < 2 ^ l" by simp
  ultimately show ?thesis by linarith
qed

lemma baseIndex_bound:
  assumes "log2Cap0 h = a" "a < 32" "log2Cap1 h = b" "b < 32" "limit0 h = NOT 0 \<and> n = 2 ^ a \<or> n = 2 ^ a + 2 ^ b"
  shows "unat (baseIndex h s) < n"
proof (cases "limit s > limit0 h")
  case True
  then have n: "n = 2 ^ a + 2 ^ b" using assms(5) word_order.extremum_strict [of "limit s"] by auto
  let ?y = "snd s AND (push_bit b 1 - 1)"
  have y: "unat ?y < 2 ^ b" using unat_and_capMask assms(4) by simp
  have "(2::nat) ^ a \<le> 2 ^ 32" "(2::nat) ^ b \<le> 2 ^ 32" using assms(2,4) by (intro power_increasing; simp)+
  then have "unat ?y + 2 ^ a < 2 ^ 64" using y by simp
  moreover have "unat (push_bit a 1 :: u64) = 2 ^ a" using unat_push_bit_1 assms(2) by simp
  ultimately have "unat (?y + push_bit a 1) = unat ?y + 2 ^ a" by (simp add: unat_word_ariths)
  then show ?thesis using True y n assms(1,3) by (simp add: baseIndex_def capMask_def)
next
  case False
  have "unat (snd s AND (push_bit a 1 - 1)) < 2 ^ a" using unat_and_capMask assms(2) by simp
  then show ?thesis using False assms(1,5) by (auto simp: baseIndex_def capMask_def)
qed

lemma shape_intro:
  assumes "log2Cap0 h = a" "a < 32" "log2Cap1 h = b" "b < 32" "log2EltsPerBucket h = e" "e \<le> 7" "e \<le> a"
    "limit0 h = NOT 0 \<and> unat (hcap h) = 2 ^ a \<or> unat (hcap h) = 2 ^ a + 2 ^ b \<and> e \<le> b"
    "bitDiffs h = replicate (unat (hcap h)) 0" "maxBucketBitDiffs h = replicate (unat (drop_bit e (hcap h))) 0"
  shows "shape h" "valid_set h = {}"
proof -
  have "2 ^ e dvd unat (hcap h)" using assms(7,8) by (auto simp: le_imp_power_dvd)
  moreover have "0 < unat (hcap h)" using assms(8) by auto
  moreover have "unat (baseIndex h s) < unat (hcap h)" for s
    using assms(8) by (intro baseIndex_bound [OF assms(1-4)]) auto
  ultimately show "shape h" using assms(5,6,9,10) unfolding shape_def Let_def by (simp add: unat_drop_bit_64)
  show "valid_set h = {}" by (simp add: valid_set_def assms(9))
qed

lemma alloc_bucket_size:
  assumes "unat (c0 :: u64) = a" "3 \<le> a" "a < 32"
  shows "min (unat (ucast ((c0 - 1) div 2) :: u8)) 7 = min ((a - 1) div 2) 7"
proof -
  have "c0 \<noteq> 0" using assms by auto
  then have "unat ((c0 - 1) div 2) = (a - 1) div 2" by (simp add: unat_div unat_minus_one assms(1))
  moreover have "(a - 1) div 2 < 256" using assms by simp
  ultimately show ?thesis by (simp add: unsigned_ucast_eq take_bit_nat_eq_self)
qed

lemma hash_alloc_shape:
  assumes "cap_ok (hcap h)"
  shows "shape (hash_alloc rnd h)" "valid_set (hash_alloc rnd h) = {}" "hkeys (hash_alloc rnd h) = hkeys h"
proof -
  show "hkeys (hash_alloc rnd h) = hkeys h" by (simp add: hash_alloc_def Let_def split: prod.splits)
  obtain a where a: "3 \<le> a" "a < 32" and c: "hcap h = push_bit a 1 \<or> (\<exists>b < a. hcap h = push_bit a 1 + push_bit b 1)"
    using assms unfolding cap_ok_def by blast
  define e where "e = min ((a - 1) div 2) 7"
  have e: "e \<le> 7" "e < a" using a by (auto simp: e_def)
  have "shape (hash_alloc rnd h) \<and> valid_set (hash_alloc rnd h) = {}"
    using c
  proof
    assume c: "hcap h = push_bit a 1"
    have "a < 64" using a by simp
    then obtain c0 where c0: "Cap_Log2 (hcap h) = (c0, CapNil)" "unat c0 = a" using Cap_Log2_one c by metis
    have u: "unat (hcap h) = 2 ^ a" using unat_push_bit_1 a c by simp
    note alloc = hash_alloc_def [of rnd h, unfolded c0 Let_def prod.case alloc_bucket_size [OF c0(2) a, folded e_def]]
    show ?thesis
      by (intro conjI shape_intro [where a = a and b = 0 and e = e]) (use a e u c0(2) in \<open>simp_all add: alloc\<close>)
  next
    assume "\<exists>b < a. hcap h = push_bit a 1 + push_bit b 1"
    then obtain b where b: "b < a" "hcap h = push_bit a 1 + push_bit b 1" by blast
    obtain c0 c1 where c0: "Cap_Log2 (hcap h) = (c0, c1)" "unat c0 = a" and c1: "unat c1 = b" "c1 \<noteq> CapNil"
      using Cap_Log2_two [OF b(1)] b(2) a by auto
    note alloc = hash_alloc_def [of rnd h, unfolded c0 Let_def prod.case alloc_bucket_size [OF c0(2) a, folded e_def]]
    have u: "unat (push_bit a 1 + push_bit k 1 :: u64) = 2 ^ a + 2 ^ k" if "k \<le> a" for k
    proof -
      have "(2::nat) ^ a \<le> 2 ^ 32" "(2::nat) ^ k \<le> 2 ^ 32" using a that by (intro power_increasing; simp)+
      then have "(2::nat) ^ a + 2 ^ k < 2 ^ 64" by simp
      then show ?thesis using unat_push_bit_1 [of a] unat_push_bit_1 [of k] a that by (simp add: unat_word_ariths)
    qed
    have or: "push_bit a 1 OR push_bit e 1 = (push_bit a 1 + push_bit e 1 :: u64)" using push_bit_add_or [of a e] e by simp
    show ?thesis
    proof (cases "b < e")
      case True
      show ?thesis
        by (intro conjI shape_intro [where a = a and b = e and e = e])
          (use a e c0(2) c1 True u [of e] in \<open>simp_all add: alloc or\<close>)
    next
      case False
      show ?thesis
        by (intro conjI shape_intro [where a = a and b = b and e = e])
          (use a e c0(2) c1 False u [of b] b in \<open>simp_all add: alloc\<close>)
    qed
  qed
  then show "shape (hash_alloc rnd h)" "valid_set (hash_alloc rnd h) = {}" by simp_all
qed

subsection \<open>Growing\<close>

definition copied :: "(HashState \<Rightarrow> 'k \<Rightarrow> HashState) \<Rightarrow> 'k Hash \<Rightarrow> (nat \<Rightarrow> 'k) \<Rightarrow> (nat \<times> nat) list \<Rightarrow> bool" where
  "copied hk h ky cs \<longleftrightarrow> shape h \<and> placed hk h ky \<and> valid_set h = snd ` set cs \<and> distinct (map snd cs) \<and>
     (\<forall>(s, d) \<in> set cs. ky d = hkeys h ! s)"

lemma copied_step:
  assumes c: "copied hk h ky cs" and r: "searchFreeIndex h (baseIndexForKey hk h k) = Some (Some (i, d), h')"
    and k: "k = hkeys h ! src"
  shows "copied hk h' (ky(i := k)) (cs @ [(src, i)])" "hkeys h' = hkeys h" "hcap h' = hcap h"
proof -
  have sh: "shape h" using c by (simp add: copied_def)
  from searchFreeIndex_spec [OF sh, of "baseIndexForKey hk h k" "hk (seed h) k"] r
  have i: "i = unat (baseIndexForKey hk h k XOR of_nat d)" and d: "d < 2 ^ log2EltsPerBucket h" and free: "bitDiffs h ! i = 0"
    and h': "h' = take_slot h i d"
    by (auto simp: baseIndexForKey_def)
  have il: "i < length (bitDiffs h)" using bucket_index(1) [OF sh d, of "hk (seed h) k"] by (simp add: i baseIndexForKey_def)
  have v: "valid_set h' = insert i (valid_set h)" unfolding h' by (rule valid_take_slot [OF il d shapeD(3) [OF sh]])
  have iv: "i \<notin> valid_set h" using free by (simp add: valid_set_def)
  have "placed hk h' (ky(i := k))" unfolding h' using c by (intro placed_take_slot [OF sh _ d i]) (simp add: copied_def)
  moreover have "shape h'" unfolding h' by (rule shape_take_slot [OF sh])
  moreover have "valid_set h' = snd ` set (cs @ [(src, i)])" using v c by (simp add: copied_def)
  moreover have "distinct (map snd (cs @ [(src, i)]))" using c iv by (simp add: copied_def)
  moreover have "\<forall>(s, j) \<in> set (cs @ [(src, i)]). (ky(i := k)) j = hkeys h' ! s"
    using c iv k unfolding copied_def h' by (auto simp: image_iff)
  ultimately show "copied hk h' (ky(i := k)) (cs @ [(src, i)])" unfolding copied_def by blast
  show "hkeys h' = hkeys h" "hcap h' = hcap h" by (simp_all add: h')
qed

lemma copy_loop_spec:
  "copied hk h ky cs \<Longrightarrow> \<forall>s \<in> set srcs. bds ! s \<noteq> 0 \<longrightarrow> s < length (hkeys h) \<Longrightarrow>
   \<exists>r h'. copy_loop hk bds srcs h cs = Some (r, h') \<and> hkeys h' = hkeys h \<and> hcap h' = hcap h \<and>
     (\<forall>cs'. r = Some cs' \<longrightarrow> map fst cs' = map fst cs @ filter (\<lambda>s. bds ! s \<noteq> 0) srcs \<and> (\<exists>ky'. copied hk h' ky' cs'))"
proof (induction srcs arbitrary: h ky cs)
  case Nil
  then show ?case by auto
next
  case (Cons src srcs)
  have sh: "shape h" using Cons.prems by (simp add: copied_def)
  show ?case
  proof (cases "bds ! src = 0")
    case True
    then show ?thesis using Cons.IH [OF Cons.prems(1)] Cons.prems(2) by simp
  next
    case False
    let ?k = "hkeys h ! src"
    have k: "slice_get (hkeys h) src = Some ?k" using Cons.prems(2) False by simp
    from searchFreeIndex_spec [OF sh, of "baseIndexForKey hk h ?k" "hk (seed h) ?k"]
    consider i d h1 where "searchFreeIndex h (baseIndexForKey hk h ?k) = Some (Some (i, d), h1)"
      | "searchFreeIndex h (baseIndexForKey hk h ?k) = Some (None, h)"
      by (auto simp: baseIndexForKey_def)
    then show ?thesis
    proof cases
      case 1
      note st = copied_step [OF Cons.prems(1) 1 refl]
      have "copy_loop hk bds (src # srcs) h cs = copy_loop hk bds srcs h1 (cs @ [(src, i)])"
        using False k 1 by simp
      then show ?thesis using Cons.IH [OF st(1)] Cons.prems(2) False st(2,3) by simp
    next
      case 2
      then show ?thesis using False k by simp
    qed
  qed
qed

lemma fold_copies:
  fixes f :: "nat \<Rightarrow> 'k" and ks :: "'k list" and cs :: "(nat \<times> nat) list"
  assumes "distinct (map snd cs)" "\<forall>(s, d) \<in> set cs. d < length ks"
  shows "length (fold (\<lambda>(src, dst) ks. ks[dst := f src]) cs ks) = length ks"
    and "(s, d) \<in> set cs \<Longrightarrow> fold (\<lambda>(src, dst) ks. ks[dst := f src]) cs ks ! d = f s"
proof -
  have l: "length (fold (\<lambda>(src, dst) ks. ks[dst := f src]) cs ks) = length ks" for cs :: "(nat \<times> nat) list" and ks :: "'k list"
    by (induction cs arbitrary: ks) auto
  then show "length (fold (\<lambda>(src, dst) ks. ks[dst := f src]) cs ks) = length ks" .
  have other: "d \<notin> snd ` set cs \<Longrightarrow> fold (\<lambda>(src, dst) ks. ks[dst := f src]) cs ks ! d = ks ! d" for d and cs :: "(nat \<times> nat) list" and ks :: "'k list"
    by (induction cs arbitrary: ks) auto
  show "(s, d) \<in> set cs \<Longrightarrow> fold (\<lambda>(src, dst) ks. ks[dst := f src]) cs ks ! d = f s"
    using assms
  proof (induction cs arbitrary: ks)
    case (Cons c cs)
    then show ?case by (cases "c = (s, d)") (auto simp: other)
  qed simp
qed

text \<open>What a table to be copied from must be: the keys of its valid indices are there and distinct.\<close>

definition source :: "'k Hash \<Rightarrow> bool" where
  "source h \<longleftrightarrow> (\<forall>i \<in> valid_set h. i < length (hkeys h)) \<and> inj_on ((!) (hkeys h)) (valid_set h)"

lemma hash_copy_spec:
  assumes src: "source h" and h1: "shape h1" "valid_set h1 = {}" "hkeys h1 = hkeys h"
  shows "\<exists>ok h'. hash_copy hk zero (bitDiffs h) h1 = Some (ok, h') \<and>
    (if ok then hinv hk h' \<and> stored h' = stored h else hkeys h' = hkeys h)"
proof -
  have "copied hk h1 (\<lambda>_. undefined) []" using h1 by (simp add: copied_def placed_def)
  moreover have "\<forall>s \<in> set [0..<length (bitDiffs h)]. bitDiffs h ! s \<noteq> 0 \<longrightarrow> s < length (hkeys h1)"
    using src h1(3) by (auto simp: source_def valid_set_def)
  ultimately obtain r h2 where r: "copy_loop hk (bitDiffs h) [0..<length (bitDiffs h)] h1 [] = Some (r, h2)"
    "hkeys h2 = hkeys h" "hcap h2 = hcap h1"
    "\<And>cs. r = Some cs \<Longrightarrow> map fst cs = filter (\<lambda>s. bitDiffs h ! s \<noteq> 0) [0..<length (bitDiffs h)] \<and> (\<exists>ky. copied hk h2 ky cs)"
    using copy_loop_spec [of hk h1 "\<lambda>_. undefined" "[]" "[0..<length (bitDiffs h)]" "bitDiffs h"] h1(3) by auto
  show ?thesis
  proof (cases r)
    case None
    then have "hash_copy hk zero (bitDiffs h) h1 = Some (False, h2)" using r(1) by (simp add: hash_copy_def)
    then show ?thesis using r(2) by (intro exI [of _ False] exI [of _ h2]) simp
  next
    case (Some cs)
    obtain ky where ky: "copied hk h2 ky cs" and fs: "map fst cs = filter (\<lambda>s. bitDiffs h ! s \<noteq> 0) [0..<length (bitDiffs h)]"
      using r(4) [OF Some] by blast
    define h3 where "h3 = (HashResize zero h2 cs)\<lparr>nElts := length cs\<rparr>"
    have e: "hash_copy hk zero (bitDiffs h) h1 = Some (True, h3)" using r(1) Some by (simp add: hash_copy_def h3_def)
    have c: "shape h2" "placed hk h2 ky" "valid_set h2 = snd ` set cs" "distinct (map snd cs)"
      "\<forall>(s, d) \<in> set cs. ky d = hkeys h ! s" using ky r(2) by (simp_all add: copied_def)
    have len: "unat (hcap h2) = length (bitDiffs h2)" using shapeD(1) [OF c(1)] by simp
    have small: "\<forall>(s, d) \<in> set cs. d < length (replicate (unat (hcap h2)) zero)"
    proof (intro ballI, clarify)
      fix s d
      assume "(s, d) \<in> set cs"
      then have "d \<in> valid_set h2" unfolding c(3) by force
      then show "d < length (replicate (unat (hcap h2)) zero)" using len by (simp add: valid_set_def)
    qed
    note fc = fold_copies [OF c(4) small]
    have hk3: "hkeys h3 = fold (\<lambda>(src, dst) ks. ks[dst := hkeys h ! src]) cs (replicate (unat (hcap h2)) zero)"
      by (simp add: h3_def HashResize_def r(2))
    have same: "bitDiffs h3 = bitDiffs h2" "maxBucketBitDiffs h3 = maxBucketBitDiffs h2" "hcap h3 = hcap h2"
      "log2EltsPerBucket h3 = log2EltsPerBucket h2" "baseIndex h3 = baseIndex h2" "baseIndexForKey hk h3 = baseIndexForKey hk h2"
      "valid_set h3 = valid_set h2" "nElts h3 = length cs"
      by (simp_all add: h3_def HashResize_def fun_eq_iff baseIndexForKey_def baseIndex_def capMask_def valid_set_def)
    have key: "hkeys h3 ! d = hkeys h ! s" if "(s, d) \<in> set cs" for s d unfolding hk3 by (rule fc(2) [OF that])
    have fst: "fst ` set cs = valid_set h" "distinct (map fst cs)"
      unfolding fs using arg_cong [OF fs, of set] by (auto simp: valid_set_def)
    have "shape h3" using c(1) unfolding shape_def Let_def same .
    moreover have "placed hk h2 ((!) (hkeys h3))"
      using c(2) by (subst placed_cong [where ky' = ky]) (use c(3,5) key in auto)
    then have "placed hk h3 ((!) (hkeys h3))" unfolding placed_def same .
    moreover have "inj_on ((!) (hkeys h3)) (valid_set h3)"
    proof (rule inj_onI)
      fix x y
      assume xy: "x \<in> valid_set h3" "y \<in> valid_set h3" "hkeys h3 ! x = hkeys h3 ! y"
      then obtain s t where st: "(s, x) \<in> set cs" "(t, y) \<in> set cs" unfolding same c(3) by auto
      then have "s \<in> valid_set h" "t \<in> valid_set h" using fst(1) by force+
      moreover have "hkeys h ! s = hkeys h ! t" using key [OF st(1)] key [OF st(2)] xy(3) by simp
      ultimately have "s = t" using src by (auto simp: source_def dest: inj_onD)
      then show "x = y" using st fst(2) by (metis eq_key_imp_eq_value)
    qed
    moreover have "nElts h3 = card (valid_set h3)"
      unfolding same c(3) using c(4) by (metis distinct_card length_map set_map)
    moreover have "length (hkeys h3) = length (bitDiffs h3)" using fc(1) len unfolding hk3 same by simp
    ultimately have "hinv hk h3" by (simp add: hinv_def)
    moreover have "stored h3 = stored h"
    proof -
      have "stored h3 = (\<lambda>(s, d). hkeys h3 ! d) ` set cs" unfolding stored_def same c(3) by force
      also have "\<dots> = (\<lambda>(s, d). hkeys h ! s) ` set cs" by (rule image_cong) (auto simp: key)
      also have "\<dots> = stored h" unfolding stored_def fst(1) [symmetric] by force
      finally show ?thesis .
    qed
    ultimately show ?thesis using e by auto
  qed
qed

lemma grow_loop_spec:
  assumes "source h" "\<forall>c. cap_ok (nu c)"
  shows "hkeys h1 = hkeys h \<Longrightarrow> grow_loop n hk rnd nu zero (bitDiffs h) h1 = Some h' \<Longrightarrow> hinv hk h' \<and> stored h' = stored h"
proof (induction n arbitrary: h1)
  case (Suc n)
  let ?g = "hash_grow rnd nu h1"
  have g: "shape ?g" "valid_set ?g = {}" "hkeys ?g = hkeys h"
    using hash_alloc_shape [of "h1\<lparr>hcap := nu (hcap h1)\<rparr>" rnd] assms(2) Suc.prems(1) by (simp_all add: hash_grow_def)
  obtain ok h2 where h2: "hash_copy hk zero (bitDiffs h) ?g = Some (ok, h2)"
    "if ok then hinv hk h2 \<and> stored h2 = stored h else hkeys h2 = hkeys h"
    using hash_copy_spec [OF assms(1) g] by blast
  show ?case
  proof (cases ok)
    case True
    then show ?thesis using h2 Suc.prems(2) by simp
  next
    case False
    then show ?thesis using h2 Suc.prems(2) Suc.IH [of h2] by simp
  qed
qed simp

subsection \<open>Set\<close>

lemma source_hinv: "hinv hk h \<Longrightarrow> source h"
  by (auto simp: hinv_def source_def valid_set_def)

lemma source_empty: "hash_empty h \<Longrightarrow> source h" "hash_empty h \<Longrightarrow> stored h = {}"
  by (simp_all add: hash_empty_def source_def stored_def valid_set_def)

text \<open>What a client sees of a \<open>Set\<close> followed by its store.\<close>

definition set_done :: "(HashState \<Rightarrow> 'k \<Rightarrow> HashState) \<Rightarrow> 'k set \<Rightarrow> 'k \<Rightarrow> nat \<times> bool \<times> 'k Hash \<Rightarrow> bool" where
  "set_done hk ks k r = (case r of (i, ex, h) \<Rightarrow> let h' = h\<lparr>hkeys := (hkeys h)[i := k]\<rparr> in
     i < length (hkeys h) \<and> ex = (k \<in> ks) \<and> hinv hk h' \<and> stored h' = insert k ks \<and> i \<in> valid_set h' \<and> hkeys h' ! i = k)"

lemma set_found:
  assumes "hinv hk h" "i \<in> valid_set h" "hkeys h ! i = k"
  shows "set_loop (Suc n) hk rnd nu zero True h k = Some (i, True, h)" "set_done hk (stored h) k (i, True, h)"
proof -
  show "set_loop (Suc n) hk rnd nu zero True h k = Some (i, True, h)"
    using searchKey_spec(1) [OF assms] by simp
  have "i < length (hkeys h)" using assms(1,2) by (simp add: hinv_def valid_set_def)
  moreover have "k \<in> stored h" using assms(2,3) by (auto simp: stored_def)
  moreover have "h\<lparr>hkeys := (hkeys h)[i := k]\<rparr> = h" using assms(3) list_update_id [of "hkeys h" i] by simp
  ultimately show "set_done hk (stored h) k (i, True, h)" using assms by (simp add: set_done_def insert_absorb)
qed

lemma set_free:
  assumes h: "hinv hk h" and k: "k \<notin> stored h"
    and r: "searchFreeIndex h (baseIndexForKey hk h k) = Some (Some (i, d), h1)"
  shows "set_loop (Suc n) hk rnd nu zero True h k = Some (i, False, h1\<lparr>nElts := nElts h1 + 1\<rparr>)"
    "set_done hk (stored h) k (i, False, h1\<lparr>nElts := nElts h1 + 1\<rparr>)"
proof -
  have sh: "shape h" using h by (simp add: hinv_def)
  from searchFreeIndex_spec [OF sh, of "baseIndexForKey hk h k" "hk (seed h) k"] r
  have d: "d < 2 ^ log2EltsPerBucket h" and i: "i = unat (baseIndexForKey hk h k XOR of_nat d)" and free: "bitDiffs h ! i = 0"
    and h1: "h1 = take_slot h i d"
    by (auto simp: baseIndexForKey_def)
  have b1: "baseIndexForKey hk h k = baseIndex h1 (hk (seed h) k)" by (simp add: h1 baseIndexForKey_def)
  have "bd_set h1 i (baseIndexForKey hk h k) d = Some (take_slot h1 i d)"
    using shape_take_slot [OF sh] b1 d i by (intro bd_set_take) (simp_all add: h1)
  then have "bd_set h1 i (baseIndexForKey hk h k) d = Some h1" by (simp add: h1 take_slot_twice)
  then show "set_loop (Suc n) hk rnd nu zero True h k = Some (i, False, h1\<lparr>nElts := nElts h1 + 1\<rparr>)"
    using searchKey_spec(2) [OF h k] r i by (simp add: Let_def)
  note ins = insert_slot [OF h k d i free]
  have "(h1\<lparr>nElts := nElts h1 + 1\<rparr>)\<lparr>hkeys := (hkeys h1)[i := k]\<rparr> =
      (take_slot h i d)\<lparr>nElts := nElts h + 1, hkeys := (hkeys h)[i := k]\<rparr>" by (simp add: h1)
  then show "set_done hk (stored h) k (i, False, h1\<lparr>nElts := nElts h1 + 1\<rparr>)"
    using ins k by (simp add: set_done_def Let_def h1)
qed

lemma set_loop_spec:
  assumes "\<forall>c. cap_ok (nu c)"
  shows "if ne then hinv hk h else hash_empty h \<Longrightarrow> set_loop n hk rnd nu zero ne h k = Some r \<Longrightarrow> set_done hk (stored h) k r"
proof (induction n arbitrary: ne h)
  case (Suc n)
  have src: "source h" using Suc.prems(1) source_hinv source_empty by (cases ne) auto
  have grow: "set_done hk (stored h) k r" if g: "grow_loop n hk rnd nu zero (bitDiffs h) h = Some h2"
    "set_loop n hk rnd nu zero True h2 k = Some r" for h2
    using Suc.IH [of True h2] grow_loop_spec [OF src assms refl g(1)] g(2) by simp
  show ?case
  proof (cases ne)
    case False
    then show ?thesis using Suc.prems(2) grow by (auto split: Option.bind_splits)
  next
    case True
    then have h: "hinv hk h" using Suc.prems(1) by simp
    show ?thesis
    proof (cases "k \<in> stored h")
      case stored: True
      then obtain i where i: "i \<in> valid_set h" "hkeys h ! i = k" by (auto simp: stored_def)
      then show ?thesis using set_found [OF h i] Suc.prems(2) True by simp
    next
      case k: False
      have "shape h" using h by (simp add: hinv_def)
      from searchFreeIndex_spec [OF this, of "baseIndexForKey hk h k" "hk (seed h) k"]
      consider i d h1 where "searchFreeIndex h (baseIndexForKey hk h k) = Some (Some (i, d), h1)"
        | "searchFreeIndex h (baseIndexForKey hk h k) = Some (None, h)" by (auto simp: baseIndexForKey_def)
      then show ?thesis
      proof cases
        case 1
        then show ?thesis using set_free [OF h k 1] Suc.prems(2) True by simp
      next
        case 2
        then show ?thesis using Suc.prems(2) True grow searchKey_spec(2) [OF h k] by (auto split: Option.bind_splits)
      qed
    qed
  qed
qed simp

text \<open>Room for a key: it is there, or its bucket has a free slot.\<close>

definition has_room :: "(HashState \<Rightarrow> 'k \<Rightarrow> HashState) \<Rightarrow> 'k Hash \<Rightarrow> 'k \<Rightarrow> bool" where
  "has_room hk h k \<longleftrightarrow> k \<in> stored h \<or>
     (\<exists>d < 2 ^ log2EltsPerBucket h. bitDiffs h ! unat (baseIndexForKey hk h k XOR of_nat d) = 0)"

lemma hash_insert_done:
  assumes "hash_Set n hk rnd nu zero h k = Some r" "set_done hk ks k r"
  shows "\<exists>i ex h'. hash_insert n hk rnd nu zero h k = Some (i, ex, h') \<and> ex = (k \<in> ks) \<and> hinv hk h' \<and>
     stored h' = insert k ks \<and> i \<in> valid_set h' \<and> hkeys h' ! i = k"
  using assms by (cases r) (auto simp: hash_insert_def set_done_def Let_def)

lemma hash_insert_room:
  assumes "hinv hk h" "has_room hk h k"
  shows "\<exists>i ex h'. hash_insert (Suc n) hk rnd nu zero h k = Some (i, ex, h') \<and> ex = (k \<in> stored h) \<and> hinv hk h' \<and>
    stored h' = insert k (stored h) \<and> hash_Get hk h' k = Some (Some i)"
proof -
  have sh: "shape h" using assms(1) by (simp add: hinv_def)
  have ne: "\<not> hash_empty h" using shapeD(5) [OF sh] by (simp add: hash_empty_def)
  have "\<exists>r. set_loop (Suc n) hk rnd nu zero True h k = Some r \<and> set_done hk (stored h) k r"
  proof (cases "k \<in> stored h")
    case True
    then obtain i where i: "i \<in> valid_set h" "hkeys h ! i = k" by (auto simp: stored_def)
    show ?thesis using set_found [OF assms(1) i] by blast
  next
    case False
    then obtain d where "d < 2 ^ log2EltsPerBucket h" "bitDiffs h ! unat (baseIndexForKey hk h k XOR of_nat d) = 0"
      using assms(2) by (auto simp: has_room_def)
    then obtain i e h1 where "searchFreeIndex h (baseIndexForKey hk h k) = Some (Some (i, e), h1)"
      using searchFreeIndex_spec [OF sh, of "baseIndexForKey hk h k" "hk (seed h) k"] by (auto simp: baseIndexForKey_def)
    from set_free [OF assms(1) False this] show ?thesis by blast
  qed
  then obtain r where "hash_Set (Suc n) hk rnd nu zero h k = Some r" "set_done hk (stored h) k r"
    using ne by (auto simp: hash_Set_def simp del: set_loop.simps)
  from hash_insert_done [OF this] obtain i ex h' where i: "hash_insert (Suc n) hk rnd nu zero h k = Some (i, ex, h')"
    "ex = (k \<in> stored h)" "hinv hk h'" "stored h' = insert k (stored h)" "i \<in> valid_set h'" "hkeys h' ! i = k" by blast
  moreover have "hash_Get hk h' k = Some (Some i)" using hash_Get_spec [OF i(3), of k] i(5,6) by auto
  ultimately show ?thesis by blast
qed

text \<open>A new table of 16 slots.\<close>

definition sample_hash :: "HashState \<Rightarrow> nat \<Rightarrow> HashState" where
  "sample_hash s k = HashUint64 s (of_nat k) 0 0 0"

definition sample_table :: "nat Hash" where
  "sample_table = hash_Init (\<lambda>n. of_nat n) 0 16 \<lparr>seed = (0, 0), hcap = 0, log2Cap0 = 0, log2Cap1 = 0, log2EltsPerBucket = 0,
     limit0 = 0, bitDiffs = [], maxBucketBitDiffs = [], nElts = 0, hkeys = [], drawn = 0\<rparr>"

lemma Init_inv:
  assumes "cap_ok (Cap_Round c 3)"
  shows "hinv hk (hash_Init rnd zero c h)" "stored (hash_Init rnd zero c h) = {}"
proof -
  let ?a = "hash_alloc rnd (h\<lparr>hcap := Cap_Round c 3\<rparr>)" and ?h = "hash_Init rnd zero c h"
  note a = hash_alloc_shape [of "h\<lparr>hcap := Cap_Round c 3\<rparr>" rnd, simplified, OF assms]
  have same: "bitDiffs ?h = bitDiffs ?a" "maxBucketBitDiffs ?h = maxBucketBitDiffs ?a" "hcap ?h = hcap ?a"
    "log2EltsPerBucket ?h = log2EltsPerBucket ?a" "baseIndex ?h = baseIndex ?a" "valid_set ?h = valid_set ?a" "nElts ?h = nElts ?a"
    by (simp_all add: hash_Init_def HashResize_def fun_eq_iff baseIndex_def capMask_def valid_set_def)
  have "shape ?h" using a(1) unfolding shape_def Let_def same .
  moreover have "length (hkeys ?h) = length (bitDiffs ?h)"
    using shapeD(1) [OF a(1)] unfolding same by (simp add: hash_Init_def HashResize_def)
  moreover have "nElts ?a = 0" by (simp add: hash_alloc_def Let_def split: prod.splits)
  moreover have e: "valid_set ?h = {}" unfolding same by (rule a(2))
  ultimately show "hinv hk ?h" by (simp add: hinv_def placed_def same(7))
  show "stored ?h = {}" using e by (simp add: stored_def)
qed

lemma sample_table_inv: "hinv sample_hash sample_table" "stored sample_table = {}" "has_room sample_hash sample_table k"
proof -
  have c: "Cap_Round 16 3 = 16" by (simp add: Cap_Round_def Let_def push_bit_of_1)
  have "cap_ok 16" unfolding cap_ok_def by (intro exI [of _ 4]) (simp add: push_bit_of_1)
  then show h: "hinv sample_hash sample_table" and s: "stored sample_table = {}"
    unfolding sample_table_def by (intro Init_inv, simp add: c)+
  have sh: "shape sample_table" using h by (simp add: hinv_def)
  have "unat (baseIndexForKey sample_hash sample_table k XOR of_nat 0) < length (bitDiffs sample_table)"
    unfolding baseIndexForKey_def by (rule bucket_index(1) [OF sh]) simp
  moreover have "valid_set sample_table = {}" using s by (simp add: stored_def)
  ultimately show "has_room sample_hash sample_table k"
    unfolding has_room_def by (intro disjI2 exI [of _ 0]) (auto simp: valid_set_def)
qed

subsection \<open>Properties\<close>

text \<open>C12: In a well-formed table \<open>Get\<close> never panics and finds exactly the index that holds the key: the
  search bounds and the early stop at the bucket's largest difference lose nothing.\<close>

theorem hash_Get_exact:
  assumes "hinv hk h"
  shows "\<exists>r. hash_Get hk h k = Some r \<and> (\<forall>i. r = Some i \<longleftrightarrow> i \<in> valid_set h \<and> hkeys h ! i = k)"
  by (rule hash_Get_spec [OF assms])

lemma hash_Get_exact_witness: "hash_Get sample_hash sample_table 5 = Some None"
  using hash_Get_exact [OF sample_table_inv(1), of 5] sample_table_inv(2) by (auto simp: stored_def)



text \<open>Where the key is there or its bucket has room, \<open>Set\<close> needs no growth: one round is enough fuel.\<close>

theorem hash_insert_returns:
  assumes "hinv hk h" "has_room hk h k"
  shows "\<exists>i ex h'. hash_insert (Suc n) hk rnd nu zero h k = Some (i, ex, h') \<and> ex = (k \<in> stored h) \<and> hinv hk h' \<and>
    stored h' = insert k (stored h) \<and> hash_Get hk h' k = Some (Some i)"
  by (rule hash_insert_room [OF assms])

lemma hash_insert_returns_witness:
  "\<exists>i h. hash_insert 1 sample_hash (\<lambda>n. of_nat n) (\<lambda>_. 16) 0 sample_table 5 = Some (i, False, h) \<and> stored h = {5} \<and>
     hash_Get sample_hash h 5 = Some (Some i)"
  using hash_insert_returns [OF sample_table_inv(1,3), of 0 "\<lambda>n. of_nat n" "\<lambda>_. 16" 0 5] sample_table_inv(2) by auto

text \<open>C14: \<open>Unset\<close> removes exactly the key and frees its index; no other key moves.\<close>

theorem hash_Unset_exact:
  assumes "hinv hk h"
  shows "\<exists>r h'. hash_Unset hk h k = Some (r, h') \<and> hinv hk h' \<and> stored h' = stored h - {k} \<and> hkeys h' = hkeys h \<and>
    valid_set h' = valid_set h - {i. hkeys h ! i = k} \<and> (r = None \<longleftrightarrow> k \<notin> stored h)"
proof (cases "k \<in> stored h")
  case True
  then obtain i h' where "hash_Unset hk h k = Some (Some i, h')" "i \<in> valid_set h" "hkeys h ! i = k"
    "hinv hk h'" "stored h' = stored h - {k}" "valid_set h' = valid_set h - {i}"
    using hash_Unset_spec(2) [OF assms] by blast
  moreover have "valid_set h - {i} = valid_set h - {i. hkeys h ! i = k}"
    using assms \<open>i \<in> valid_set h\<close> \<open>hkeys h ! i = k\<close> by (auto simp: hinv_def dest: inj_onD)
  moreover have "hkeys h' = hkeys h" using \<open>hash_Unset hk h k = Some (Some i, h')\<close>
    by (auto simp: hash_Unset_def Let_def split: Option.bind_splits option.splits)
  ultimately show ?thesis using True by auto
next
  case False
  then show ?thesis using hash_Unset_spec(1) [OF assms False] assms by (auto simp: stored_def)
qed

lemma hash_Unset_exact_witness: "\<exists>h. hash_Unset sample_hash sample_table 5 = Some (None, h) \<and> stored h = {}"
  using hash_Unset_exact [OF sample_table_inv(1), of 5] sample_table_inv(2) by auto

text \<open>\<open>NextIndex\<close> from the start, \<open>^uint(0)\<close>, skips the first valid index.\<close>

lemma NextIndex_skips_first:
  assumes "hash_ForeachIndex h = i # is"
  shows "NextIndex h None = (case is of [] \<Rightarrow> None | j # _ \<Rightarrow> Some j)"
  using assms by (simp add: NextIndex_def nextValidIndex_def hash_ForeachIndex_def split: list.splits)

end
