(* ===== verification/Ip4_Prefix.thy ===== *)
theory Ip4_Prefix
  imports Bits
begin

section \<open>Addresses, prefixes and the map FIB: vnet/byte_order*.go, vnet/ip4/packet.go, vnet/ip4/fib.go\<close>

text \<open>
  An IPv4 address is an array of four bytes; \<open>AsUint32\<close> reads it as the little-endian
  machine does, so a \<open>vnet.Uint32\<close> holds network byte order and \<open>ToHost\<close> swaps it. The map
  FIB is an array of 33 maps, one per prefix length (a nil map is \<open>None\<close>), keyed by the
  masked address; a route is an adjacency index and the next hops that resolve through it.
  An array index out of range is a panic, \<open>None\<close>.
\<close>

subsection \<open>Byte order\<close>

definition swap16 :: "u16 \<Rightarrow> u16" where
  "swap16 x = push_bit 8 x OR drop_bit 8 x"

definition swap32 :: "u32 \<Rightarrow> u32" where
  "swap32 x = (
     let c8 = 0x00ff00ff; a = drop_bit 8 x AND c8; b = push_bit 8 (x AND c8); x = a OR b;
         c16 = 0x0000ffff; a = drop_bit 16 x AND c16; b = push_bit 16 (x AND c16)
     in a OR b)"

text \<open>The loop of \<open>ByteAdd\<close> from the last byte down; \<open>y\<close> is a 64-bit value.\<close>

fun ByteAdd_rev :: "u8 list \<Rightarrow> u64 \<Rightarrow> u8 list" where
  "ByteAdd_rev [] x = []"
| "ByteAdd_rev (a # as) x =
     (if x \<noteq> 0
      then let ai = ucast a; y = ai + (x AND 0xff); x' = drop_bit 8 x
           in ucast y # ByteAdd_rev as (if y < ai then x' + 1 else x')
      else a # as)"

definition ByteAdd :: "u8 list \<Rightarrow> u64 \<Rightarrow> u8 list" where
  "ByteAdd a x = rev (ByteAdd_rev (rev a) x)"

subsection \<open>Addresses and prefixes\<close>

type_synonym Address = "u8 list"
type_synonym Adj = u32
type_synonym FibIndex = u32

definition AsUint32 :: "Address \<Rightarrow> u32" where
  "AsUint32 a = ucast (a ! 0) OR push_bit 8 (ucast (a ! 1)) OR
     push_bit 16 (ucast (a ! 2)) OR push_bit 24 (ucast (a ! 3))"

definition FromUint32 :: "u32 \<Rightarrow> Address" where
  "FromUint32 x = [ucast x, ucast (drop_bit 8 x), ucast (drop_bit 16 x), ucast (drop_bit 24 x)]"

definition AddressUint32 :: "u32 \<Rightarrow> Address" where
  "AddressUint32 x = ByteAdd [0, 0, 0, 0] (ucast x)"

record Prefix =
  Address :: Address
  Len :: u32

text \<open>\<open>masks[l]\<close>, for \<open>l\<close> up to 32, as \<open>compute_masks\<close> fills it.\<close>

definition AddressMaskForLen :: "nat \<Rightarrow> Address option" where
  "AddressMaskForLen l = (if l < 33
     then let mask = (if l > 0 then push_bit (32 - l) (push_bit l 1 - 1) else 0)
          in Some (FromUint32 (swap32 mask))
     else None)"

definition MaskLen :: "Address \<Rightarrow> u64 \<times> bool" where
  "MaskLen a = (let m = NOT (swap32 (AsUint32 a)) in
     if (m + 1) AND m = 0
     then (if m \<noteq> 0 then 32 - (1 + MinLog2 (ucast m)) else 32, True)
     else (NOT 0, False))"

definition netMask :: "nat \<Rightarrow> u32" where
  "netMask i = (if i < 33
     then swap32 (if i < 32 then push_bit (32 - i) (push_bit i 1 - 1) else NOT 0)
     else 0)"

definition Mask :: "Prefix \<Rightarrow> u32" where
  "Mask p = netMask (unat (Len p))"

definition mapFibKey :: "Prefix \<Rightarrow> u32" where
  "mapFibKey p = AsUint32 (Address p) AND Mask p"

definition Address_Mask :: "Address \<Rightarrow> nat \<Rightarrow> Address" where
  "Address_Mask a l = FromUint32 (AsUint32 a AND netMask l)"

definition MatchesPrefix :: "Address \<Rightarrow> Prefix \<Rightarrow> bool" where
  "MatchesPrefix dst p \<longleftrightarrow> 0 = (AsUint32 dst XOR AsUint32 (Address p)) AND Mask p"

definition Prefix_IsEqual :: "Prefix \<Rightarrow> Prefix \<Rightarrow> bool" where
  "Prefix_IsEqual p q \<longleftrightarrow> Len p = Len q \<and> AsUint32 (Address p) = AsUint32 (Address q)"

definition Address_Diff :: "Address \<Rightarrow> Address \<Rightarrow> int" where
  "Address_Diff a b = (let cmp = int (unat (swap32 (AsUint32 a))) - int (unat (swap32 (AsUint32 b)))
     in if cmp \<noteq> 0 then (if cmp < 0 then -1 else 1) else 0)"

definition LessThan :: "Prefix \<Rightarrow> Prefix \<Rightarrow> bool" where
  "LessThan p q = (let cmp = Address_Diff (Address p) (Address q)
     in if cmp \<noteq> 0 then cmp < 0 else Len p < Len q)"

definition Prefix_Add :: "Prefix \<Rightarrow> u64 \<Rightarrow> Prefix" where
  "Prefix_Add p offset = (
     let a = swap32 (AsUint32 (Address p)) + ucast (push_bit (unat (32 - Len p)) offset)
     in p\<lparr>Address := FromUint32 (swap32 a)\<rparr>)"

subsection \<open>The map FIB\<close>

record idst =
  id_a :: Address
  id_i :: FibIndex

record ipre =
  ip_p :: Prefix
  ip_i :: FibIndex

record 'h mapFibResult =
  adj :: Adj
  nh :: "(idst, (ipre, 'h) fmap) fmap"

type_synonym 'h MapFib = "(u32, 'h mapFibResult) fmap option list"

definition AdjMiss :: Adj where "AdjMiss = 0"
definition AdjNil :: Adj where "AdjNil = NOT 0 - 1"

definition zeroResult :: "'h mapFibResult" where
  "zeroResult = \<lparr>adj = 0, nh = fmempty\<rparr>"

text \<open>A read of a nil map finds nothing.\<close>

definition map_get :: "(u32, 'a) fmap option \<Rightarrow> u32 \<Rightarrow> 'a option" where
  "map_get mo k = (case mo of None \<Rightarrow> None | Some m \<Rightarrow> fmlookup m k)"

definition validateLen :: "'h MapFib \<Rightarrow> nat \<Rightarrow> 'h MapFib option" where
  "validateLen m l = do {
     ml \<leftarrow> slice_get m l;
     (if ml = None then slice_set m l (Some fmempty) else Some m) }"

definition MapFib_Set :: "'h MapFib \<Rightarrow> Prefix \<Rightarrow> Adj \<Rightarrow> ('h MapFib \<times> Adj \<times> bool) option" where
  "MapFib_Set m p newAdj = do {
     let l = unat (Len p);
     m \<leftarrow> validateLen m l;
     let k = mapFibKey p;
     ml \<leftarrow> slice_get m l;
     let (r, oldAdj) = (case map_get ml k of
           None \<Rightarrow> (zeroResult, AdjNil)
         | Some r \<Rightarrow> (r, adj r));
     m \<leftarrow> slice_set m l (map_option (fmupd k (r\<lparr>adj := newAdj\<rparr>)) ml);
     Some (m, oldAdj, True) }"

definition MapFib_Unset :: "'h MapFib \<Rightarrow> Prefix \<Rightarrow> ('h MapFib \<times> Adj \<times> bool) option" where
  "MapFib_Unset m p = do {
     let k = mapFibKey p;
     ml \<leftarrow> slice_get m (unat (Len p));
     (case map_get ml k of
        Some r \<Rightarrow> do {
          m \<leftarrow> slice_set m (unat (Len p)) (map_option (fmdrop k) ml);
          Some (m, adj r, True) }
      | None \<Rightarrow> Some (m, AdjNil, False)) }"

definition MapFib_Get :: "'h MapFib \<Rightarrow> Prefix \<Rightarrow> ('h mapFibResult \<times> bool) option" where
  "MapFib_Get m p = do {
     ml \<leftarrow> slice_get m (unat (Len p));
     Some (case map_get ml (mapFibKey p) of None \<Rightarrow> (zeroResult, False) | Some r \<Rightarrow> (r, True)) }"

text \<open>The loop of \<open>Lookup\<close>: from length \<open>l\<close> down to 0.\<close>

fun Lookup_loop :: "'h MapFib \<Rightarrow> Address \<Rightarrow> nat \<Rightarrow> ('h mapFibResult \<times> Prefix \<times> bool) option" where
  "Lookup_loop m a l = do {
     ml \<leftarrow> slice_get m l;
     let p = \<lparr>Address = a, Len = of_nat l\<rparr>;
     let k = mapFibKey p;
     (case map_get ml k of
        Some r \<Rightarrow> Some (r, p\<lparr>Address := FromUint32 k\<rparr>, True)
      | None \<Rightarrow> (case l of
          0 \<Rightarrow> Some (\<lparr>adj = AdjMiss, nh = fmempty\<rparr>, \<lparr>Address = [0, 0, 0, 0], Len = 0\<rparr>, False)
        | Suc l' \<Rightarrow> Lookup_loop m a l')) }"

declare Lookup_loop.simps [simp del]

definition MapFib_Lookup :: "'h MapFib \<Rightarrow> Address \<Rightarrow> ('h mapFibResult \<times> Prefix \<times> bool) option" where
  "MapFib_Lookup m a = Lookup_loop m a 32"

text \<open>The more specific prefixes of a key that have a route, in the order they are visited.\<close>

definition foreachMatchingPrefix :: "'h MapFib \<Rightarrow> Prefix \<Rightarrow> (Prefix \<times> 'h mapFibResult) list option" where
  "foreachMatchingPrefix m key =
     (if length m < 33 \<and> unat (Len key) < 32 then None
      else Some (List.map_filter (\<lambda>l. let p = \<lparr>Address = Address key, Len = of_nat l\<rparr>
             in map_option (Pair p) (map_get (m ! l) (mapFibKey p)))
           [Suc (unat (Len key))..<33]))"

fun getLessSpecific_loop :: "'h MapFib \<Rightarrow> Address \<Rightarrow> nat \<Rightarrow> ('h mapFibResult \<times> Prefix \<times> bool) option" where
  "getLessSpecific_loop m a l =
     (if l \<ge> 1
      then do {
        ml \<leftarrow> slice_get m l;
        let p = \<lparr>Address = a, Len = of_nat l\<rparr>;
        (case map_get ml (mapFibKey p) of
           Some r \<Rightarrow> Some (r, p, True)
         | None \<Rightarrow> getLessSpecific_loop m a (l - 1)) }
      else Some (zeroResult, \<lparr>Address = a, Len = 0\<rparr>, False))"

declare getLessSpecific_loop.simps [simp del]

definition getLessSpecific :: "'h MapFib \<Rightarrow> Prefix \<Rightarrow> ('h mapFibResult \<times> Prefix \<times> bool) option" where
  "getLessSpecific m p = getLessSpecific_loop m (Address p) (unat (Len p) - 1)"

definition MapFib_reset :: "'h MapFib \<Rightarrow> 'h MapFib" where
  "MapFib_reset m = replicate (length m) None"

text \<open>\<open>clean\<close> drops the next hops of FIB \<open>fi\<close>, and the destinations left without any.\<close>

definition clean_result :: "FibIndex \<Rightarrow> 'h mapFibResult \<Rightarrow> 'h mapFibResult" where
  "clean_result fi r = r\<lparr>nh := fmfilter
     (\<lambda>dst. case fmlookup (nh r) dst of
        None \<Rightarrow> False
      | Some dstMap \<Rightarrow> fmfilter (\<lambda>dp. ip_i dp \<noteq> fi) dstMap \<noteq> fmempty)
     (fmmap (fmfilter (\<lambda>dp. ip_i dp \<noteq> fi)) (nh r))\<rparr>"

definition MapFib_clean :: "FibIndex \<Rightarrow> 'h MapFib \<Rightarrow> 'h MapFib" where
  "MapFib_clean fi m = map (map_option (fmmap (clean_result fi))) m"

subsection \<open>Byte order and masks, bit by bit\<close>

lemma u32_eqI: "(\<And>n. n < 32 \<Longrightarrow> bit x n = bit (y :: u32) n) \<Longrightarrow> x = y"
  by (rule bit_word_eqI) simp
lemma word32_beyond: "bit (x :: u32) n \<Longrightarrow> n < 32"
  by (drule bit_imp_le_length) simp
lemma word8_beyond: "bit (x :: u8) n \<Longrightarrow> n < 8"
  by (drule bit_imp_le_length) simp

lemma byte_beyond [simp]: "8 \<le> n \<Longrightarrow> \<not> bit (x :: u8) n"
  by (auto dest: word8_beyond)

lemma byte_index:
  assumes "n < 32"
  obtains r where "r < (8::nat)" "n = r \<or> n = 8 + r \<or> n = 16 + r \<or> n = 24 + r"
proof (rule that)
  show "n mod 8 < 8" by simp
  have "n div 8 < 4" using assms by (intro less_mult_imp_div_less) simp
  then have "n div 8 = 0 \<or> n div 8 = 1 \<or> n div 8 = 2 \<or> n div 8 = 3" by linarith
  then show "n = n mod 8 \<or> n = 8 + n mod 8 \<or> n = 16 + n mod 8 \<or> n = 24 + n mod 8"
    using mult_div_mod_eq [of 8 n] by linarith
qed

lemma swap_masks:
  "(0x00ff00ff :: u32) = mask 8 OR push_bit 16 (mask 8)" "(0x0000ffff :: u32) = mask 16"
  by (simp_all add: mask_numeral)

lemma c8_bit: "bit (0x00ff00ff :: u32) n \<longleftrightarrow> n < 8 \<or> 16 \<le> n \<and> n < 24"
  unfolding swap_masks by (auto simp: bit_simps)

lemma c16_bit: "bit (0x0000ffff :: u32) n \<longleftrightarrow> n < 16"
  unfolding swap_masks by (auto simp: bit_simps)

lemma swap32_masks:
  "swap32 x = drop_bit 16 (drop_bit 8 x AND (mask 8 OR push_bit 16 (mask 8)) OR
       push_bit 8 (x AND (mask 8 OR push_bit 16 (mask 8)))) AND mask 16 OR
     push_bit 16 ((drop_bit 8 x AND (mask 8 OR push_bit 16 (mask 8)) OR
       push_bit 8 (x AND (mask 8 OR push_bit 16 (mask 8)))) AND mask 16)"
  unfolding swap32_def Let_def swap_masks ..

lemma bits_swap32:
  assumes "r < 8"
  shows "bit (swap32 x) r = bit x (24 + r)" "bit (swap32 x) (8 + r) = bit x (16 + r)"
    "bit (swap32 x) (16 + r) = bit x (8 + r)" "bit (swap32 x) (24 + r) = bit x r"
  unfolding swap32_masks using assms by (auto simp add: bit_simps dest: word32_beyond)

lemma bits_AsUint32:
  assumes "r < 8"
  shows "bit (AsUint32 a) r = bit (a ! 0) r" "bit (AsUint32 a) (8 + r) = bit (a ! 1) r"
    "bit (AsUint32 a) (16 + r) = bit (a ! 2) r" "bit (AsUint32 a) (24 + r) = bit (a ! 3) r"
  unfolding AsUint32_def using assms by (auto simp add: bit_simps dest: word8_beyond)

lemma u32_eq_bytesI:
  assumes "\<And>r. r < 8 \<Longrightarrow> bit x r = bit y r \<and> bit x (8 + r) = bit y (8 + r) \<and>
     bit x (16 + r) = bit y (16 + r) \<and> bit x (24 + r) = bit (y :: u32) (24 + r)"
  shows "x = y"
proof (rule u32_eqI)
  fix n :: nat assume "n < 32"
  then obtain r where "r < 8" "n = r \<or> n = 8 + r \<or> n = 16 + r \<or> n = 24 + r"
    by (rule byte_index)
  then show "bit x n = bit y n" using assms by blast
qed

lemma length_4: "length a = 4 \<longleftrightarrow> (\<exists>b0 b1 b2 b3. a = [b0, b1, b2, b3])"
  by (auto simp: numeral_eq_Suc length_Suc_conv)

lemma FromUint32_AsUint32: "length a = 4 \<Longrightarrow> FromUint32 (AsUint32 a) = a"
proof -
  assume "length a = 4"
  then obtain b0 b1 b2 b3 where a: "a = [b0, b1, b2, b3]" by (auto simp: length_4)
  show ?thesis unfolding FromUint32_def AsUint32_def a
    by (auto intro!: bit_word_eqI simp: bit_simps)
qed

lemma AsUint32_FromUint32: "AsUint32 (FromUint32 x) = x"
  by (rule u32_eq_bytesI) (simp add: bits_AsUint32 FromUint32_def bit_simps)

lemma length_FromUint32 [simp]: "length (FromUint32 x) = 4"
  by (simp add: FromUint32_def)

lemma AsUint32_inj: "length a = 4 \<Longrightarrow> length b = 4 \<Longrightarrow> AsUint32 a = AsUint32 b \<longleftrightarrow> a = b"
  by (metis FromUint32_AsUint32)

lemma swap32_swap32 [simp]: "swap32 (swap32 x) = x"
  by (rule u32_eq_bytesI) (simp add: bits_swap32)

lemma swap32_inj [simp]: "swap32 x = swap32 y \<longleftrightarrow> x = y"
  by (metis swap32_swap32)

lemma swap32_and: "swap32 (x AND y) = swap32 x AND swap32 y"
  by (rule u32_eq_bytesI) (simp add: bits_swap32 bit_and_iff)

lemma swap32_0 [simp]: "swap32 0 = 0"
  by (rule u32_eq_bytesI) (simp add: bits_swap32)

text \<open>Bit \<open>i\<close> of an address, counted from the most significant bit of the first byte.\<close>

definition addr_bit :: "Address \<Rightarrow> nat \<Rightarrow> bool" where
  "addr_bit a i = bit (a ! (i div 8)) (7 - i mod 8)"

lemma addr_bit_host:
  assumes "i < 32"
  shows "addr_bit a i = bit (swap32 (AsUint32 a)) (31 - i)"
proof -
  obtain r where r: "r < 8" and i: "i = r \<or> i = 8 + r \<or> i = 16 + r \<or> i = 24 + r"
    using byte_index [OF assms] .
  have d: "r div 8 = 0" "(8 + r) div 8 = 1" "(16 + r) div 8 = 2" "(24 + r) div 8 = 3"
    using r by simp_all
  have m: "r mod 8 = r" "(8 + r) mod 8 = r" "(16 + r) mod 8 = r" "(24 + r) mod 8 = r"
    using r mod_mult_self2 [of r 8 1] mod_mult_self2 [of r 8 2] mod_mult_self2 [of r 8 3]
    by (simp_all add: add.commute)
  have s: "31 - r = 24 + (7 - r)" "31 - (8 + r) = 16 + (7 - r)" "31 - (16 + r) = 8 + (7 - r)"
     "31 - (24 + r) = 7 - r" using r by simp_all
  have "7 - r < 8" by simp
  then show ?thesis using i
    by (elim disjE) (simp_all only: addr_bit_def d m s bits_swap32 bits_AsUint32)
qed

lemma netMask_high: "l \<le> 32 \<Longrightarrow> netMask l = swap32 (NOT (mask (32 - l)))"
proof (cases "l < 32")
  case True
  have "push_bit (32 - l) (push_bit l 1 - 1 :: u32) = NOT (mask (32 - l))"
    unfolding mask_eq_decr_exp [symmetric] push_bit_of_1
    by (rule u32_eqI) (use True in \<open>auto simp: bit_push_bit_iff bit_mask_iff bit_not_iff\<close>)
  then show ?thesis using True by (simp add: netMask_def)
next
  case False
  assume "l \<le> 32"
  then show ?thesis using False by (simp add: netMask_def)
qed

lemma bit_netMask: "l \<le> 32 \<Longrightarrow> n < 32 \<Longrightarrow> bit (swap32 (netMask l)) n \<longleftrightarrow> 32 - l \<le> n"
  by (simp add: netMask_high bit_not_iff bit_mask_iff not_less)

lemma same_masked:
  assumes "l \<le> 32" "length a = 4" "length b = 4"
  shows "AsUint32 a AND netMask l = AsUint32 b AND netMask l \<longleftrightarrow> (\<forall>i < l. addr_bit a i = addr_bit b i)"
proof -
  have "AsUint32 a AND netMask l = AsUint32 b AND netMask l \<longleftrightarrow>
    swap32 (AsUint32 a) AND swap32 (netMask l) = swap32 (AsUint32 b) AND swap32 (netMask l)"
    by (metis swap32_and swap32_inj)
  also have "\<dots> \<longleftrightarrow> (\<forall>n < 32. 32 - l \<le> n \<longrightarrow> bit (swap32 (AsUint32 a)) n = bit (swap32 (AsUint32 b)) n)"
    using assms(1) by (auto simp: bit_eq_iff bit_and_iff bit_netMask dest: word32_beyond)
  also have "\<dots> \<longleftrightarrow> (\<forall>i < l. bit (swap32 (AsUint32 a)) (31 - i) = bit (swap32 (AsUint32 b)) (31 - i))"
  proof (rule iffI; intro allI impI)
    fix n assume *: "\<forall>i < l. bit (swap32 (AsUint32 a)) (31 - i) = bit (swap32 (AsUint32 b)) (31 - i)"
      and n: "n < 32" "32 - l \<le> n"
    have "31 - n < l" "31 - (31 - n) = n" using n assms(1) by auto
    then show "bit (swap32 (AsUint32 a)) n = bit (swap32 (AsUint32 b)) n" using * by metis
  qed (use assms(1) in auto)
  also have "\<dots> \<longleftrightarrow> (\<forall>i < l. addr_bit a i = addr_bit b i)"
    using assms(1) by (simp add: addr_bit_host)
  finally show ?thesis .
qed

lemma MatchesPrefix_eq: "MatchesPrefix a p \<longleftrightarrow> AsUint32 a AND Mask p = mapFibKey p"
proof -
  have "0 = (x XOR y) AND m \<longleftrightarrow> x AND m = y AND m" for x y m :: u32
    by (auto simp: bit_eq_iff bit_simps)
  then show ?thesis by (simp add: MatchesPrefix_def mapFibKey_def)
qed

lemma MatchesPrefix_iff:
  assumes "Len p \<le> 32" "length a = 4" "length (Prefix.Address p) = 4"
  shows "MatchesPrefix a p \<longleftrightarrow> (\<forall>i < unat (Len p). addr_bit a i = addr_bit (Prefix.Address p) i)"
  using same_masked [of "unat (Len p)" a "Prefix.Address p"] assms
  by (simp add: MatchesPrefix_eq mapFibKey_def Mask_def word_le_nat_alt)

lemma MaskLen_netMask: "l \<le> 32 \<Longrightarrow> MaskLen (FromUint32 (netMask l)) = (of_nat l, True)"
proof -
  assume l: "l \<le> 32"
  have m: "NOT (swap32 (netMask l)) = mask (32 - l)"
    using l by (simp add: netMask_high)
  have z: "(mask k + 1) AND mask k = (0 :: u32)" for k
    by (rule bit_word_eqI) (auto simp: inc_mask_eq_exp bit_simps)
  show ?thesis
  proof (cases "l = 32")
    case True
    then show ?thesis using m by (simp add: MaskLen_def AsUint32_FromUint32)
  next
    case False
    define k where "k = 32 - l"
    have k: "0 < k" "k \<le> 32" using False l by (auto simp: k_def)
    have c: "ucast (mask k :: u32) = (mask k :: u64)" using k by (simp add: ucast_mask_eq)
    have u: "unat (mask k :: u64) = 2 ^ k - 1"
    proof -
      have e: "unat (2 ^ k :: u64) = 2 ^ k" using k unat_push_bit_1 [of k] by (simp add: push_bit_of_1)
      then have "(2 ^ k :: u64) \<noteq> 0" by (metis power_not_zero unsigned_0 zero_neq_numeral)
      then show ?thesis using e by (simp add: mask_eq_decr_exp unat_minus_one)
    qed
    have nz: "mask k \<noteq> (0 :: u64)" and nz32: "mask k \<noteq> (0 :: u32)"
      using k by (auto simp: mask_eq_0_iff)
    have p: "(2::nat) ^ k = 2 * 2 ^ (k - 1)" using k by (cases k) simp_all
    have "unat (MinLog2 (mask k)) = k - 1"
    proof (rule antisym)
      have "(2::nat) ^ unat (MinLog2 (mask k)) < 2 ^ k"
        using MinLog2_bounds(1) [OF nz] unfolding u by (rule le_less_trans) simp
      then show "unat (MinLog2 (mask k)) \<le> k - 1" using k by simp
      have "(2::nat) ^ (k - 1) \<le> unat (mask k :: u64)" unfolding u p by simp
      then have "(2::nat) ^ (k - 1) < 2 ^ Suc (unat (MinLog2 (mask k)))"
        using MinLog2_bounds(2) [OF nz] by (rule le_less_trans)
      then have "k - 1 < Suc (unat (MinLog2 (mask k)))"
        by (rule power_less_imp_less_exp [rotated]) simp
      then show "k - 1 \<le> unat (MinLog2 (mask k))" by simp
    qed
    then have L: "MinLog2 (mask k) = of_nat (k - 1)"
      by (metis of_nat_unat ucast_id)
    have "(32 :: u64) - (1 + of_nat (k - 1)) = of_nat (32 - k)"
      using k by (simp add: of_nat_diff)
    then show ?thesis using m z [of k] nz32 L c
      by (simp add: MaskLen_def AsUint32_FromUint32 k_def [symmetric]) (simp add: k_def l)
  qed
qed

subsection \<open>Routes of a map FIB\<close>

definition route :: "'h MapFib \<Rightarrow> nat \<Rightarrow> u32 \<Rightarrow> 'h mapFibResult option" where
  "route m l k = map_get (m ! l) k"

definition prefix_ok :: "Prefix \<Rightarrow> bool" where
  "prefix_ok p \<longleftrightarrow> Len p \<le> 32 \<and> length (Prefix.Address p) = 4"

definition same_prefix :: "Prefix \<Rightarrow> Prefix \<Rightarrow> bool" where
  "same_prefix p q \<longleftrightarrow> Len p = Len q \<and> mapFibKey p = mapFibKey q"

lemma unat_Len_le: "Len p \<le> 32 \<longleftrightarrow> unat (Len p) \<le> 32"
  by (simp add: word_le_nat_alt)

lemma map_get_simps [simp]: "map_get None k = None" "map_get (Some m) k = fmlookup m k"
  by (simp_all add: map_get_def)

lemma MapFib_Set_eq:
  assumes "length m = 33" "Len p \<le> 32"
  obtains m' where
    "MapFib_Set m p a = Some (m', case route m (unat (Len p)) (mapFibKey p) of None \<Rightarrow> AdjNil | Some r \<Rightarrow> adj r, True)"
    "length m' = 33"
    "\<And>l k. l < 33 \<Longrightarrow> route m' l k =
       (if l = unat (Len p) \<and> k = mapFibKey p
        then Some ((case route m l k of None \<Rightarrow> zeroResult | Some r \<Rightarrow> r)\<lparr>adj := a\<rparr>)
        else route m l k)"
proof -
  have l: "unat (Len p) < length m" using assms by (simp add: unat_Len_le)
  then show ?thesis
    by (intro that[of "m[unat (Len p) := Some (fmupd (mapFibKey p)
        ((case route m (unat (Len p)) (mapFibKey p) of None \<Rightarrow> zeroResult | Some r \<Rightarrow> r)\<lparr>adj := a\<rparr>)
        (case m ! unat (Len p) of None \<Rightarrow> fmempty | Some x \<Rightarrow> x))]"])
      (use assms in \<open>auto simp: MapFib_Set_def validateLen_def route_def nth_list_update
         split: option.splits\<close>)
qed

lemma MapFib_Unset_eq:
  assumes "length m = 33" "Len p \<le> 32"
  obtains m' where
    "MapFib_Unset m p = Some (m', case route m (unat (Len p)) (mapFibKey p) of None \<Rightarrow> AdjNil | Some r \<Rightarrow> adj r,
       route m (unat (Len p)) (mapFibKey p) \<noteq> None)"
    "length m' = 33"
    "\<And>l k. l < 33 \<Longrightarrow> route m' l k =
       (if l = unat (Len p) \<and> k = mapFibKey p then None else route m l k)"
proof -
  have l: "unat (Len p) < length m" using assms by (simp add: unat_Len_le)
  then show ?thesis
    by (intro that[of "if route m (unat (Len p)) (mapFibKey p) = None then m
        else m[unat (Len p) := map_option (fmdrop (mapFibKey p)) (m ! unat (Len p))]"])
      (use assms in \<open>auto simp: MapFib_Unset_def route_def nth_list_update map_get_def
         split: option.splits\<close>)
qed

lemma MapFib_Get_eq:
  assumes "length m = 33" "Len p \<le> 32"
  shows "MapFib_Get m p = Some (case route m (unat (Len p)) (mapFibKey p) of
      None \<Rightarrow> (zeroResult, False) | Some r \<Rightarrow> (r, True))"
  using assms by (simp add: MapFib_Get_def route_def unat_Len_le split: option.splits)

lemma unat_of_nat_le32: "l \<le> 32 \<Longrightarrow> unat (word_of_nat l :: u32) = l"
  by (simp add: unsigned_of_nat take_bit_nat_eq_self)

lemma Lookup_loop_route:
  assumes "length m = 33" "l \<le> 32"
  shows "Lookup_loop m a l = (case route m l (AsUint32 a AND netMask l) of
      Some r \<Rightarrow> Some (r, \<lparr>Address = FromUint32 (AsUint32 a AND netMask l), Len = of_nat l\<rparr>, True)
    | None \<Rightarrow> (case l of
        0 \<Rightarrow> Some (\<lparr>adj = AdjMiss, nh = fmempty\<rparr>, \<lparr>Address = [0, 0, 0, 0], Len = 0\<rparr>, False)
      | Suc l' \<Rightarrow> Lookup_loop m a l'))"
  using assms by (subst Lookup_loop.simps)
    (simp add: route_def mapFibKey_def Mask_def unat_of_nat_le32 Let_def split: option.split)

lemma Lookup_loop_spec:
  assumes "length m = 33" "l \<le> 32"
  shows "case Lookup_loop m a l of None \<Rightarrow> False | Some (r, p, ok) \<Rightarrow>
    (if ok then unat (Len p) \<le> l \<and> Prefix.Address p = FromUint32 (AsUint32 a AND netMask (unat (Len p))) \<and>
        route m (unat (Len p)) (AsUint32 a AND netMask (unat (Len p))) = Some r \<and>
        (\<forall>l'. unat (Len p) < l' \<and> l' \<le> l \<longrightarrow> route m l' (AsUint32 a AND netMask l') = None)
     else adj r = AdjMiss \<and> (\<forall>l' \<le> l. route m l' (AsUint32 a AND netMask l') = None))"
  using assms(2)
proof (induction l)
  case 0
  show ?case unfolding Lookup_loop_route [OF assms(1) 0]
    by (cases "route m 0 (AsUint32 a AND netMask 0)") auto
next
  case (Suc l)
  have u: "unat (word_of_nat (Suc l) :: u32) = Suc l" using unat_of_nat_le32 [OF Suc.prems] .
  show ?case
  proof (cases "route m (Suc l) (AsUint32 a AND netMask (Suc l))")
    case None
    have "l \<le> 32" using Suc.prems by simp
    from Suc.IH [OF this] show ?thesis unfolding Lookup_loop_route [OF assms(1) Suc.prems] None
      using None by (auto simp: le_Suc_eq split: option.splits if_splits)
  next
    case (Some r)
    then show ?thesis unfolding Lookup_loop_route [OF assms(1) Suc.prems] Some
      using u Some by (auto simp del: of_nat_Suc)
  qed
qed

theorem Lookup_longest_match:
  assumes "length m = 33"
  shows "case MapFib_Lookup m a of None \<Rightarrow> False | Some (r, p, ok) \<Rightarrow>
    (if ok then Len p \<le> 32 \<and> MatchesPrefix a p \<and> MapFib_Get m p = Some (r, True) \<and>
        (\<forall>q r'. Len q \<le> 32 \<and> MatchesPrefix a q \<and> MapFib_Get m q = Some (r', True) \<longrightarrow> Len q \<le> Len p)
     else adj r = AdjMiss \<and>
        (\<forall>q. Len q \<le> 32 \<and> MatchesPrefix a q \<longrightarrow> MapFib_Get m q = Some (zeroResult, False)))"
proof -
  obtain r p ok where e: "MapFib_Lookup m a = Some (r, p, ok)"
    using Lookup_loop_spec [OF assms, of 32 a] by (auto simp: MapFib_Lookup_def split: option.splits)
  note sp = Lookup_loop_spec [OF assms, of 32 a, folded MapFib_Lookup_def, unfolded e, simplified]
  have get: "MapFib_Get m q = Some (case route m (unat (Len q)) (AsUint32 a AND netMask (unat (Len q))) of
      None \<Rightarrow> (zeroResult, False) | Some r \<Rightarrow> (r, True))" if "Len q \<le> 32" "MatchesPrefix a q" for q
    using MapFib_Get_eq [OF assms that(1)] that(2) by (simp add: MatchesPrefix_eq Mask_def)
  show ?thesis
  proof (cases ok)
    case True
    with sp have s: "unat (Len p) \<le> 32"
      "Prefix.Address p = FromUint32 (AsUint32 a AND netMask (unat (Len p)))"
      "route m (unat (Len p)) (AsUint32 a AND netMask (unat (Len p))) = Some r"
      "\<forall>l'. unat (Len p) < l' \<and> l' \<le> 32 \<longrightarrow> route m l' (AsUint32 a AND netMask l') = None"
      by auto
    have mp: "MatchesPrefix a p"
      by (simp add: MatchesPrefix_eq mapFibKey_def Mask_def s(2) AsUint32_FromUint32 and.assoc)
    have "Len q \<le> Len p" if "Len q \<le> 32" "MatchesPrefix a q" "MapFib_Get m q = Some (r', True)" for q r'
      using get [OF that(1,2)] that s(4)
      by (auto simp: word_le_nat_alt not_le dest!: spec [of _ "unat (Len q)"] split: option.splits intro!: leI)
    then show ?thesis using e True mp s(1,3) get [of p] by (simp add: unat_Len_le)
  next
    case False
    with sp show ?thesis using e get by (auto simp: unat_Len_le)
  qed
qed

subsection \<open>The contract of a route table\<close>

text \<open>A history of writes (\<open>Some a\<close>) and deletes (\<open>None\<close>), applied in order.\<close>

fun play :: "('t \<Rightarrow> 'k \<Rightarrow> 'a \<Rightarrow> 't option) \<Rightarrow> ('t \<Rightarrow> 'k \<Rightarrow> 't option) \<Rightarrow> 't \<Rightarrow> ('k \<times> 'a option) list \<Rightarrow> 't option" where
  "play put del t [] = Some t"
| "play put del t ((k, v) # ops) =
     (case v of Some a \<Rightarrow> put t k a | None \<Rightarrow> del t k) \<bind> (\<lambda>t'. play put del t' ops)"

text \<open>What the last operation on a key left there.\<close>

fun latest :: "('k \<Rightarrow> 'k \<Rightarrow> bool) \<Rightarrow> 'k \<Rightarrow> ('k \<times> 'a option) list \<Rightarrow> 'a option \<Rightarrow> 'a option" where
  "latest same k [] v = v"
| "latest same k ((k', v') # ops) v = latest same k ops (if same k' k then v' else v)"

text \<open>
  What the callers of a table of routes rely on: a write is seen by the next read of the same
  key and by no read of another key, whatever the table holds.
\<close>

locale route_table =
  fixes inv :: "'t \<Rightarrow> bool"
    and key_ok :: "'k \<Rightarrow> bool"
    and same :: "'k \<Rightarrow> 'k \<Rightarrow> bool"
    and get :: "'t \<Rightarrow> 'k \<Rightarrow> 'a option"
    and put :: "'t \<Rightarrow> 'k \<Rightarrow> 'a \<Rightarrow> 't option"
    and del :: "'t \<Rightarrow> 'k \<Rightarrow> 't option"
  assumes put_ok: "inv t \<Longrightarrow> key_ok k \<Longrightarrow>
      \<exists>t'. put t k a = Some t' \<and> inv t' \<and>
        (\<forall>k'. key_ok k' \<longrightarrow> get t' k' = (if same k k' then Some a else get t k'))"
    and del_ok: "inv t \<Longrightarrow> key_ok k \<Longrightarrow>
      \<exists>t'. del t k = Some t' \<and> inv t' \<and>
        (\<forall>k'. key_ok k' \<longrightarrow> get t' k' = (if same k k' then None else get t k'))"
begin

lemma play_latest:
  "inv t \<Longrightarrow> \<forall>(k, v) \<in> set ops. key_ok k \<Longrightarrow>
     \<exists>t'. play put del t ops = Some t' \<and> inv t' \<and>
       (\<forall>k. key_ok k \<longrightarrow> get t' k = latest same k ops (get t k))"
proof (induction ops arbitrary: t)
  case (Cons op ops)
  obtain k v where op: "op = (k, v)" by (cases op)
  then have k: "key_ok k" using Cons.prems by simp
  have "\<exists>t'. (case v of Some a \<Rightarrow> put t k a | None \<Rightarrow> del t k) = Some t' \<and> inv t' \<and>
      (\<forall>k'. key_ok k' \<longrightarrow> get t' k' = (if same k k' then v else get t k'))"
  proof (cases v)
    case None
    show ?thesis unfolding None using del_ok [OF Cons.prems(1) k] by simp
  next
    case (Some a)
    show ?thesis unfolding Some using put_ok [OF Cons.prems(1) k, of a] by simp
  qed
  then obtain t1 where t1: "(case v of Some a \<Rightarrow> put t k a | None \<Rightarrow> del t k) = Some t1" "inv t1"
    "\<forall>k'. key_ok k' \<longrightarrow> get t1 k' = (if same k k' then v else get t k')" by auto
  have "\<forall>(k, v) \<in> set ops. key_ok k" using Cons.prems(2) by simp
  from Cons.IH [OF t1(2) this] show ?case using t1(1,3) op by auto
qed simp

end

definition MapFib_adj :: "'h MapFib \<Rightarrow> Prefix \<Rightarrow> Adj option" where
  "MapFib_adj m p = (case MapFib_Get m p of Some (r, True) \<Rightarrow> Some (adj r) | _ \<Rightarrow> None)"

lemma MapFib_adj_route:
  "length m = 33 \<Longrightarrow> Len p \<le> 32 \<Longrightarrow>
     MapFib_adj m p = map_option adj (route m (unat (Len p)) (mapFibKey p))"
  by (simp add: MapFib_adj_def MapFib_Get_eq split: option.split)

interpretation mapfib: route_table "\<lambda>m :: 'h MapFib. length m = 33" "\<lambda>p :: Prefix. Len p \<le> 32" same_prefix
  "MapFib_adj :: 'h MapFib \<Rightarrow> Prefix \<Rightarrow> Adj option" "\<lambda>m (p :: Prefix) a. map_option fst (MapFib_Set m p a)" "\<lambda>m (p :: Prefix). map_option fst (MapFib_Unset m p)"
proof
  fix m :: "'h MapFib" and p :: Prefix and a
  assume m: "length m = 33" and p: "Len p \<le> 32"
  obtain m' where "MapFib_Set m p a = Some (m', case route m (unat (Len p)) (mapFibKey p) of None \<Rightarrow> AdjNil | Some r \<Rightarrow> adj r, True)"
    "length m' = 33"
    "\<And>l k. l < 33 \<Longrightarrow> route m' l k =
       (if l = unat (Len p) \<and> k = mapFibKey p
        then Some ((case route m l k of None \<Rightarrow> zeroResult | Some r \<Rightarrow> r)\<lparr>adj := a\<rparr>)
        else route m l k)"
    using MapFib_Set_eq [OF m p] by metis
  then show "\<exists>m'. map_option fst (MapFib_Set m p a) = Some m' \<and> length m' = 33 \<and>
     (\<forall>q. Len q \<le> 32 \<longrightarrow> MapFib_adj m' q = (if same_prefix p q then Some a else MapFib_adj m q))"
    using m by (auto simp: MapFib_adj_route same_prefix_def unat_Len_le word_unat_eq_iff)
next
  fix m :: "'h MapFib" and p :: Prefix
  assume m: "length m = 33" and p: "Len p \<le> 32"
  obtain m' where "MapFib_Unset m p = Some (m', case route m (unat (Len p)) (mapFibKey p) of None \<Rightarrow> AdjNil | Some r \<Rightarrow> adj r,
       route m (unat (Len p)) (mapFibKey p) \<noteq> None)"
    "length m' = 33"
    "\<And>l k. l < 33 \<Longrightarrow> route m' l k =
       (if l = unat (Len p) \<and> k = mapFibKey p then None else route m l k)"
    using MapFib_Unset_eq [OF m p] by metis
  then show "\<exists>m'. map_option fst (MapFib_Unset m p) = Some m' \<and> length m' = 33 \<and>
     (\<forall>q. Len q \<le> 32 \<longrightarrow> MapFib_adj m' q = (if same_prefix p q then None else MapFib_adj m q))"
    using m by (auto simp: MapFib_adj_route same_prefix_def unat_Len_le word_unat_eq_iff)
qed

lemma getLessSpecific_loop_route:
  assumes "length m = 33" "l \<le> 32"
  shows "getLessSpecific_loop m a l = (if l = 0 then Some (zeroResult, \<lparr>Address = a, Len = 0\<rparr>, False) else
    case route m l (AsUint32 a AND netMask l) of
      Some r \<Rightarrow> Some (r, \<lparr>Address = a, Len = of_nat l\<rparr>, True)
    | None \<Rightarrow> getLessSpecific_loop m a (l - 1))"
  using assms by (subst getLessSpecific_loop.simps)
    (simp add: route_def mapFibKey_def Mask_def unat_of_nat_le32 Let_def split: option.split)

lemma getLessSpecific_loop_spec:
  assumes "length m = 33" "l \<le> 32"
  shows "case getLessSpecific_loop m a l of None \<Rightarrow> False | Some (r, p, ok) \<Rightarrow>
    Prefix.Address p = a \<and>
    (if ok then 0 < unat (Len p) \<and> unat (Len p) \<le> l \<and>
        route m (unat (Len p)) (AsUint32 a AND netMask (unat (Len p))) = Some r \<and>
        (\<forall>l'. unat (Len p) < l' \<and> l' \<le> l \<longrightarrow> route m l' (AsUint32 a AND netMask l') = None)
     else r = zeroResult \<and> (\<forall>l'. 0 < l' \<and> l' \<le> l \<longrightarrow> route m l' (AsUint32 a AND netMask l') = None))"
  using assms(2)
proof (induction l)
  case 0
  show ?case unfolding getLessSpecific_loop_route [OF assms(1) 0] by simp
next
  case (Suc l)
  have u: "unat (word_of_nat (Suc l) :: u32) = Suc l" using unat_of_nat_le32 [OF Suc.prems] .
  show ?case
  proof (cases "route m (Suc l) (AsUint32 a AND netMask (Suc l))")
    case None
    have "l \<le> 32" using Suc.prems by simp
    from Suc.IH [OF this] show ?thesis unfolding getLessSpecific_loop_route [OF assms(1) Suc.prems] None
      using None by (auto simp: le_Suc_eq split: option.splits if_splits)
  next
    case (Some r)
    then show ?thesis unfolding getLessSpecific_loop_route [OF assms(1) Suc.prems] Some
      using u Some by (auto simp del: of_nat_Suc)
  qed
qed

subsection \<open>Byte-wise addition\<close>

lemma ByteAdd_rev_no_carry:
  "ByteAdd_rev as x = map2 (\<lambda>a i. a + ucast (drop_bit (8 * i) x)) as [0..<length as]"
proof (induction "as" arbitrary: x)
  case (Cons a as)
  let ?y = "ucast a + (x AND 0xff) :: u64"
  have "(0xff :: u64) = mask 8" by (simp add: mask_eq_exp_minus_1)
  then have m: "x AND 0xff = take_bit 8 x" by (simp add: take_bit_eq_mask)
  have u: "unat ?y = unat a + unat x mod 256"
    using unat_u8_less [of a] unfolding m
    by (simp add: unat_word_ariths unsigned_ucast_eq unsigned_take_bit_eq take_bit_eq_mod)
  have nc: "\<not> ?y < ucast a" 
    using u by (simp add: word_less_nat_alt unsigned_ucast_eq take_bit_eq_mod)
  have y: "ucast ?y = a + (ucast x :: u8)"
  proof -
    have "unat (ucast ?y :: u8) = unat ?y mod 256"
      by (simp only: unsigned_ucast_eq take_bit_eq_mod) simp
    also have "\<dots> = unat (a + (ucast x :: u8))"
      unfolding u by (simp add: unsigned_ucast_eq unat_word_ariths take_bit_eq_mod mod_simps)
    finally show ?thesis by (simp only: word_unat_eq_iff)
  qed
  have s: "map2 (\<lambda>a i. a + ucast (drop_bit (8 * i) (drop_bit 8 x))) as [0..<length as] =
     map2 (\<lambda>a i. a + ucast (drop_bit (8 * i) x)) as [1..<Suc (length as)]"
    by (simp add: map_Suc_upt [symmetric] zip_map2 o_def case_prod_beta add.commute del: upt_Suc)
  have "ByteAdd_rev (a # as) x = (if x = 0 then a # as else (a + ucast x) # ByteAdd_rev as (drop_bit 8 x))"
    using nc y by (simp add: Let_def)
  moreover have "map2 (\<lambda>a i. a + ucast (drop_bit (8 * i) (0::u64))) (a # as) [0..<length (a # as)] = a # as"
    by (rule nth_equalityI) (simp_all del: upt_Suc)
  moreover have "[0..<length (a # as)] = 0 # [1..<Suc (length as)]" by (simp add: upt_rec del: upt_Suc)
  ultimately show ?case using Cons.IH [of "drop_bit 8 x"] s by (cases "x = 0") simp_all
qed simp

subsection \<open>Properties\<close>

text \<open>An address matches a prefix exactly when they agree on the first \<open>Len\<close> bits in network order,
  though the code compares little-endian words under a byte-swapped mask.\<close>

theorem MatchesPrefix_bits:
  assumes "Len p \<le> 32" "length a = 4" "length (Prefix.Address p) = 4"
  shows "MatchesPrefix a p \<longleftrightarrow> (\<forall>i < unat (Len p). addr_bit a i = addr_bit (Prefix.Address p) i)"
  by (rule MatchesPrefix_iff [OF assms])

lemma MatchesPrefix_bits_witness:
  "MatchesPrefix [10, 1, 2, 3] \<lparr>Address = [10, 1, 0, 0], Len = 16\<rparr> \<longleftrightarrow>
    list_all (\<lambda>i. addr_bit [10, 1, 2, 3] i = addr_bit [10, 1, 0, 0] i) [0..<16]"
  using MatchesPrefix_bits [of "\<lparr>Address = [10, 1, 0, 0], Len = 16\<rparr>" "[10, 1, 2, 3]"]
  by (auto simp add: list_all_iff simp del: upt_Suc)

text \<open>The length of the mask of length \<open>l\<close> is \<open>l\<close>, for every \<open>l\<close> up to 32.\<close>

theorem MaskLen_roundtrip: "l \<le> 32 \<Longrightarrow> MaskLen (FromUint32 (netMask l)) = (of_nat l, True)"
  by (rule MaskLen_netMask)

lemma MaskLen_roundtrip_witness: "MaskLen (FromUint32 (netMask 20)) = (of_nat 20, True)"
  by (rule MaskLen_roundtrip) simp

text \<open>\<open>ByteAdd\<close> adds the bytes of its operand one by one: no carry ever reaches the next byte.\<close>

theorem ByteAdd_never_carries:
  "ByteAdd a x = rev (map2 (\<lambda>b i. b + ucast (drop_bit (8 * i) x)) (rev a) [0..<length a])"
  by (simp add: ByteAdd_def ByteAdd_rev_no_carry del: upt_Suc)

text \<open>C5: A map FIB of 33 maps never panics on a lookup. It returns the route of the longest prefix of
  the table that matches the address, or a miss when none does.\<close>

theorem MapFib_Lookup_longest:
  assumes "length m = 33"
  shows "case MapFib_Lookup m a of None \<Rightarrow> False | Some (r, p, ok) \<Rightarrow>
    (if ok then Len p \<le> 32 \<and> MatchesPrefix a p \<and> MapFib_Get m p = Some (r, True) \<and>
        (\<forall>q r'. Len q \<le> 32 \<and> MatchesPrefix a q \<and> MapFib_Get m q = Some (r', True) \<longrightarrow> Len q \<le> Len p)
     else adj r = AdjMiss \<and>
        (\<forall>q. Len q \<le> 32 \<and> MatchesPrefix a q \<longrightarrow> MapFib_Get m q = Some (zeroResult, False)))"
  by (rule Lookup_longest_match [OF assms])

lemma MapFib_Lookup_longest_witness: "MapFib_Lookup (replicate 33 None :: nat MapFib) [10, 1, 2, 3] \<noteq> None"
  using MapFib_Lookup_longest [of "replicate 33 None :: nat MapFib" "[10, 1, 2, 3]"]
  by (cases "MapFib_Lookup (replicate 33 None :: nat MapFib) [10, 1, 2, 3]") simp_all

text \<open>After any history of \<open>Set\<close> and \<open>Unset\<close> on a map FIB, the route of a prefix is the one its last
  operation left, prefixes that differ only in masked-out bits being the same.\<close>

theorem MapFib_history:
  assumes "length (m :: 'h MapFib) = 33" "\<forall>(p, v) \<in> set ops. Len p \<le> 32" "Len q \<le> 32"
  shows "\<exists>m'. play (\<lambda>m (p :: Prefix) a. map_option fst (MapFib_Set m p a)) (\<lambda>m p. map_option fst (MapFib_Unset m p)) m ops
      = Some m' \<and> MapFib_adj m' q = latest same_prefix q ops (MapFib_adj m q)"
  using mapfib.play_latest [OF assms(1,2)] assms(3) by blast

lemma MapFib_history_witness:
  "\<exists>m'. play (\<lambda>m (p :: Prefix) a. map_option fst (MapFib_Set m p a)) (\<lambda>m p. map_option fst (MapFib_Unset m p))
      (replicate 33 None :: nat MapFib)
      [(\<lparr>Address = [10, 0, 0, 0], Len = 8\<rparr>, Some 7), (\<lparr>Address = [10, 9, 0, 0], Len = 8\<rparr>, None)]
      = Some m' \<and> MapFib_adj m' \<lparr>Address = [10, 0, 0, 0], Len = 8\<rparr> =
      latest same_prefix \<lparr>Address = [10, 0, 0, 0], Len = 8\<rparr>
        [(\<lparr>Address = [10, 0, 0, 0], Len = 8\<rparr>, Some 7), (\<lparr>Address = [10, 9, 0, 0], Len = 8\<rparr>, None)]
        (MapFib_adj (replicate 33 None :: nat MapFib) \<lparr>Address = [10, 0, 0, 0], Len = 8\<rparr>)"
  by (rule MapFib_history) simp_all

end
