(* ===== verification/Mtrie.thy ===== *)
theory Mtrie
  imports Pool Ip4_Prefix
begin

section \<open>The multi-bit trie of an IPv4 FIB: vnet/ip4/mtrie.go\<close>

text \<open>
  A ply has 256 leaves, one per value of an address byte. A leaf is 32 bits: an odd leaf is
  terminal and holds an adjacency, an even one holds the pool index of the ply for the next
  byte. Plies live in a typed pool, so a pointer to a ply is an index here; the code refetches
  its pointers after a call that may move the pool. An index out of range panics (\<open>None\<close>); the
  recursion over plies that the code does not bound is bounded here by the four bytes of an
  address, and \<open>None\<close> also stands for exceeding it.
\<close>

type_synonym leaf = u32

definition emptyLeaf :: leaf where "emptyLeaf = 1 + 2 * AdjMiss"

definition isTerminal :: "leaf \<Rightarrow> bool" where
  "isTerminal l \<longleftrightarrow> l AND 1 \<noteq> 0"

definition ResultIndex :: "leaf \<Rightarrow> Adj" where
  "ResultIndex l = drop_bit 1 l"

definition setResult :: "Adj \<Rightarrow> leaf" where
  "setResult i = 1 + 2 * i"

definition plyIndex :: "leaf \<Rightarrow> nat" where
  "plyIndex l = unat (drop_bit 1 l)"

definition setPlyIndex :: "nat \<Rightarrow> leaf" where
  "setPlyIndex i = of_nat (0 + 2 * i)"

record ply =
  leaves :: "u8 \<Rightarrow> leaf"
  lens :: "u8 \<Rightarrow> u8"
  nNonEmpty :: int
  poolIndex :: nat

record mtrie =
  plyPool :: "ply tpool"
  defaultLeaf :: leaf

definition zero_ply :: ply where
  "zero_ply = \<lparr>leaves = \<lambda>_. 0, lens = \<lambda>_. 0, nNonEmpty = 0, poolIndex = 0\<rparr>"

definition bytes :: "u8 list" where
  "bytes = map of_nat [0..<256]"

definition get_ply :: "mtrie \<Rightarrow> nat \<Rightarrow> ply option" where
  "get_ply m i = (if i < plen (plyPool m) then Some (arr (plyPool m) ! i) else None)"

definition set_ply :: "mtrie \<Rightarrow> nat \<Rightarrow> ply \<Rightarrow> mtrie option" where
  "set_ply m i p = (if i < plen (plyPool m)
     then Some (m\<lparr>plyPool := (plyPool m)\<lparr>arr := (arr (plyPool m))[i := p]\<rparr>\<rparr>) else None)"

text \<open>A loop whose body may panic.\<close>

fun foldM :: "('s \<Rightarrow> 'a \<Rightarrow> 's option) \<Rightarrow> 's \<Rightarrow> 'a list \<Rightarrow> 's option" where
  "foldM f s [] = Some s"
| "foldM f s (x # xs) = do { s \<leftarrow> f s x; foldM f s xs }"

definition LookupStep :: "mtrie \<Rightarrow> leaf \<Rightarrow> u8 \<Rightarrow> leaf option" where
  "LookupStep m l dst = do {
     let it = isTerminal l;
     let ix = (if it then 0 else plyIndex l);
     p \<leftarrow> get_ply m ix;
     Some (if it then l else leaves p dst) }"

definition ply_init :: "ply \<Rightarrow> leaf \<Rightarrow> u8 \<Rightarrow> ply" where
  "ply_init p l n = p\<lparr>nNonEmpty := (if l \<noteq> emptyLeaf then 256 else 0),
     lens := \<lambda>_. n, leaves := \<lambda>_. l\<rparr>"

definition newPly :: "(nat \<Rightarrow> nat) \<Rightarrow> mtrie \<Rightarrow> leaf \<Rightarrow> u8 \<Rightarrow> (leaf \<times> nat \<times> mtrie) option" where
  "newPly nc m l n = do {
     (ix, pool) \<leftarrow> GetIndex nc zero_ply (plyPool m);
     let m = m\<lparr>plyPool := pool\<rparr>;
     p \<leftarrow> get_ply m ix;
     m \<leftarrow> set_ply m ix (ply_init (p\<lparr>poolIndex := ix\<rparr>) l n);
     Some (setPlyIndex ix, ix, m) }"

primrec freePly :: "nat \<Rightarrow> mtrie \<Rightarrow> nat \<Rightarrow> mtrie option" where
  "freePly 0 m ix = None"
| "freePly (Suc d) m ix = do {
     p \<leftarrow> get_ply m ix;
     m \<leftarrow> foldM (\<lambda>m b. if \<not> isTerminal (leaves p b) then freePly d m (plyIndex (leaves p b)) else Some m)
            m bytes;
     if poolIndex p = 0
     then do { p \<leftarrow> get_ply m ix; set_ply m ix (ply_init p emptyLeaf 0) }
     else Some (m\<lparr>plyPool := snd (PutIndex (plyPool m) (poolIndex p))\<rparr>) }"

definition mtrie_Free :: "mtrie \<Rightarrow> mtrie option" where
  "mtrie_Free m = freePly 4 m 0"

fun lookup_loop :: "mtrie \<Rightarrow> nat \<Rightarrow> u8 list \<Rightarrow> Adj option" where
  "lookup_loop m ix [] = None"
| "lookup_loop m ix (d # ds) = do {
     p \<leftarrow> get_ply m ix;
     let l = leaves p d;
     (if isTerminal l then Some (ResultIndex l) else lookup_loop m (plyIndex l) ds) }"

definition mtrie_lookup :: "mtrie \<Rightarrow> Address \<Rightarrow> Adj option" where
  "mtrie_lookup m dst = (if plen (plyPool m) = 0 then Some AdjMiss else do {
     p \<leftarrow> get_ply m 0; lookup_loop m 0 dst })"

text \<open>Every leaf below a ply that is less specific than length \<open>n\<close> becomes \<open>l\<close>.\<close>

primrec setPlyWithMoreSpecificLeaf :: "nat \<Rightarrow> mtrie \<Rightarrow> nat \<Rightarrow> leaf \<Rightarrow> u8 \<Rightarrow> mtrie option" where
  "setPlyWithMoreSpecificLeaf 0 m ix l n = None"
| "setPlyWithMoreSpecificLeaf (Suc d) m ix l n = do {
     p0 \<leftarrow> get_ply m ix;
     foldM (\<lambda>m i. do {
         p \<leftarrow> get_ply m ix;
         let pl = leaves p0 i;
         if \<not> isTerminal pl then setPlyWithMoreSpecificLeaf d m (plyIndex pl) l n
         else if lens p i \<le> n then set_ply m ix (p\<lparr>leaves := (leaves p)(i := l), lens := (lens p)(i := n),
                nNonEmpty := nNonEmpty p + (if pl \<noteq> emptyLeaf then 1 else 0)\<rparr>)
         else Some m })
       m bytes }"

definition replaceLeaf :: "ply \<Rightarrow> leaf \<Rightarrow> leaf \<Rightarrow> u8 \<Rightarrow> ply" where
  "replaceLeaf p new old i = p\<lparr>leaves := (leaves p)(i := new),
     nNonEmpty := nNonEmpty p + (if old \<noteq> emptyLeaf then 1 else 0)\<rparr>"

record addDelLeaf =
  key :: Address
  keyLen :: u8
  result :: Adj

text \<open>The values of the byte \<open>i\<close> in \<open>for i := k; i < k + 1<<n; i++\<close>; the bound is a byte and wraps.\<close>

definition byte_range :: "u8 \<Rightarrow> nat \<Rightarrow> u8 list" where
  "byte_range k n = map of_nat [unat k..<unat (k + push_bit n 1)]"

text \<open>The first argument counts the bytes of the key from \<open>keyByteIndex\<close> on.\<close>

primrec setLeafHelper :: "nat \<Rightarrow> (nat \<Rightarrow> nat) \<Rightarrow> addDelLeaf \<Rightarrow> mtrie \<Rightarrow> nat \<Rightarrow> mtrie option" where
  "setLeafHelper 0 nc s m oldPlyIndex = None"
| "setLeafHelper (Suc d) nc s m oldPlyIndex = (
     let keyByteIndex = 3 - d;
         nBits = int (unat (keyLen s)) - 8 * (int keyByteIndex + 1);
         k = key s ! keyByteIndex
     in do {
       oldPly \<leftarrow> get_ply m oldPlyIndex;
       if nBits \<le> 0
       then foldM (\<lambda>m i. do {
           oldPly \<leftarrow> get_ply m oldPlyIndex;
           let oldLeaf = leaves oldPly i;
           let oldTerm = isTerminal oldLeaf;
           (if lens oldPly i \<le> keyLen s
            then let newLeaf = setResult (result s) in
              (if oldTerm
               then set_ply m oldPlyIndex
                 (replaceLeaf (oldPly\<lparr>lens := (lens oldPly)(i := keyLen s)\<rparr>) newLeaf oldLeaf i)
               else setPlyWithMoreSpecificLeaf 4 m (plyIndex oldLeaf) newLeaf (keyLen s))
            else if \<not> oldTerm then setLeafHelper d nc s m (plyIndex oldLeaf)
            else Some m) })
         m (byte_range k (nat (- nBits)))
       else do {
         let oldLeaf = leaves oldPly k;
         (newPlyIndex, m) \<leftarrow>
           (if \<not> isTerminal oldLeaf then Some (plyIndex oldLeaf, m)
            else do {
              (newLeaf, ix, m) \<leftarrow> newPly nc m oldLeaf (lens oldPly k);
              oldPly \<leftarrow> get_ply m oldPlyIndex;
              m \<leftarrow> set_ply m oldPlyIndex (oldPly\<lparr>leaves := (leaves oldPly)(k := newLeaf),
                     lens := (lens oldPly)(k := 0),
                     nNonEmpty := nNonEmpty oldPly - (if oldLeaf \<noteq> emptyLeaf then 1 else 0) + 1\<rparr>);
              Some (ix, m) });
         np \<leftarrow> get_ply m newPlyIndex;
         setLeafHelper d nc s m (poolIndex np) } })"

text \<open>The loop of \<open>unsetLeafHelper\<close>; \<open>sub\<close> is the recursive call on a lower ply.\<close>

fun unset_loop :: "(mtrie \<Rightarrow> nat \<Rightarrow> (mtrie \<times> bool) option) \<Rightarrow> leaf \<Rightarrow> nat \<Rightarrow> nat \<Rightarrow> mtrie \<Rightarrow> u8 list \<Rightarrow>
    (mtrie \<times> bool) option" where
  "unset_loop sub delLeaf keyByteIndex oldPlyIndex m [] = Some (m, False)"
| "unset_loop sub delLeaf keyByteIndex oldPlyIndex m (i # is) = do {
     oldPly \<leftarrow> get_ply m oldPlyIndex;
     let oldLeaf = leaves oldPly i;
     (m, hit) \<leftarrow> (if oldLeaf = delLeaf then Some (m, True)
        else if \<not> isTerminal oldLeaf then sub m (plyIndex oldLeaf)
        else Some (m, False));
     if hit then do {
       oldPly \<leftarrow> get_ply m oldPlyIndex;
       let n = nNonEmpty oldPly - 1;
       m \<leftarrow> set_ply m oldPlyIndex (oldPly\<lparr>leaves := (leaves oldPly)(i := emptyLeaf),
              lens := (lens oldPly)(i := 0), nNonEmpty := n\<rparr>);
       if n = 0 \<and> 0 < keyByteIndex
       then Some (m\<lparr>plyPool := snd (PutIndex (plyPool m) (poolIndex oldPly))\<rparr>, True)
       else unset_loop sub delLeaf keyByteIndex oldPlyIndex m is }
     else unset_loop sub delLeaf keyByteIndex oldPlyIndex m is }"

primrec unsetLeafHelper :: "nat \<Rightarrow> addDelLeaf \<Rightarrow> mtrie \<Rightarrow> nat \<Rightarrow> (mtrie \<times> bool) option" where
  "unsetLeafHelper 0 s m oldPlyIndex = None"
| "unsetLeafHelper (Suc d) s m oldPlyIndex = (
     let keyByteIndex = 3 - d;
         k = key s ! keyByteIndex;
         nBits = int (unat (keyLen s)) - 8 * (int keyByteIndex + 1);
         (k, n) = (if nBits \<le> 0
            then (k AND NOT (push_bit (nat (- nBits)) 1 - 1), if 8 < - nBits then 8 else nat (- nBits))
            else (k, nat nBits))
     in do {
       oldPly \<leftarrow> get_ply m oldPlyIndex;
       unset_loop (unsetLeafHelper d s) (setResult (result s)) keyByteIndex oldPlyIndex m (byte_range k n) })"

definition mtrie_set :: "(nat \<Rightarrow> nat) \<Rightarrow> addDelLeaf \<Rightarrow> mtrie \<Rightarrow> mtrie option" where
  "mtrie_set nc s m = setLeafHelper 4 nc s m 0"

definition mtrie_unset :: "addDelLeaf \<Rightarrow> mtrie \<Rightarrow> (mtrie \<times> bool) option" where
  "mtrie_unset s m = unsetLeafHelper 4 s m 0"

definition leaf_remap :: "Adj \<Rightarrow> Adj \<Rightarrow> leaf \<Rightarrow> leaf \<times> int" where
  "leaf_remap from to l = (
     if isTerminal l \<and> ResultIndex l = from
     then (if to = AdjNil then (emptyLeaf, 1) else (setResult to, 0))
     else (l, 0))"

definition ply_remap :: "Adj \<Rightarrow> Adj \<Rightarrow> ply \<Rightarrow> ply" where
  "ply_remap from to p = p\<lparr>leaves := \<lambda>i. fst (leaf_remap from to (leaves p i)),
     nNonEmpty := nNonEmpty p - (\<Sum>i\<leftarrow>bytes. snd (leaf_remap from to (leaves p i)))\<rparr>"

definition remapAdjacency :: "Adj \<Rightarrow> Adj \<Rightarrow> mtrie \<Rightarrow> mtrie" where
  "remapAdjacency from to t = t\<lparr>plyPool := (plyPool t)\<lparr>arr :=
     map (\<lambda>i. if i < plen (plyPool t) \<and> \<not> IsFree (plyPool t) i
              then ply_remap from to (arr (plyPool t) ! i) else arr (plyPool t) ! i)
       [0..<length (arr (plyPool t))]\<rparr>\<rparr>"

definition mtrie_init :: "(nat \<Rightarrow> nat) \<Rightarrow> mtrie \<Rightarrow> mtrie option" where
  "mtrie_init nc m = do {
     (l, ix, m) \<leftarrow> newPly nc (m\<lparr>defaultLeaf := emptyLeaf\<rparr>) emptyLeaf 0;
     panic_unless (plyIndex l = 0);
     Some m }"

definition mtrie_reset :: "mtrie \<Rightarrow> mtrie" where
  "mtrie_reset m = m\<lparr>plyPool := Pool_ResetAll (plyPool m), defaultLeaf := emptyLeaf\<rparr>"

definition new_mtrie :: mtrie where
  "new_mtrie = \<lparr>plyPool = new_pool, defaultLeaf = 0\<rparr>"

subsection \<open>The trie as a tree\<close>

text \<open>
  \<open>tree d g ix S\<close>: the ply \<open>ix\<close> of the store \<open>g\<close> is the root of a tree of at most \<open>d\<close> levels
  whose plies are \<open>S\<close>; no ply is shared, and the leaf that points to a ply has length 0.
\<close>

primrec tree :: "nat \<Rightarrow> (nat \<Rightarrow> ply option) \<Rightarrow> nat \<Rightarrow> nat set \<Rightarrow> bool" where
  "tree 0 g ix S = False"
| "tree (Suc d) g ix S = (\<exists>p sub. g ix = Some p \<and> poolIndex p = ix \<and>
     (\<forall>b. if isTerminal (leaves p b) then sub b = {}
          else lens p b = 0 \<and> tree d g (plyIndex (leaves p b)) (sub b)) \<and>
     (\<forall>b. ix \<notin> sub b) \<and> (\<forall>b c. b \<noteq> c \<longrightarrow> sub b \<inter> sub c = {}) \<and> S = insert ix (\<Union>b. sub b))"

text \<open>The terminal leaf an address ends in, with its length.\<close>

fun look :: "(nat \<Rightarrow> ply option) \<Rightarrow> nat \<Rightarrow> u8 list \<Rightarrow> (leaf \<times> u8) option" where
  "look g ix [] = None"
| "look g ix (b # bs) = do {
     p \<leftarrow> g ix;
     if isTerminal (leaves p b) then Some (leaves p b, lens p b) else look g (plyIndex (leaves p b)) bs }"

definition paint :: "leaf \<Rightarrow> u8 \<Rightarrow> (leaf \<times> u8) option \<Rightarrow> (leaf \<times> u8) option" where
  "paint l n x = map_option (\<lambda>(l0, n0). if n0 \<le> n then (l, n) else (l0, n0)) x"

lemma paint_simps [simp]: "paint l n None = None"
  "paint l n (Some (l0, n0)) = Some (if n0 \<le> n then (l, n) else (l0, n0))"
  by (simp_all add: paint_def)

definition agrees :: "nat set \<Rightarrow> mtrie \<Rightarrow> mtrie \<Rightarrow> bool" where
  "agrees S m m' \<longleftrightarrow> pool (plyPool m') = pool (plyPool m) \<and> plen (plyPool m') = plen (plyPool m) \<and>
     length (arr (plyPool m')) = length (arr (plyPool m)) \<and> defaultLeaf m' = defaultLeaf m \<and>
     (\<forall>i. i \<notin> S \<longrightarrow> get_ply m' i = get_ply m i)"

lemma agrees_refl [simp]: "agrees S m m"
  by (simp add: agrees_def)

lemma agrees_trans: "agrees S m m1 \<Longrightarrow> agrees T m1 m2 \<Longrightarrow> S \<union> T \<subseteq> U \<Longrightarrow> agrees U m m2"
  unfolding agrees_def by (metis (no_types, lifting) Un_iff subsetD)

lemma agreesD: "agrees S m m' \<Longrightarrow> i \<notin> S \<Longrightarrow> get_ply m' i = get_ply m i"
  by (simp add: agrees_def)

lemma tree_SucI:
  assumes "g ix = Some p" "poolIndex p = ix" "\<And>b. isTerminal (leaves p b) \<Longrightarrow> sub b = {}"
    "\<And>b. \<not> isTerminal (leaves p b) \<Longrightarrow> lens p b = 0 \<and> tree d g (plyIndex (leaves p b)) (sub b)"
    "\<And>b. ix \<notin> sub b" "\<And>b c. b \<noteq> c \<Longrightarrow> sub b \<inter> sub c = {}" "S = insert ix (\<Union>b. sub b)"
  shows "tree (Suc d) g ix S"
  unfolding tree.simps by (intro exI [of _ p] exI [of _ sub]) (use assms in simp)

lemma tree_SucE:
  assumes "tree (Suc d) g ix S"
  obtains p sub where "g ix = Some p" "poolIndex p = ix" "\<And>b. isTerminal (leaves p b) \<Longrightarrow> sub b = {}"
    "\<And>b. \<not> isTerminal (leaves p b) \<Longrightarrow> lens p b = 0"
    "\<And>b. \<not> isTerminal (leaves p b) \<Longrightarrow> tree d g (plyIndex (leaves p b)) (sub b)"
    "\<And>b. ix \<notin> sub b" "\<And>b c. b \<noteq> c \<Longrightarrow> sub b \<inter> sub c = {}" "S = insert ix (\<Union>b. sub b)"
proof -
  from assms obtain p sub where "g ix = Some p" "poolIndex p = ix"
     "\<forall>b. if isTerminal (leaves p b) then sub b = {}
          else lens p b = 0 \<and> tree d g (plyIndex (leaves p b)) (sub b)"
     "\<forall>b. ix \<notin> sub b" "\<forall>b c. b \<noteq> c \<longrightarrow> sub b \<inter> sub c = {}" "S = insert ix (\<Union>b. sub b)" by auto
  then show thesis by (intro that [of p sub]) metis+
qed

declare tree.simps(2) [simp del]

lemma tree_cong: "(\<And>i. i \<in> S \<Longrightarrow> g' i = g i) \<Longrightarrow> tree d g ix S \<Longrightarrow> tree d g' ix S"
proof (induction d arbitrary: ix S)
  case (Suc d)
  from Suc.prems(2) obtain p sub where t: "g ix = Some p" "poolIndex p = ix"
    "\<And>b. isTerminal (leaves p b) \<Longrightarrow> sub b = {}"
    "\<And>b. \<not> isTerminal (leaves p b) \<Longrightarrow> lens p b = 0"
    "\<And>b. \<not> isTerminal (leaves p b) \<Longrightarrow> tree d g (plyIndex (leaves p b)) (sub b)"
    "\<And>b. ix \<notin> sub b" "\<And>b c. b \<noteq> c \<Longrightarrow> sub b \<inter> sub c = {}" "S = insert ix (\<Union>b. sub b)"
    by (rule tree_SucE) blast
  show ?case
  proof (rule tree_SucI [of _ _ p sub])
    show "g' ix = Some p" using t Suc.prems(1) by simp
    show "lens p b = 0 \<and> tree d g' (plyIndex (leaves p b)) (sub b)" if "\<not> isTerminal (leaves p b)" for b
      using Suc.IH [OF _ t(5) [OF that]] Suc.prems(1) t(4) [OF that] t(8) by auto
  qed (use t in auto)
qed simp

lemma look_cong: "tree d g ix S \<Longrightarrow> (\<And>i. i \<in> S \<Longrightarrow> g' i = g i) \<Longrightarrow> look g' ix bs = look g ix bs"
proof (induction d arbitrary: ix S bs)
  case (Suc d)
  from Suc.prems(1) obtain p sub where t: "g ix = Some p"
    "\<And>b. \<not> isTerminal (leaves p b) \<Longrightarrow> tree d g (plyIndex (leaves p b)) (sub b)"
    "S = insert ix (\<Union>b. sub b)"
    by (rule tree_SucE) blast
  then have g': "g' ix = Some p" using Suc.prems(2) by auto
  show ?case
  proof (cases bs)
    case (Cons b cs)
    have "look g' (plyIndex (leaves p b)) cs = look g (plyIndex (leaves p b)) cs" if "\<not> isTerminal (leaves p b)"
      by (rule Suc.IH [OF t(2) [OF that]]) (use Suc.prems(2) t(3) in auto)
    then show ?thesis using Cons t(1) g' by simp
  qed simp
qed simp

lemma look_Some: "tree d g ix S \<Longrightarrow> d \<le> length bs \<Longrightarrow> \<exists>l n. look g ix bs = Some (l, n) \<and> isTerminal l"
proof (induction d arbitrary: ix S bs)
  case (Suc d)
  from Suc.prems(1) obtain p sub where t: "g ix = Some p"
    "\<And>b. \<not> isTerminal (leaves p b) \<Longrightarrow> tree d g (plyIndex (leaves p b)) (sub b)"
    by (rule tree_SucE) blast
  obtain b cs where bs: "bs = b # cs" "d \<le> length cs" using Suc.prems(2) by (cases bs) auto
  have "\<exists>l n. look g (plyIndex (leaves p b)) cs = Some (l, n) \<and> isTerminal l" if "\<not> isTerminal (leaves p b)"
    using Suc.IH [OF t(2) [OF that] bs(2)] .
  then show ?case using t(1) bs(1) by auto
qed simp

lemma foldM_inv:
  assumes "distinct xs" "I {} s"
    and "\<And>x A s. x \<in> set xs \<Longrightarrow> x \<notin> A \<Longrightarrow> I A s \<Longrightarrow> \<exists>s'. f s x = Some s' \<and> I (insert x A) s'"
  shows "\<exists>s'. foldM f s xs = Some s' \<and> I (set xs) s'"
proof -
  have "\<exists>s'. foldM f s ys = Some s' \<and> I (A \<union> set ys) s'"
    if "I A s" "distinct ys" "set ys \<inter> A = {}" "set ys \<subseteq> set xs" for ys A s
    using that
  proof (induction ys arbitrary: A s)
    case (Cons y ys)
    then obtain s' where "f s y = Some s'" "I (insert y A) s'" using assms(3) [of y A s] by auto
    then show ?case using Cons.IH [of "insert y A" s'] Cons.prems by auto
  qed simp
  from this [OF assms(2,1)] show ?thesis by simp
qed

lemma set_ply_ok:
  assumes "get_ply m i = Some q" "plen (plyPool m) \<le> length (arr (plyPool m))"
  obtains m' where "set_ply m i p = Some m'" "agrees {i} m m'" "get_ply m' i = Some p"
  using assms by (intro that [of "the (set_ply m i p)"])
    (auto simp: set_ply_def get_ply_def agrees_def split: if_splits)

lemma paint_loop:
  assumes t: "tree (Suc d) (get_ply m) ix S" and l: "isTerminal l" and xs: "distinct xs"
    and len: "plen (plyPool m) \<le> length (arr (plyPool m))"
    and p0: "get_ply m ix = Some p0"
    and step: "\<And>m1 x p. x \<in> set xs \<Longrightarrow> get_ply m1 ix = Some p \<Longrightarrow> leaves p x = leaves p0 x \<Longrightarrow>
      lens p x = lens p0 x \<Longrightarrow> (\<not> isTerminal (leaves p0 x) \<Longrightarrow> lens p0 x = 0) \<Longrightarrow>
      (if \<not> isTerminal (leaves p0 x) then f m1 x = R m1 (plyIndex (leaves p0 x))
       else if lens p0 x \<le> n then \<exists>p'. f m1 x = set_ply m1 ix p' \<and> leaves p' = (leaves p)(x := l) \<and>
          lens p' = (lens p)(x := n) \<and> poolIndex p' = poolIndex p
       else f m1 x = Some m1)"
    and R: "\<And>m1 jx T. tree d (get_ply m1) jx T \<Longrightarrow> plen (plyPool m1) \<le> length (arr (plyPool m1)) \<Longrightarrow>
      \<exists>m2. R m1 jx = Some m2 \<and> agrees T m1 m2 \<and> tree d (get_ply m2) jx T \<and>
        (\<forall>bs. look (get_ply m2) jx bs = paint l n (look (get_ply m1) jx bs))"
  shows "\<exists>m'. foldM f m xs = Some m' \<and> agrees S m m' \<and> tree (Suc d) (get_ply m') ix S \<and>
    (\<forall>b bs. look (get_ply m') ix (b # bs) =
       (if b \<in> set xs then paint l n (look (get_ply m) ix (b # bs)) else look (get_ply m) ix (b # bs)))"
proof -
  from t obtain p0' sub where t': "get_ply m ix = Some p0'" "poolIndex p0' = ix"
    "\<And>b. isTerminal (leaves p0' b) \<Longrightarrow> sub b = {}"
    "\<And>b. \<not> isTerminal (leaves p0' b) \<Longrightarrow> lens p0' b = 0"
    "\<And>b. \<not> isTerminal (leaves p0' b) \<Longrightarrow> tree d (get_ply m) (plyIndex (leaves p0' b)) (sub b)"
    "\<And>b. ix \<notin> sub b" "\<And>b c. b \<noteq> c \<Longrightarrow> sub b \<inter> sub c = {}" "S = insert ix (\<Union>b. sub b)"
    by (rule tree_SucE) blast
  have p0': "p0' = p0" using t'(1) p0 by simp
  note t = t' [unfolded p0']
  define child where "child m1 b A \<longleftrightarrow>
     tree d (get_ply m1) (plyIndex (leaves p0 b)) (sub b) \<and>
     (\<forall>bs. look (get_ply m1) (plyIndex (leaves p0 b)) bs =
        (if b \<in> A then paint l n (look (get_ply m) (plyIndex (leaves p0 b)) bs)
         else look (get_ply m) (plyIndex (leaves p0 b)) bs))" for m1 b A
  define own where "own p b A \<longleftrightarrow>
     (if \<not> isTerminal (leaves p0 b) then leaves p b = leaves p0 b \<and> lens p b = 0
      else if b \<in> A \<and> lens p0 b \<le> n then leaves p b = l \<and> lens p b = n
      else leaves p b = leaves p0 b \<and> lens p b = lens p0 b)" for p :: ply and b A
  define I where "I A m1 \<longleftrightarrow> agrees S m m1 \<and> (\<exists>p. get_ply m1 ix = Some p \<and> poolIndex p = ix \<and>
      (\<forall>b. own p b A)) \<and> (\<forall>b. \<not> isTerminal (leaves p0 b) \<longrightarrow> child m1 b A)" for A m1
  have I_I: "I A m2" if "agrees S m m2" "get_ply m2 ix = Some q" "poolIndex q = ix" "\<And>b. own q b A"
    "\<And>b. \<not> isTerminal (leaves p0 b) \<Longrightarrow> child m2 b A" for A m2 q
    using that by (simp add: I_def)
  have keep: "child m2 b (insert x A)"
    if "child m1 b A" "agrees T m1 m2" "T \<inter> sub b = {}" "b \<noteq> x" for m1 m2 b x A T
  proof -
    have "get_ply m2 i = get_ply m1 i" if "i \<in> sub b" for i
      using agreesD [OF \<open>agrees T m1 m2\<close>, of i] that \<open>T \<inter> sub b = {}\<close> by auto
    then show ?thesis using that(1,4) look_cong [of d "get_ply m1" _ "sub b" "get_ply m2"]
        tree_cong [of "sub b" "get_ply m2" "get_ply m1" d]
      by (simp add: child_def)
  qed
  have "\<exists>m'. foldM f m xs = Some m' \<and> I (set xs) m'"
  proof (rule foldM_inv [OF xs])
    show "I {} m" using t by (auto simp: I_def child_def own_def)
  next
    fix x A m1 assume x: "x \<in> set xs" "x \<notin> A" and IA: "I A m1"
    from IA obtain p where a: "agrees S m m1" and p: "get_ply m1 ix = Some p" "poolIndex p = ix"
      and o: "\<And>b. own p b A" and c: "\<And>b. \<not> isTerminal (leaves p0 b) \<Longrightarrow> child m1 b A"
      by (auto simp: I_def)
    have len1: "plen (plyPool m1) \<le> length (arr (plyPool m1))" using a len by (simp add: agrees_def)
    have px: "leaves p x = leaves p0 x" "lens p x = lens p0 x"
      using o [of x] x(2) t(4) [of x] unfolding own_def by metis+
    note st = step [OF x(1) p(1) px t(4)]
    show "\<exists>m2. f m1 x = Some m2 \<and> I (insert x A) m2"
    proof (cases "isTerminal (leaves p0 x)")
      case False
      from c [OF False] have "tree d (get_ply m1) (plyIndex (leaves p0 x)) (sub x)" by (simp add: child_def)
      from R [OF this len1] obtain m2 where m2: "R m1 (plyIndex (leaves p0 x)) = Some m2" "agrees (sub x) m1 m2"
        "tree d (get_ply m2) (plyIndex (leaves p0 x)) (sub x)"
        "\<forall>bs. look (get_ply m2) (plyIndex (leaves p0 x)) bs = paint l n (look (get_ply m1) (plyIndex (leaves p0 x)) bs)"
        by auto
      have "child m2 x (insert x A)" using m2(3,4) c [OF False] x(2) by (simp add: child_def)
      then have "child m2 b (insert x A)" if "\<not> isTerminal (leaves p0 b)" for b
        using keep [OF c m2(2)] t(7) that by (cases "b = x") metis+
      moreover have "get_ply m2 ix = Some p" using agreesD [OF m2(2) t(6)] p(1) by simp
      moreover have "own p b (insert x A)" for b
        using o [of b] False unfolding own_def by (cases "b = x") (simp_all only: if_False if_True insert_iff simp_thms)
      moreover have "agrees S m m2" by (rule agrees_trans [OF a m2(2)]) (use t(8) in auto)
      ultimately have "I (insert x A) m2" using p(2) by (intro I_I)
      then show ?thesis using st False m2(1) by auto
    next
      case True
      show ?thesis
      proof (cases "lens p0 x \<le> n")
        case False
        then have f: "f m1 x = Some m1" using st True by auto
        have "own p b (insert x A)" for b
          using o [of b] False unfolding own_def by (cases "b = x") (simp_all only: if_False if_True insert_iff simp_thms)
        moreover have "child m1 b (insert x A)" if "\<not> isTerminal (leaves p0 b)" for b
          using c [OF that] that True unfolding child_def by (cases "b = x") simp_all
        ultimately have "I (insert x A) m1" using a p by (auto intro!: I_I)
        then show ?thesis using f by simp
      next
        case leq: True
        then obtain p' where p': "f m1 x = set_ply m1 ix p'" "leaves p' = (leaves p)(x := l)"
          "lens p' = (lens p)(x := n)" "poolIndex p' = poolIndex p" using st True by auto
        obtain m2 where m2: "set_ply m1 ix p' = Some m2" "agrees {ix} m1 m2" "get_ply m2 ix = Some p'"
          using set_ply_ok [OF p(1) len1] by metis
        have "child m2 b (insert x A)" if "\<not> isTerminal (leaves p0 b)" for b
        proof -
          have "b \<noteq> x" using that True by auto
          then show ?thesis using keep [OF c [OF that] m2(2), of x] t(6) [of b] by simp
        qed
        moreover have "own p' b (insert x A)" for b
        proof (cases "b = x")
          case eq: True
          show ?thesis unfolding eq own_def using True leq by (simp add: p'(2,3))
        next
          case False
          then have "own p' b (insert x A) \<longleftrightarrow> own p b A" unfolding own_def by (simp add: p'(2,3))
          then show ?thesis using o by simp
        qed
        moreover have "agrees S m m2" by (rule agrees_trans [OF a m2(2)]) (use t(8) in auto)
        ultimately have "I (insert x A) m2" using p(2) p'(4) m2(3) by (intro I_I [of m2 p']) simp_all
        then show ?thesis using p'(1) m2(1) by auto
      qed
    qed
  qed
  then obtain m' p where m': "foldM f m xs = Some m'" "agrees S m m'" "get_ply m' ix = Some p" "poolIndex p = ix"
    and o: "\<And>b. own p b (set xs)" and c: "\<And>b. \<not> isTerminal (leaves p0 b) \<Longrightarrow> child m' b (set xs)"
    by (auto simp: I_def)
  have trm: "isTerminal (leaves p b) \<longleftrightarrow> isTerminal (leaves p0 b)"
    "\<not> isTerminal (leaves p0 b) \<Longrightarrow> leaves p b = leaves p0 b \<and> lens p b = 0" for b
    using o [of b] l by (auto simp: own_def split: if_splits)
  have "tree (Suc d) (get_ply m') ix S"
  proof (rule tree_SucI [of _ _ p sub])
    show "sub b = {}" if "isTerminal (leaves p b)" for b using t(3) that trm(1) by simp
    show "lens p b = 0 \<and> tree d (get_ply m') (plyIndex (leaves p b)) (sub b)" if "\<not> isTerminal (leaves p b)" for b
      using c [of b] trm [of b] that by (simp add: child_def)
  qed (use m' t(6-8) in simp_all)
  moreover have "look (get_ply m') ix (b # bs) =
       (if b \<in> set xs then paint l n (look (get_ply m) ix (b # bs)) else look (get_ply m) ix (b # bs))" for b bs
  proof (cases "isTerminal (leaves p0 b)")
    case True
    then show ?thesis using o [of b] m'(3) p0 trm(1) [of b] by (auto simp: own_def split: if_splits)
  next
    case False
    then show ?thesis using c [OF False] trm [of b] m'(3) p0 by (simp add: child_def)
  qed
  ultimately show ?thesis using m' by auto
qed

lemma distinct_bytes: "distinct bytes" and set_bytes [simp]: "set bytes = UNIV"
proof -
  show "distinct bytes" unfolding bytes_def distinct_map
    by (auto intro!: inj_onI simp: word_unat_eq_iff unsigned_of_nat take_bit_nat_eq_self)
  have "b \<in> set bytes" for b :: u8
    unfolding bytes_def using unat_u8_less [of b] by (auto intro!: image_eqI [of _ _ "unat b"])
  then show "set bytes = UNIV" by auto
qed

lemma setPlyWithMoreSpecificLeaf_spec:
  assumes "isTerminal l"
  shows "tree d (get_ply m) ix S \<Longrightarrow> d \<le> e \<Longrightarrow> plen (plyPool m) \<le> length (arr (plyPool m)) \<Longrightarrow>
    \<exists>m'. setPlyWithMoreSpecificLeaf e m ix l n = Some m' \<and> agrees S m m' \<and> tree d (get_ply m') ix S \<and>
      (\<forall>bs. look (get_ply m') ix bs = paint l n (look (get_ply m) ix bs))"
proof (induction d arbitrary: e m ix S)
  case (Suc d)
  from Suc.prems(1) obtain p0 where p0: "get_ply m ix = Some p0" by (rule tree_SucE) blast
  obtain e' where e: "e = Suc e'" "d \<le> e'" using Suc.prems(2) by (cases e) auto
  define f where "f m i = do {
         p \<leftarrow> get_ply m ix;
         let pl = leaves p0 i;
         if \<not> isTerminal pl then setPlyWithMoreSpecificLeaf e' m (plyIndex pl) l n
         else if lens p i \<le> n then set_ply m ix (p\<lparr>leaves := (leaves p)(i := l), lens := (lens p)(i := n),
                nNonEmpty := nNonEmpty p + (if pl \<noteq> emptyLeaf then 1 else 0)\<rparr>)
         else Some m }" for m i
  have R: "\<exists>m2. setPlyWithMoreSpecificLeaf e' m1 jx l n = Some m2 \<and> agrees T m1 m2 \<and> tree d (get_ply m2) jx T \<and>
        (\<forall>bs. look (get_ply m2) jx bs = paint l n (look (get_ply m1) jx bs))"
    if "tree d (get_ply m1) jx T" "plen (plyPool m1) \<le> length (arr (plyPool m1))" for m1 jx T
    using Suc.IH [OF that(1) e(2) that(2)] .
  have step: "if \<not> isTerminal (leaves p0 x) then f m1 x = setPlyWithMoreSpecificLeaf e' m1 (plyIndex (leaves p0 x)) l n
       else if lens p0 x \<le> n then \<exists>p'. f m1 x = set_ply m1 ix p' \<and> leaves p' = (leaves p)(x := l) \<and>
          lens p' = (lens p)(x := n) \<and> poolIndex p' = poolIndex p
       else f m1 x = Some m1" if "get_ply m1 ix = Some p" "lens p x = lens p0 x" for m1 x p
    using that by (auto simp: f_def)
  have "\<exists>m'. foldM f m bytes = Some m' \<and> agrees S m m' \<and> tree (Suc d) (get_ply m') ix S \<and>
    (\<forall>b bs. look (get_ply m') ix (b # bs) =
       (if b \<in> set bytes then paint l n (look (get_ply m) ix (b # bs)) else look (get_ply m) ix (b # bs)))"
    by (rule paint_loop [OF Suc.prems(1) assms distinct_bytes Suc.prems(3) p0 _ R, of f]) (use step in auto)
  then obtain m' where m': "foldM f m bytes = Some m'" "agrees S m m'" "tree (Suc d) (get_ply m') ix S"
    "\<And>b bs. look (get_ply m') ix (b # bs) = paint l n (look (get_ply m) ix (b # bs))" by auto
  have "look (get_ply m') ix bs = paint l n (look (get_ply m) ix bs)" for bs
    by (cases bs) (simp_all only: m'(4) look.simps(1) paint_simps)
  moreover have "setPlyWithMoreSpecificLeaf e m ix l n = Some m'"
    using m'(1) p0 unfolding e(1) f_def by simp
  ultimately show ?case using m'(2,3) by blast
qed simp

lemma isTerminal_odd: "isTerminal l \<longleftrightarrow> odd l"
  by (simp add: isTerminal_def and_one_eq odd_iff_mod_2_eq_one)

lemma terminal_setResult [simp]: "isTerminal (setResult a)"
  by (simp add: isTerminal_odd setResult_def)

lemma unat_drop_bit_1: "unat (drop_bit 1 (x :: u32)) = unat x div 2"
  unfolding unsigned_drop_bit_eq
  using take_bit_nat_eq_self [of "unat x" 32] unat_u32_less [of x] by (simp add: drop_bit_eq_div)

lemma ResultIndex_setResult: "a < 2 ^ 31 \<Longrightarrow> ResultIndex (setResult a) = a"
proof -
  assume a: "a < 2 ^ 31"
  then have u: "unat a < 2 ^ 31" by (simp add: word_less_nat_alt)
  then have "unat (1 + 2 * a) = 1 + 2 * unat a"
    by (simp add: unat_word_ariths)
  then show ?thesis
    unfolding ResultIndex_def setResult_def word_unat_eq_iff unat_drop_bit_1 by simp
qed

lemma setPlyIndex:
  assumes "i < 2 ^ 31"
  shows "\<not> isTerminal (setPlyIndex i)" and "plyIndex (setPlyIndex i) = i"
proof -
  have "unat (of_nat (2 * i) :: u32) = 2 * i"
    using assms by (simp add: unsigned_of_nat take_bit_nat_eq_self del: of_nat_mult)
  then show "plyIndex (setPlyIndex i) = i"
    unfolding plyIndex_def setPlyIndex_def unat_drop_bit_1 by simp
  show "\<not> isTerminal (setPlyIndex i)" by (simp add: isTerminal_odd setPlyIndex_def)
qed

lemma isTerminal_ply_init: "leaves (ply_init p l n) = (\<lambda>_. l)" "lens (ply_init p l n) = (\<lambda>_. n)"
  "poolIndex (ply_init p l n) = poolIndex p"
  by (simp_all add: ply_init_def)

subsection \<open>Adding a ply\<close>

definition mtrie_ok :: "mtrie \<Rightarrow> bool" where
  "mtrie_ok m \<longleftrightarrow> pool_inv (plyPool m) \<and> maxLen (pool (plyPool m)) = 0"

lemma get_ply_used: "i \<in> pool_used (plyPool m) \<Longrightarrow> \<exists>p. get_ply m i = Some p"
  by (simp add: pool_used_def get_ply_def)

lemma newPly_spec:
  assumes m: "mtrie_ok m" "plen (plyPool m) < 2 ^ 31" and nc: "\<forall>l. l \<le> nc l" and l: "isTerminal l"
  obtains jx m' where "newPly nc m l n = Some (setPlyIndex jx, jx, m')" "jx < 2 ^ 31"
    "jx \<notin> pool_used (plyPool m)" "pool_used (plyPool m') = insert jx (pool_used (plyPool m))"
    "mtrie_ok m'" "plen (plyPool m) \<le> plen (plyPool m')" "plen (plyPool m') \<le> Suc (plen (plyPool m))"
    "defaultLeaf m' = defaultLeaf m"
    "\<And>i. i \<in> pool_used (plyPool m) \<Longrightarrow> get_ply m' i = get_ply m i"
    "tree (Suc d) (get_ply m') jx {jx}"
    "\<And>b bs. look (get_ply m') jx (b # bs) = Some (l, n)"
proof -
  have len: "plen (plyPool m) < 2 ^ 32" using m(2) by simp
  from GetIndex_fresh [OF _ _ len nc, of zero_ply] m(1) obtain jx p where
    g: "GetIndex nc zero_ply (plyPool m) = Some (jx, p)" "jx \<notin> pool_used (plyPool m)"
      "pool_used p = insert jx (pool_used (plyPool m))" "pool_inv p" "plen (plyPool m) \<le> plen p"
      "plen p \<le> Suc (plen (plyPool m))" "jx < plen p" "maxLen (pool p) = 0"
      "\<forall>j < plen (plyPool m). arr p ! j = arr (plyPool m) ! j"
    unfolding mtrie_ok_def by metis
  define m1 where "m1 = m\<lparr>plyPool := p\<rparr>"
  have g1: "get_ply m1 jx = Some (arr p ! jx)" using g(7) by (simp add: m1_def get_ply_def)
  have len1: "plen (plyPool m1) \<le> length (arr (plyPool m1))" using g(4) by (simp add: m1_def pool_inv_def)
  obtain m' where m': "set_ply m1 jx (ply_init ((arr p ! jx)\<lparr>poolIndex := jx\<rparr>) l n) = Some m'" "agrees {jx} m1 m'"
    "get_ply m' jx = Some (ply_init ((arr p ! jx)\<lparr>poolIndex := jx\<rparr>) l n)"
    using set_ply_ok [OF g1 len1] by metis
  show thesis
  proof (rule that [of jx m'])
    show "newPly nc m l n = Some (setPlyIndex jx, jx, m')"
      using g(1) g1 m'(1) by (simp add: newPly_def m1_def [symmetric])
    show "jx < 2 ^ 31" using g(6,7) m(2) by simp
    show "jx \<notin> pool_used (plyPool m)" by (rule g)
    have e: "pool (plyPool m') = pool p" "plen (plyPool m') = plen p" "length (arr (plyPool m')) = length (arr p)"
      using m'(2) by (simp_all add: agrees_def m1_def)
    then show "pool_used (plyPool m') = insert jx (pool_used (plyPool m))" using g(3) by (simp add: pool_used_def)
    show "mtrie_ok m'" using e g(4,8) by (simp add: mtrie_ok_def pool_inv_def)
    show "plen (plyPool m) \<le> plen (plyPool m')" "plen (plyPool m') \<le> Suc (plen (plyPool m))" using e g(5,6) by simp_all
    show "defaultLeaf m' = defaultLeaf m" using m'(2) by (simp add: agrees_def m1_def)
    show "get_ply m' i = get_ply m i" if "i \<in> pool_used (plyPool m)" for i
    proof -
      have "i \<noteq> jx" "i < plen (plyPool m)" using that g(2) by (auto simp: pool_used_def)
      then show ?thesis using agreesD [OF m'(2), of i] g(5,9) by (simp add: m1_def get_ply_def)
    qed
    show "tree (Suc d) (get_ply m') jx {jx}"
      using l 
      by (intro tree_SucI [where g = "get_ply m'" and sub = "\<lambda>_. {}" and
          p = "ply_init ((arr p ! jx)\<lparr>poolIndex := jx\<rparr>) l n"])
        (simp_all add: isTerminal_ply_init m'(3))
    show "look (get_ply m') jx (b # bs) = Some (l, n)" for b bs
      using m'(3) l by (simp add: isTerminal_ply_init)
  qed
qed

lemma emptyLeaf_terminal [simp]: "isTerminal emptyLeaf"
  by (simp add: emptyLeaf_def AdjMiss_def isTerminal_def)

subsection \<open>Inserting a prefix\<close>

text \<open>The addresses, from byte \<open>4 - d\<close> on, whose leaves \<open>setLeafHelper\<close> visits.\<close>

primrec key_match :: "nat \<Rightarrow> addDelLeaf \<Rightarrow> u8 list \<Rightarrow> bool" where
  "key_match 0 s bs = False"
| "key_match (Suc d) s bs = (case bs of [] \<Rightarrow> False | b # cs \<Rightarrow>
     let keyByteIndex = 3 - d;
         nBits = int (unat (keyLen s)) - 8 * (int keyByteIndex + 1);
         k = key s ! keyByteIndex
     in if nBits \<le> 0 then b \<in> set (byte_range k (nat (- nBits))) else b = k \<and> key_match d s cs)"

lemma distinct_byte_range: "distinct (byte_range k n)"
proof -
  have "inj_on (of_nat :: nat \<Rightarrow> u8) {i. i < 256}"
    by (auto intro!: inj_onI simp: word_unat_eq_iff unsigned_of_nat take_bit_nat_eq_self)
  then show ?thesis unfolding byte_range_def distinct_map
    using unat_u8_less [of "k + push_bit n 1"] by (auto intro!: inj_on_subset [of _ "{i. i < 256}"])
qed

text \<open>What an insertion below ply \<open>ix\<close> does to the whole trie.\<close>

definition inserted :: "nat \<Rightarrow> addDelLeaf \<Rightarrow> mtrie \<Rightarrow> nat \<Rightarrow> nat set \<Rightarrow> mtrie \<Rightarrow> bool" where
  "inserted d s m ix S m' \<longleftrightarrow> (\<exists>S'. mtrie_ok m' \<and> S \<subseteq> S' \<and> S' \<inter> pool_used (plyPool m) \<subseteq> S \<and>
     pool_used (plyPool m') = pool_used (plyPool m) \<union> S' \<and> tree d (get_ply m') ix S' \<and>
     (\<forall>i \<in> pool_used (plyPool m) - S. get_ply m' i = get_ply m i) \<and>
     plen (plyPool m) \<le> plen (plyPool m') \<and> plen (plyPool m') \<le> plen (plyPool m) + d \<and>
     defaultLeaf m' = defaultLeaf m \<and>
     (\<forall>bs. d \<le> length bs \<longrightarrow> look (get_ply m') ix bs =
        (if key_match d s bs then paint (setResult (result s)) (keyLen s) (look (get_ply m) ix bs)
         else look (get_ply m) ix bs)))"

lemma agrees_used:
  "agrees S m m' \<Longrightarrow> pool_used (plyPool m') = pool_used (plyPool m)"
  "agrees S m m' \<Longrightarrow> mtrie_ok m \<Longrightarrow> mtrie_ok m'"
  by (auto simp: agrees_def pool_used_def mtrie_ok_def pool_inv_def)

lemma mtrie_ok_len: "mtrie_ok m \<Longrightarrow> plen (plyPool m) \<le> length (arr (plyPool m))"
  by (simp add: mtrie_ok_def pool_inv_def)

lemma insert_leaves:
  assumes t: "tree (Suc d) (get_ply m) ix S" and S: "S \<subseteq> pool_used (plyPool m)" and m: "mtrie_ok m"
    and d: "d \<le> 3" and nBits: "int (unat (keyLen s)) - 8 * (int (3 - d) + 1) \<le> 0"
  shows "\<exists>m'. setLeafHelper (Suc d) nc s m ix = Some m' \<and> inserted (Suc d) s m ix S m'"
proof -
  let ?n = "nat (- (int (unat (keyLen s)) - 8 * (int (3 - d) + 1)))"
  let ?xs = "byte_range (key s ! (3 - d)) ?n"
  let ?l = "setResult (result s)"
  from t obtain p0 where p0: "get_ply m ix = Some p0" by (rule tree_SucE) blast
  define f where "f m i = do {
           oldPly \<leftarrow> get_ply m ix;
           let oldLeaf = leaves oldPly i;
           let oldTerm = isTerminal oldLeaf;
           (if lens oldPly i \<le> keyLen s
            then let newLeaf = setResult (result s) in
              (if oldTerm
               then set_ply m ix
                 (replaceLeaf (oldPly\<lparr>lens := (lens oldPly)(i := keyLen s)\<rparr>) newLeaf oldLeaf i)
               else setPlyWithMoreSpecificLeaf 4 m (plyIndex oldLeaf) newLeaf (keyLen s))
            else if \<not> oldTerm then setLeafHelper d nc s m (plyIndex oldLeaf)
            else Some m) }" for m i
  have R: "\<exists>m2. setPlyWithMoreSpecificLeaf 4 m1 jx ?l (keyLen s) = Some m2 \<and> agrees T m1 m2 \<and>
        tree d (get_ply m2) jx T \<and>
        (\<forall>bs. look (get_ply m2) jx bs = paint ?l (keyLen s) (look (get_ply m1) jx bs))"
    if "tree d (get_ply m1) jx T" "plen (plyPool m1) \<le> length (arr (plyPool m1))" for m1 jx T
    using setPlyWithMoreSpecificLeaf_spec [OF terminal_setResult that(1) _ that(2)] d by auto
  have step: "if \<not> isTerminal (leaves p0 x)
       then f m1 x = setPlyWithMoreSpecificLeaf 4 m1 (plyIndex (leaves p0 x)) ?l (keyLen s)
       else if lens p0 x \<le> keyLen s then \<exists>p'. f m1 x = set_ply m1 ix p' \<and> leaves p' = (leaves p)(x := ?l) \<and>
          lens p' = (lens p)(x := keyLen s) \<and> poolIndex p' = poolIndex p
       else f m1 x = Some m1"
    if "get_ply m1 ix = Some p" "leaves p x = leaves p0 x" "lens p x = lens p0 x"
      "\<not> isTerminal (leaves p0 x) \<Longrightarrow> lens p0 x = 0" for m1 x p
    using that by (auto simp: f_def replaceLeaf_def)
  have "\<exists>m'. foldM f m ?xs = Some m' \<and> agrees S m m' \<and> tree (Suc d) (get_ply m') ix S \<and>
    (\<forall>b bs. look (get_ply m') ix (b # bs) =
       (if b \<in> set ?xs then paint ?l (keyLen s) (look (get_ply m) ix (b # bs)) else look (get_ply m) ix (b # bs)))"
    by (rule paint_loop [OF t terminal_setResult distinct_byte_range mtrie_ok_len [OF m] p0 _ R, where f = f])
      (rule step, assumption, assumption, assumption, blast)
  then obtain m' where m': "foldM f m ?xs = Some m'" "agrees S m m'" "tree (Suc d) (get_ply m') ix S"
    and look: "\<And>b bs. look (get_ply m') ix (b # bs) =
       (if b \<in> set ?xs then paint ?l (keyLen s) (look (get_ply m) ix (b # bs)) else look (get_ply m) ix (b # bs))"
    by auto
  have "look (get_ply m') ix bs = (if key_match (Suc d) s bs
       then paint ?l (keyLen s) (look (get_ply m) ix bs) else look (get_ply m) ix bs)" if "Suc d \<le> length bs" for bs
  proof (cases bs)
    case (Cons b cs)
    have "key_match (Suc d) s bs \<longleftrightarrow> b \<in> set ?xs" using nBits Cons by (simp add: Let_def)
    then show ?thesis using look Cons by simp
  qed simp
  then have "inserted (Suc d) s m ix S m'"
    unfolding inserted_def using m'(2,3) agrees_used [OF m'(2)] m S
    by (intro exI [of _ S]) (auto simp: agrees_def)
  moreover have "setLeafHelper (Suc d) nc s m ix = Some m'"
    using m'(1) p0 nBits by (simp add: f_def [abs_def] Let_def)
  ultimately show ?thesis by blast
qed

lemma insert_below:
  assumes nc: "\<forall>l. l \<le> nc l" and t: "tree (Suc d) (get_ply m) ix S" and S: "S \<subseteq> pool_used (plyPool m)"
    and m: "mtrie_ok m" and pl: "plen (plyPool m) + Suc d \<le> 2 ^ 31" and d: "d \<le> 3" and d0: "0 < d"
    and nBits: "\<not> int (unat (keyLen s)) - 8 * (int (3 - d) + 1) \<le> 0"
    and IH: "\<And>m ix S. tree d (get_ply m) ix S \<Longrightarrow> S \<subseteq> pool_used (plyPool m) \<Longrightarrow> mtrie_ok m \<Longrightarrow>
      plen (plyPool m) + d \<le> 2 ^ 31 \<Longrightarrow> \<exists>m'. setLeafHelper d nc s m ix = Some m' \<and> inserted d s m ix S m'"
  shows "\<exists>m'. setLeafHelper (Suc d) nc s m ix = Some m' \<and> inserted (Suc d) s m ix S m'"
proof -
  let ?k = "key s ! (3 - d)"
  from t obtain p sub where p: "get_ply m ix = Some p" "poolIndex p = ix"
    "\<And>b. isTerminal (leaves p b) \<Longrightarrow> sub b = {}"
    "\<And>b. \<not> isTerminal (leaves p b) \<Longrightarrow> lens p b = 0"
    "\<And>b. \<not> isTerminal (leaves p b) \<Longrightarrow> tree d (get_ply m) (plyIndex (leaves p b)) (sub b)"
    "\<And>b. ix \<notin> sub b" "\<And>b c. b \<noteq> c \<Longrightarrow> sub b \<inter> sub c = {}" "S = insert ix (\<Union>b. sub b)"
    by (rule tree_SucE) blast
  let ?prep = "if \<not> isTerminal (leaves p ?k) then Some (plyIndex (leaves p ?k), m)
            else do {
              (newLeaf, jx, m) \<leftarrow> newPly nc m (leaves p ?k) (lens p ?k);
              oldPly \<leftarrow> get_ply m ix;
              m \<leftarrow> set_ply m ix (oldPly\<lparr>leaves := (leaves oldPly)(?k := newLeaf),
                     lens := (lens oldPly)(?k := 0),
                     nNonEmpty := nNonEmpty oldPly - (if leaves p ?k \<noteq> emptyLeaf then 1 else 0) + 1\<rparr>);
              Some (jx, m) }"
  have ixU: "ix \<in> pool_used (plyPool m)" and subU: "sub b \<subseteq> pool_used (plyPool m)" for b
    using S p(8) by auto
  have "\<exists>cx m1 T p1. ?prep = Some (cx, m1) \<and> mtrie_ok m1 \<and> get_ply m1 ix = Some p1 \<and> poolIndex p1 = ix \<and>
     \<not> isTerminal (leaves p1 ?k) \<and> plyIndex (leaves p1 ?k) = cx \<and> lens p1 ?k = 0 \<and>
     (\<forall>b. b \<noteq> ?k \<longrightarrow> leaves p1 b = leaves p b \<and> lens p1 b = lens p b) \<and>
     tree d (get_ply m1) cx T \<and> sub ?k \<subseteq> T \<and> T \<inter> pool_used (plyPool m) \<subseteq> sub ?k \<and>
     pool_used (plyPool m1) = pool_used (plyPool m) \<union> T \<and>
     (\<forall>i \<in> pool_used (plyPool m) - {ix}. get_ply m1 i = get_ply m i) \<and>
     plen (plyPool m) \<le> plen (plyPool m1) \<and> plen (plyPool m1) \<le> plen (plyPool m) + 1 \<and>
     defaultLeaf m1 = defaultLeaf m \<and>
     (\<forall>bs. d \<le> length bs \<longrightarrow> look (get_ply m1) cx bs = look (get_ply m) ix (?k # bs))"
  proof (cases "isTerminal (leaves p ?k)")
    case False
    then show ?thesis
      by (intro exI [of _ "plyIndex (leaves p ?k)"] exI [of _ m] exI [of _ "sub ?k"] exI [of _ p])
        (use p m subU [of ?k] in auto)
  next
    case True
    obtain d' where d': "d = Suc d'" using d0 by (cases d) auto
    from pl have "plen (plyPool m) < 2 ^ 31" by simp
    from newPly_spec [OF m this nc True, where n = "lens p ?k" and d = d'] obtain jx m0 where
      n: "newPly nc m (leaves p ?k) (lens p ?k) = Some (setPlyIndex jx, jx, m0)" "jx < 2 ^ 31"
      "jx \<notin> pool_used (plyPool m)" "pool_used (plyPool m0) = insert jx (pool_used (plyPool m))"
      "mtrie_ok m0" "plen (plyPool m) \<le> plen (plyPool m0)" "plen (plyPool m0) \<le> Suc (plen (plyPool m))"
      "defaultLeaf m0 = defaultLeaf m"
      "\<And>i. i \<in> pool_used (plyPool m) \<Longrightarrow> get_ply m0 i = get_ply m i"
      "tree d (get_ply m0) jx {jx}"
      "\<And>b bs. look (get_ply m0) jx (b # bs) = Some (leaves p ?k, lens p ?k)" unfolding d' by metis
    define p1 where "p1 = p\<lparr>leaves := (leaves p)(?k := setPlyIndex jx), lens := (lens p)(?k := 0),
                     nNonEmpty := nNonEmpty p - (if leaves p ?k \<noteq> emptyLeaf then 1 else 0) + 1\<rparr>"
    have g0: "get_ply m0 ix = Some p" using n(9) [OF ixU] p(1) by simp
    obtain m1 where m1: "set_ply m0 ix p1 = Some m1" "agrees {ix} m0 m1" "get_ply m1 ix = Some p1"
      using set_ply_ok [OF g0 mtrie_ok_len [OF n(5)]] by metis
    have jix: "jx \<noteq> ix" using n(3) ixU by auto
    have tj: "tree d (get_ply m1) jx {jx}"
      using agreesD [OF m1(2)] jix by (intro tree_cong [OF _ n(10)]) auto
    have lj: "look (get_ply m1) jx bs = look (get_ply m) ix (?k # bs)" if dl: "d \<le> length bs" for bs
    proof -
      obtain b cs where "bs = b # cs" using dl d' by (cases bs) auto
      moreover have "look (get_ply m1) jx bs = look (get_ply m0) jx bs"
        using agreesD [OF m1(2)] jix by (intro look_cong [OF n(10)]) auto
      ultimately show ?thesis using n(11) True p(1) by simp
    qed
    have prep: "?prep = Some (jx, m1)"
      using True n(1) g0 m1(1) unfolding p1_def by simp
    show ?thesis
      by (intro exI [of _ jx] exI [of _ m1] exI [of _ "{jx}"] exI [of _ p1])
        (use True p(2,3) n m1 tj lj prep setPlyIndex [OF n(2)] agrees_used [OF m1(2)] agreesD [OF m1(2)] in
          \<open>auto simp: p1_def agrees_def\<close>)
  qed
  then obtain cx m1 T p1 where prep: "?prep = Some (cx, m1)" and m1: "mtrie_ok m1" "get_ply m1 ix = Some p1"
      "poolIndex p1 = ix"
    and pk: "\<not> isTerminal (leaves p1 ?k)" "plyIndex (leaves p1 ?k) = cx" "lens p1 ?k = 0"
    and pb: "\<And>b. b \<noteq> ?k \<Longrightarrow> leaves p1 b = leaves p b \<and> lens p1 b = lens p b"
    and T: "tree d (get_ply m1) cx T" "sub ?k \<subseteq> T" "T \<inter> pool_used (plyPool m) \<subseteq> sub ?k"
      "pool_used (plyPool m1) = pool_used (plyPool m) \<union> T"
    and g1: "\<And>i. i \<in> pool_used (plyPool m) - {ix} \<Longrightarrow> get_ply m1 i = get_ply m i"
    and pl1: "plen (plyPool m) \<le> plen (plyPool m1)" "plen (plyPool m1) \<le> plen (plyPool m) + 1"
      "defaultLeaf m1 = defaultLeaf m"
    and lk: "\<And>bs. d \<le> length bs \<Longrightarrow> look (get_ply m1) cx bs = look (get_ply m) ix (?k # bs)"
    by blast
  have TU: "T \<subseteq> pool_used (plyPool m1)" and pl1': "plen (plyPool m1) + d \<le> 2 ^ 31" using T(4) pl1(2) pl by simp_all
  obtain d' where d': "d = Suc d'" using d0 by (cases d) auto
  obtain np where np: "get_ply m1 cx = Some np" "poolIndex np = cx"
    using T(1) unfolding d' by (rule tree_SucE) blast
  from IH [OF T(1) TU m1(1) pl1'] obtain m' T' where
    m': "setLeafHelper d nc s m1 cx = Some m'" "mtrie_ok m'" "T \<subseteq> T'" "T' \<inter> pool_used (plyPool m1) \<subseteq> T"
     "pool_used (plyPool m') = pool_used (plyPool m1) \<union> T'" "tree d (get_ply m') cx T'"
     "\<And>i. i \<in> pool_used (plyPool m1) - T \<Longrightarrow> get_ply m' i = get_ply m1 i"
     "plen (plyPool m1) \<le> plen (plyPool m')" "plen (plyPool m') \<le> plen (plyPool m1) + d"
     "defaultLeaf m' = defaultLeaf m1"
    and look': "\<And>bs. d \<le> length bs \<Longrightarrow> look (get_ply m') cx bs =
        (if key_match d s bs then paint (setResult (result s)) (keyLen s) (look (get_ply m1) cx bs)
         else look (get_ply m1) cx bs)"
    unfolding inserted_def by blast
  have run: "setLeafHelper (Suc d) nc s m ix = Some m'"
  proof -
    have "setLeafHelper (Suc d) nc s m ix = do {
         (newPlyIndex, m) \<leftarrow> ?prep;
         np \<leftarrow> get_ply m newPlyIndex;
         setLeafHelper d nc s m (poolIndex np) }"
      using nBits p(1) by (simp only: setLeafHelper.simps Let_def if_False bind.bind_lunit)
    then show ?thesis unfolding prep using np m'(1) by simp
  qed
  define sub' where "sub' = sub(?k := T')"
  have ixT: "ix \<notin> T" using T(3) ixU p(6) by auto
  have subT: "sub b \<inter> T = {}" if "b \<noteq> ?k" for b using T(3) subU [of b] p(7) [OF that] by auto
  have ixT': "ix \<notin> T'" using m'(4) ixT ixU T(4) by auto
  have subT': "sub b \<inter> T' = {}" if "b \<noteq> ?k" for b using subT [OF that] m'(4) subU [of b] T(4) by blast
  have gix: "get_ply m' ix = Some p1" using m'(7) [of ix] ixU ixT T(4) m1(2) by simp
  have gsub: "get_ply m' i = get_ply m i" if "b \<noteq> ?k" "i \<in> sub b" for b i
    using m'(7) [of i] g1 [of i] subU [of b] subT [OF that(1)] that(2) p(6) [of b] T(4) by (metis DiffI UnI1 disjoint_iff empty_iff insertE subsetD)
  have t': "tree (Suc d) (get_ply m') ix (insert ix (\<Union>b. sub' b))"
  proof (rule tree_SucI [where g = "get_ply m'" and p = p1 and sub = sub'])
    show "get_ply m' ix = Some p1" "poolIndex p1 = ix" by (fact gix) (fact m1(3))
    show "sub' b = {}" if "isTerminal (leaves p1 b)" for b
      using that pk(1) pb [of b] p(3) [of b] by (cases "b = ?k") (auto simp: sub'_def)
    show "lens p1 b = 0 \<and> tree d (get_ply m') (plyIndex (leaves p1 b)) (sub' b)" if "\<not> isTerminal (leaves p1 b)" for b
    proof (cases "b = ?k")
      case True
      then show ?thesis using pk m'(6) by (simp add: sub'_def)
    next
      case False
      then show ?thesis using that pb [of b] p(4,5) [of b] tree_cong [OF gsub [OF False], where d = d]
        by (simp add: sub'_def)
    qed
    show "ix \<notin> sub' b" for b using p(6) ixT' by (simp add: sub'_def)
    show "sub' b \<inter> sub' c = {}" if "b \<noteq> c" for b c
      using that p(7) subT' by (auto simp: sub'_def)
  qed simp
  have look: "look (get_ply m') ix bs = (if key_match (Suc d) s bs
       then paint (setResult (result s)) (keyLen s) (look (get_ply m) ix bs) else look (get_ply m) ix bs)"
    if len: "Suc d \<le> length bs" for bs
  proof -
    obtain b cs where bs: "bs = b # cs" "d \<le> length cs" using len by (cases bs) auto
    have km: "key_match (Suc d) s bs \<longleftrightarrow> b = ?k \<and> key_match d s cs"
      unfolding bs key_match.simps list.case Let_def using nBits by (simp only: if_False)
    show ?thesis
    proof (cases "b = ?k")
      case True
      have "look (get_ply m') ix bs = look (get_ply m') cx cs" using bs True gix pk by simp
      then show ?thesis using look' [OF bs(2)] lk [OF bs(2)] km True bs(1) by simp
    next
      case False
      have "look (get_ply m') (plyIndex (leaves p b)) cs = look (get_ply m) (plyIndex (leaves p b)) cs"
        if "\<not> isTerminal (leaves p b)"
        using look_cong [OF p(5) [OF that] gsub [OF False]] by simp
      then show ?thesis using False km bs(1) gix p(1) pb [OF False] by simp
    qed
  qed
  have "inserted (Suc d) s m ix S m'"
    unfolding inserted_def
  proof (intro exI [of _ "insert ix (\<Union>b. sub' b)"] conjI allI impI)
    have "sub b \<subseteq> sub' b" for b using m'(3) T(2) by (cases "b = ?k") (auto simp: sub'_def)
    then show "S \<subseteq> insert ix (\<Union>b. sub' b)" using p(8) by blast
    show "insert ix (\<Union>b. sub' b) \<inter> pool_used (plyPool m) \<subseteq> S"
      using p(8) m'(4) T(3,4) by (auto simp: sub'_def split: if_splits)
    show "pool_used (plyPool m') = pool_used (plyPool m) \<union> insert ix (\<Union>b. sub' b)"
    proof -
      have "sub' b \<subseteq> pool_used (plyPool m) \<union> T'" for b
        using subU [of b] by (cases "b = ?k") (auto simp: sub'_def)
      moreover have "T' = sub' ?k" by (simp add: sub'_def)
      ultimately show ?thesis using m'(3,5) T(4) ixU by blast
    qed
    show "\<forall>i \<in> pool_used (plyPool m) - S. get_ply m' i = get_ply m i"
    proof
      fix i assume i: "i \<in> pool_used (plyPool m) - S"
      then have "i \<noteq> ix" "i \<notin> sub ?k" using p(8) by auto
      then have "i \<notin> T" using T(3) i by auto
      then show "get_ply m' i = get_ply m i" using m'(7) [of i] g1 [of i] i \<open>i \<noteq> ix\<close> T(4) by simp
    qed
  qed (use m' pl1 t' look in simp_all)
  with run show ?thesis by blast
qed

lemma setLeafHelper_spec:
  assumes nc: "\<forall>l. l \<le> nc l" and len: "keyLen s \<le> 32"
  shows "tree d (get_ply m) ix S \<Longrightarrow> d \<le> 4 \<Longrightarrow> S \<subseteq> pool_used (plyPool m) \<Longrightarrow> mtrie_ok m \<Longrightarrow>
    plen (plyPool m) + d \<le> 2 ^ 31 \<Longrightarrow> \<exists>m'. setLeafHelper d nc s m ix = Some m' \<and> inserted d s m ix S m'"
proof (induction d arbitrary: m ix S)
  case (Suc d)
  show ?case
  proof (cases "int (unat (keyLen s)) - 8 * (int (3 - d) + 1) \<le> 0")
    case True
    then show ?thesis using insert_leaves [OF Suc.prems(1,3,4)] Suc.prems(2) by simp
  next
    case False
    have "uint (keyLen s) \<le> 32" using len by (simp add: word_le_def)
    then have "0 < d" using False by (cases d) auto
    then show ?thesis
      using insert_below [OF nc Suc.prems(1,3,4,5) _ _ False] Suc.IH Suc.prems(2) by simp
  qed
qed simp

subsection \<open>Which addresses an insertion covers\<close>

text \<open>The last key byte an insertion reads, and how many of its low bits are free.\<close>

definition last_byte :: "nat \<Rightarrow> nat" where
  "last_byte l = (l - 1) div 8"

definition free_bits :: "nat \<Rightarrow> nat" where
  "free_bits l = 8 * (last_byte l + 1) - l"

text \<open>The block of leaves does not end at leaf 255: the bound of the loop does not wrap.\<close>

definition block_fits :: "Address \<Rightarrow> nat \<Rightarrow> bool" where
  "block_fits a l \<longleftrightarrow> unat (a ! last_byte l) + 2 ^ free_bits l < 256"

definition masked_key :: "Address \<Rightarrow> nat \<Rightarrow> bool" where
  "masked_key a l \<longleftrightarrow> (\<forall>i. l \<le> i \<and> i < 32 \<longrightarrow> \<not> addr_bit a i)"

lemma unat_bound_u8:
  assumes "n \<le> 7"
  shows "unat (k + push_bit n 1 :: u8) = (unat k + 2 ^ n) mod 256"
proof -
  have "(2::nat) ^ n \<le> 2 ^ 7" using assms by (intro power_increasing) auto
  then have "unat (push_bit n 1 :: u8) = 2 ^ n"
    using assms by (simp add: unsigned_push_bit_eq take_bit_nat_eq_self)
  then show ?thesis by (simp add: unat_word_ariths)
qed

lemma set_byte_range:
  "set (byte_range k n) = {b. unat k \<le> unat b \<and> unat b < unat (k + push_bit n 1)}"
proof -
  have "b \<in> set (byte_range k n)" if "unat k \<le> unat b" "unat b < unat (k + push_bit n 1)" for b
    unfolding byte_range_def using that by (auto intro!: image_eqI [of _ _ "unat b"])
  moreover have "unat b = i" if "b = (of_nat i :: u8)" "i < unat (k + push_bit n 1)" for b i
    using that unat_u8_less [of "k + push_bit n 1"] by (simp add: unsigned_of_nat take_bit_nat_eq_self)
  ultimately show ?thesis unfolding byte_range_def by auto
qed

lemma byte_range_fits:
  assumes "n \<le> 7" "unat k + 2 ^ n < 256" "2 ^ n dvd unat k"
  shows "b \<in> set (byte_range k n) \<longleftrightarrow> drop_bit n b = drop_bit n k"
proof -
  obtain q where q: "unat k = 2 ^ n * q" using assms(3) by blast
  have "b \<in> set (byte_range k n) \<longleftrightarrow> 2 ^ n * q \<le> unat b \<and> unat b < 2 ^ n * q + 2 ^ n"
    using assms unfolding set_byte_range unat_bound_u8 [OF assms(1)] q by simp
  also have "\<dots> \<longleftrightarrow> unat b div 2 ^ n = q"
    by (metis (no_types, lifting) add.commute div_nat_eqI div_times_less_eq_dividend dividend_less_times_div
        mult.commute mult_Suc_right zero_less_numeral zero_less_power)
  also have "\<dots> \<longleftrightarrow> unat b div 2 ^ n = unat k div 2 ^ n" using q by simp
  also have "\<dots> \<longleftrightarrow> drop_bit n b = drop_bit n k"
  proof -
    have "unat (drop_bit n x) = unat x div 2 ^ n" for x :: u8
      unfolding unsigned_drop_bit_eq using take_bit_nat_eq_self [of "unat x" 8] unat_u8_less [of x]
      by (simp add: drop_bit_eq_div)
    then show ?thesis by (simp add: word_unat_eq_iff)
  qed
  finally show ?thesis .
qed

lemma byte_range_wraps:
  assumes "n \<le> 7" "unat k + 2 ^ n = 256"
  shows "byte_range k n = []"
  unfolding byte_range_def unat_bound_u8 [OF assms(1)] assms(2) by simp

lemma drop_bit_eq_u8: "drop_bit n b = drop_bit n (k :: u8) \<longleftrightarrow> (\<forall>i. i + n < 8 \<longrightarrow> bit b (7 - i) = bit k (7 - i))"
proof
  assume *: "drop_bit n b = drop_bit n k"
  show "\<forall>i. i + n < 8 \<longrightarrow> bit b (7 - i) = bit k (7 - i)"
  proof (intro allI impI)
    fix i assume "i + n < 8"
    then have "7 - i = n + (7 - i - n)" by simp
    then show "bit b (7 - i) = bit k (7 - i)" using * by (metis bit_drop_bit_eq comp_apply)
  qed
next
  assume *: "\<forall>i. i + n < 8 \<longrightarrow> bit b (7 - i) = bit k (7 - i)"
  show "drop_bit n b = drop_bit n k"
  proof (rule bit_word_eqI)
    fix j assume "j < LENGTH(8)"
    have "bit b (n + j) = bit k (n + j)"
    proof (cases "n + j < 8")
      case True
      then have "7 - (7 - (n + j)) = n + j" "7 - (n + j) + n < 8" by auto
      then show ?thesis using * by metis
    qed simp
    then show "bit (drop_bit n b) j = bit (drop_bit n k) j" by (simp add: bit_drop_bit_eq)
  qed
qed

lemma dvd_low_bits: "(\<And>j. j < n \<Longrightarrow> \<not> bit (k :: u8) j) \<Longrightarrow> 2 ^ n dvd unat k"
proof -
  assume "\<And>j. j < n \<Longrightarrow> \<not> bit k j"
  then have "take_bit n (unat k) = 0"
    by (intro bit_eqI) (auto simp: bit_take_bit_iff bit_unsigned_iff)
  then show ?thesis by (simp add: take_bit_eq_mod dvd_eq_mod_eq_0)
qed

lemma addr_bit_split: "r < 8 \<Longrightarrow> addr_bit a (8 * j + r) = bit (a ! j) (7 - r)"
  by (simp add: addr_bit_def)

lemma bits_int: "int l - 8 * (int j + 1) \<le> 0 \<longleftrightarrow> l \<le> 8 * (j + 1)"
  "nat (- (int l - 8 * (int j + 1))) = 8 * (j + 1) - l"
  by (simp, linarith) (simp add: nat_minus_as_int)

lemma key_match_prefix:
  assumes L: "unat (keyLen s) = l" "l \<le> 32" and fits: "block_fits (key s) l" and mk: "masked_key (key s) l"
    and bs: "length bs = 4"
  shows "d \<le> 4 \<Longrightarrow> 8 * (4 - d) < l \<Longrightarrow>
    key_match d s (drop (4 - d) bs) \<longleftrightarrow> (\<forall>i. 8 * (4 - d) \<le> i \<and> i < l \<longrightarrow> addr_bit bs i = addr_bit (key s) i)"
proof (induction d)
  case (Suc d)
  let ?j = "3 - d"
  have j: "4 - Suc d = ?j" "?j < 4" using Suc.prems(1) by auto
  have dr: "drop ?j bs = bs ! ?j # drop (Suc ?j) bs"
    using j(2) bs by (simp add: Cons_nth_drop_Suc)
  show ?case
  proof (cases "l \<le> 8 * (?j + 1)")
    case True
    let ?n = "8 * (?j + 1) - l"
    have lb: "last_byte l = ?j" unfolding last_byte_def using True Suc.prems(2) j(1)
      by (intro div_nat_eqI) auto
    have n: "?n \<le> 7" using Suc.prems(2) j(1) by simp
    have f: "unat (key s ! ?j) + 2 ^ ?n < 256" using fits by (simp add: block_fits_def free_bits_def lb)
    have low: "\<not> bit (key s ! ?j) i" if "i < ?n" for i
    proof -
      have "addr_bit (key s) (8 * ?j + (7 - i)) = bit (key s ! ?j) (7 - (7 - i))"
        by (rule addr_bit_split) simp
      moreover have "l \<le> 8 * ?j + (7 - i)" "8 * ?j + (7 - i) < 32" "7 - (7 - i) = i" using that n j(2) by auto
      ultimately show ?thesis using mk by (metis masked_key_def)
    qed
    have "key_match (Suc d) s (drop ?j bs) \<longleftrightarrow> bs ! ?j \<in> set (byte_range (key s ! ?j) ?n)"
    proof -
      have "int (unat (keyLen s)) - 8 * (int ?j + 1) \<le> 0" "nat (- (int (unat (keyLen s)) - 8 * (int ?j + 1))) = ?n"
        using True bits_int [of l ?j] unfolding L(1) by simp_all
      then show ?thesis unfolding dr key_match.simps list.case Let_def by (simp only: if_True)
    qed
    also have "\<dots> \<longleftrightarrow> drop_bit ?n (bs ! ?j) = drop_bit ?n (key s ! ?j)"
      by (rule byte_range_fits [OF n f dvd_low_bits]) (rule low)
    also have "\<dots> \<longleftrightarrow> (\<forall>i. i + ?n < 8 \<longrightarrow> addr_bit bs (8 * ?j + i) = addr_bit (key s) (8 * ?j + i))"
      unfolding drop_bit_eq_u8 by (auto simp: addr_bit_split)
    also have "\<dots> \<longleftrightarrow> (\<forall>i. 8 * ?j \<le> i \<and> i < l \<longrightarrow> addr_bit bs i = addr_bit (key s) i)"
    proof (rule iffI; intro allI impI)
      fix i assume *: "\<forall>i. i + ?n < 8 \<longrightarrow> addr_bit bs (8 * ?j + i) = addr_bit (key s) (8 * ?j + i)"
        and i: "8 * ?j \<le> i \<and> i < l"
      have "(i - 8 * ?j) + ?n < 8" "8 * ?j + (i - 8 * ?j) = i" using i True n by auto
      then show "addr_bit bs i = addr_bit (key s) i" using * by metis
    next
      fix i assume *: "\<forall>i. 8 * ?j \<le> i \<and> i < l \<longrightarrow> addr_bit bs i = addr_bit (key s) i" and i: "i + ?n < 8"
      then show "addr_bit bs (8 * ?j + i) = addr_bit (key s) (8 * ?j + i)" using True by auto
    qed
    finally show ?thesis using j(1) by simp
  next
    case False
    then have d: "0 < d" using L(2) by (cases d) auto
    then have j': "4 - d = Suc ?j" using Suc.prems(1) by simp
    have "key_match (Suc d) s (drop ?j bs) \<longleftrightarrow> bs ! ?j = key s ! ?j \<and> key_match d s (drop (4 - d) bs)"
    proof -
      have "\<not> int (unat (keyLen s)) - 8 * (int ?j + 1) \<le> 0" using False bits_int [of l ?j] unfolding L(1) by simp
      then show ?thesis unfolding dr j' key_match.simps list.case Let_def by (simp only: if_False)
    qed
    also have "\<dots> \<longleftrightarrow> (\<forall>i < 8. addr_bit bs (8 * ?j + i) = addr_bit (key s) (8 * ?j + i)) \<and>
      (\<forall>i. 8 * (4 - d) \<le> i \<and> i < l \<longrightarrow> addr_bit bs i = addr_bit (key s) i)"
      using Suc.IH False Suc.prems(1) d drop_bit_eq_u8 [of 0 "bs ! ?j" "key s ! ?j"] j'
      by (simp add: addr_bit_split)
    also have "\<dots> \<longleftrightarrow> (\<forall>i. 8 * ?j \<le> i \<and> i < l \<longrightarrow> addr_bit bs i = addr_bit (key s) i)"
      (is "?A \<and> ?B \<longleftrightarrow> ?C")
    proof
      assume AB: "?A \<and> ?B"
      show ?C
      proof (intro allI impI)
        fix i assume i: "8 * ?j \<le> i \<and> i < l"
        show "addr_bit bs i = addr_bit (key s) i"
        proof (cases "8 * (4 - d) \<le> i")
          case False
          then have "i - 8 * ?j < 8" "8 * ?j + (i - 8 * ?j) = i" using i j' by auto
          then show ?thesis using AB by metis
        qed (use AB i in blast)
      qed
    next
      assume C: ?C
      then show "?A \<and> ?B" using False j' by auto
    qed
    finally show ?thesis using j(1) by simp
  qed
qed (use L(2) in simp)

subsection \<open>The operations on a whole trie\<close>

definition mtrie_inv :: "mtrie \<Rightarrow> bool" where
  "mtrie_inv m \<longleftrightarrow> mtrie_ok m \<and> (\<exists>S. tree 4 (get_ply m) 0 S \<and> S \<subseteq> pool_used (plyPool m))"

text \<open>The leaf an address ends in, with the length of the prefix that put it there.\<close>

definition mtrie_leaf :: "mtrie \<Rightarrow> Address \<Rightarrow> (leaf \<times> u8) option" where
  "mtrie_leaf m a = look (get_ply m) 0 a"

lemma four: "(4 :: nat) = Suc 3"
  by simp

lemma mtrie_leaf_Some: "mtrie_inv m \<Longrightarrow> length a = 4 \<Longrightarrow> \<exists>l n. mtrie_leaf m a = Some (l, n) \<and> isTerminal l"
  unfolding mtrie_inv_def mtrie_leaf_def using look_Some by fastforce

lemma lookup_loop_look:
  "tree d (get_ply m) ix S \<Longrightarrow> d \<le> length bs \<Longrightarrow>
     lookup_loop m ix bs = map_option (ResultIndex \<circ> fst) (look (get_ply m) ix bs)"
proof (induction d arbitrary: ix S bs)
  case (Suc d)
  from Suc.prems(1) obtain p sub where t: "get_ply m ix = Some p"
    "\<And>b. \<not> isTerminal (leaves p b) \<Longrightarrow> tree d (get_ply m) (plyIndex (leaves p b)) (sub b)"
    by (rule tree_SucE) blast
  obtain b cs where bs: "bs = b # cs" "d \<le> length cs" using Suc.prems(2) by (cases bs) auto
  show ?case using t Suc.IH [OF t(2) bs(2)] bs(1) by simp
qed simp

lemma mtrie_inv_plen: "mtrie_inv m \<Longrightarrow> plen (plyPool m) \<noteq> 0 \<and> (\<exists>p. get_ply m 0 = Some p)"
proof -
  assume "mtrie_inv m"
  then obtain S where "tree (Suc 3) (get_ply m) 0 S" unfolding mtrie_inv_def four by blast
  then show ?thesis by (rule tree_SucE) (auto simp: get_ply_def split: if_splits)
qed

lemma mtrie_lookup_leaf:
  assumes "mtrie_inv m" "length a = 4"
  shows "mtrie_lookup m a = map_option (ResultIndex \<circ> fst) (mtrie_leaf m a)"
proof -
  obtain S where S: "tree 4 (get_ply m) 0 S" using assms(1) by (auto simp: mtrie_inv_def)
  have "lookup_loop m 0 a = map_option (ResultIndex \<circ> fst) (look (get_ply m) 0 a)"
    using lookup_loop_look [OF S, of a] assms(2) by simp
  then show ?thesis using mtrie_inv_plen [OF assms(1)] by (auto simp: mtrie_lookup_def mtrie_leaf_def)
qed

lemma mtrie_set_spec:
  assumes "mtrie_inv m" and nc: "\<forall>l. l \<le> nc l" and "plen (plyPool m) + 4 \<le> 2 ^ 31" "keyLen s \<le> 32"
  shows "\<exists>m'. mtrie_set nc s m = Some m' \<and> mtrie_inv m' \<and> plen (plyPool m') \<le> plen (plyPool m) + 4 \<and>
    defaultLeaf m' = defaultLeaf m \<and>
    (\<forall>a. length a = 4 \<longrightarrow> mtrie_leaf m' a =
       (if key_match 4 s a then paint (setResult (result s)) (keyLen s) (mtrie_leaf m a) else mtrie_leaf m a))"
proof -
  from assms(1) obtain S where S: "mtrie_ok m" "tree 4 (get_ply m) 0 S" "S \<subseteq> pool_used (plyPool m)"
    by (auto simp: mtrie_inv_def)
  from setLeafHelper_spec [OF nc assms(4) S(2) _ S(3,1) assms(3)] obtain m' where
    m': "setLeafHelper 4 nc s m 0 = Some m'" "inserted 4 s m 0 S m'" by auto
  then show ?thesis unfolding mtrie_set_def inserted_def mtrie_inv_def mtrie_leaf_def
    by (intro exI [of _ m']) auto
qed

lemma mtrie_init_spec:
  assumes nc: "\<forall>l. l \<le> nc l"
  shows "\<exists>m. mtrie_init nc new_mtrie = Some m \<and> mtrie_inv m \<and> plen (plyPool m) \<le> 1 \<and>
    (\<forall>a. length a = 4 \<longrightarrow> mtrie_leaf m a = Some (emptyLeaf, 0))"
proof -
  let ?m = "new_mtrie\<lparr>defaultLeaf := emptyLeaf\<rparr>"
  have ok: "mtrie_ok ?m" "plen (plyPool ?m) < 2 ^ 31" "pool_used (plyPool ?m) = {}" "plen (plyPool ?m) = 0"
    using new_pool_inv
    by (simp_all add: mtrie_ok_def new_mtrie_def) (simp_all add: new_pool_def)
  from newPly_spec [OF ok(1,2) nc emptyLeaf_terminal, where n = 0 and d = 3] obtain jx m where
    m: "newPly nc ?m emptyLeaf 0 = Some (setPlyIndex jx, jx, m)" "jx < 2 ^ 31"
    "pool_used (plyPool m) = insert jx (pool_used (plyPool ?m))" "mtrie_ok m"
    "plen (plyPool m) \<le> Suc (plen (plyPool ?m))" "tree 4 (get_ply m) jx {jx}"
    "\<And>b bs. look (get_ply m) jx (b # bs) = Some (emptyLeaf, 0)"
    unfolding four by metis
  have "jx \<in> pool_used (plyPool m)" using m(3) by simp
  then have "jx = 0" using m(5) ok(4) by (simp add: pool_used_def)
  then show ?thesis using m ok(4) setPlyIndex [OF m(2)] unfolding mtrie_init_def mtrie_inv_def mtrie_leaf_def
    by (intro exI [of _ m]) (auto simp: length_4)
qed

text \<open>Inserting a prefix whose last block of leaves does not reach leaf 255.\<close>

lemma set_prefix_leaf:
  assumes "mtrie_inv m" "\<forall>l. l \<le> nc l" "plen (plyPool m) + 4 \<le> 2 ^ 31"
    and l: "unat (keyLen s) = l" "0 < l" "l \<le> 32" and key: "masked_key (key s) l" "block_fits (key s) l"
  shows "\<exists>m'. mtrie_set nc s m = Some m' \<and> mtrie_inv m' \<and> plen (plyPool m') \<le> plen (plyPool m) + 4 \<and>
    (\<forall>a. length a = 4 \<longrightarrow> mtrie_leaf m' a =
       (if \<forall>i < l. addr_bit a i = addr_bit (key s) i
        then paint (setResult (result s)) (keyLen s) (mtrie_leaf m a) else mtrie_leaf m a))"
proof -
  have "keyLen s \<le> 32" using l by (simp add: word_le_nat_alt)
  from mtrie_set_spec [OF assms(1-3) this] obtain m' where m': "mtrie_set nc s m = Some m'" "mtrie_inv m'"
    "plen (plyPool m') \<le> plen (plyPool m) + 4"
    "\<And>a. length a = 4 \<Longrightarrow> mtrie_leaf m' a =
       (if key_match 4 s a then paint (setResult (result s)) (keyLen s) (mtrie_leaf m a) else mtrie_leaf m a)"
    by auto
  have "key_match 4 s a \<longleftrightarrow> (\<forall>i < l. addr_bit a i = addr_bit (key s) i)" if "length a = 4" for a
    using key_match_prefix [OF l(1,3) key(2,1) that, of 4] l(2) by simp
  then show ?thesis using m' by auto
qed

text \<open>A prefix of at most 8 bits whose block of leaves ends at leaf 255 changes no leaf at all.\<close>

lemma set_prefix_lost:
  assumes l: "unat (keyLen s) = l" "0 < l" "l \<le> 8" and k: "unat (key s ! 0) + 2 ^ (8 - l) = 256"
    and m: "get_ply m 0 \<noteq> None"
  shows "mtrie_set nc s m = Some m"
proof -
  have n: "int (unat (keyLen s)) - 8 * (int 0 + 1) \<le> 0" "nat (- (int (unat (keyLen s)) - 8 * (int 0 + 1))) = 8 - l"
    using bits_int [of l 0] l by simp_all
  have "byte_range (key s ! 0) (8 - l) = []" using byte_range_wraps [OF _ k] l by simp
  moreover have "nat (8 - int (unat (keyLen s))) = 8 - l" using n(2) by simp
  ultimately show ?thesis using m n(1) unfolding mtrie_set_def four setLeafHelper.simps Let_def
    by (auto simp del: of_nat_unat)
qed

subsection \<open>Properties\<close>

text \<open>C2: Inserting a masked prefix whose last block of leaves does not reach leaf 255 succeeds, keeps the
  plies a tree, allocates at most four plies, and changes exactly the leaves of the addresses under the
  prefix that held a route no more specific.\<close>

theorem mtrie_set_prefix:
  assumes "mtrie_inv m" "\<forall>l. l \<le> nc l" "plen (plyPool m) + 4 \<le> 2 ^ 31" "unat (keyLen s) = l" "0 < l" "l \<le> 32"
    "masked_key (key s) l" "block_fits (key s) l"
  shows "\<exists>m'. mtrie_set nc s m = Some m' \<and> mtrie_inv m' \<and> plen (plyPool m') \<le> plen (plyPool m) + 4 \<and>
    (\<forall>a. length a = 4 \<longrightarrow> mtrie_leaf m' a =
       (if \<forall>i < l. addr_bit a i = addr_bit (key s) i
        then paint (setResult (result s)) (keyLen s) (mtrie_leaf m a) else mtrie_leaf m a))"
  by (rule set_prefix_leaf [OF assms])

lemma mtrie_set_prefix_witness:
  "\<exists>m m'. mtrie_inv m \<and> mtrie_set (\<lambda>l. l) \<lparr>key = [10, 1, 0, 0], keyLen = 16, result = 9\<rparr> m = Some m' \<and> mtrie_inv m'"
proof -
  obtain m where m: "mtrie_inv m" "plen (plyPool m) \<le> 1" using mtrie_init_spec [of "\<lambda>l. l"] by auto
  have "i div 8 = 2 \<or> i div 8 = 3" if "16 \<le> i" "i < 32" for i :: nat using that by arith
  then have k: "masked_key [10, 1, 0, 0] 16" by (fastforce simp: masked_key_def addr_bit_def)
  have b: "block_fits [10, 1, 0, 0] 16" by (simp add: block_fits_def last_byte_def free_bits_def)
  show ?thesis
    by (rule exE [OF mtrie_set_prefix [OF m(1), of "\<lambda>l. l" "\<lparr>key = [10, 1, 0, 0], keyLen = 16, result = 9\<rparr>" 16]])
      (use m k b in \<open>simp_all, blast\<close>)
qed

end
