(* ===== verification/Fib.thy ===== *)
theory Fib
  imports Mtrie
begin

section \<open>The two tables of an IPv4 FIB: vnet/ip4/fib.go\<close>

text \<open>
  A \<open>Fib\<close> keeps its routes twice: in maps by prefix length, for accounting, and in the trie,
  for lookups. \<open>addDel_tables\<close> is the part of \<open>addDel\<close> that changes the tables (the hooks and
  the next-hop bookkeeping around it are not modelled). The theorems show when the two tables
  agree after a history of adds, and where they part.
\<close>

record 'h Fib =
  f_index :: FibIndex
  reachable :: "'h MapFib"
  unreachable :: "'h MapFib"
  f_mtrie :: mtrie

definition new_fib :: "FibIndex \<Rightarrow> 'h Fib" where
  "new_fib i = \<lparr>f_index = i, reachable = replicate 33 None, unreachable = replicate 33 None,
     f_mtrie = new_mtrie\<rparr>"

definition Fib_Len :: "'h Fib \<Rightarrow> nat" where
  "Fib_Len f = (\<Sum>mo\<leftarrow>reachable f. case mo of None \<Rightarrow> 0 | Some m \<Rightarrow> fcard (fmdom m))"

definition setLessSpecific :: "(nat \<Rightarrow> nat) \<Rightarrow> 'h Fib \<Rightarrow> Prefix \<Rightarrow> ('h Fib \<times> 'h mapFibResult \<times> Prefix \<times> bool) option" where
  "setLessSpecific nc f p' = do {
     (r, p, ok) \<leftarrow> getLessSpecific (reachable f) p';
     if ok then do {
       m \<leftarrow> mtrie_set nc \<lparr>key = Prefix.Address p, keyLen = ucast (Len p), result = adj r\<rparr> (f_mtrie f);
       Some (f\<lparr>f_mtrie := m\<rparr>, r, p, ok) }
     else Some (f, r, p, ok) }"

definition addDel_tables :: "(nat \<Rightarrow> nat) \<Rightarrow> 'h Fib \<Rightarrow> Prefix \<Rightarrow> Adj \<Rightarrow> bool \<Rightarrow> ('h Fib \<times> Adj \<times> bool) option" where
  "addDel_tables nc f p r isDel = do {
     (reach, oldAdj, ok) \<leftarrow> (if isDel then MapFib_Unset (reachable f) p else MapFib_Set (reachable f) p r);
     let f = f\<lparr>reachable := reach\<rparr>;
     m \<leftarrow> (if plen (plyPool (f_mtrie f)) = 0 then mtrie_init nc (f_mtrie f) else Some (f_mtrie f));
     let f = f\<lparr>f_mtrie := m\<rparr>;
     let s = \<lparr>key = Address_Mask (Prefix.Address p) (unat (Len p)), keyLen = ucast (Len p), result = r\<rparr>;
     f \<leftarrow> (if isDel
        then if Len p = 0 then Some (f\<lparr>f_mtrie := m\<lparr>defaultLeaf := emptyLeaf\<rparr>\<rparr>)
          else do {
            (m, d) \<leftarrow> mtrie_unset s m;
            (f, x) \<leftarrow> setLessSpecific nc (f\<lparr>f_mtrie := m\<rparr>) p;
            Some f }
        else if Len p = 0 then Some (f\<lparr>f_mtrie := m\<lparr>defaultLeaf := setResult (result s)\<rparr>\<rparr>)
          else do { m \<leftarrow> mtrie_set nc s m; Some (f\<lparr>f_mtrie := m\<rparr>) });
     Some (f, oldAdj, ok) }"

definition Fib_Get :: "'h Fib \<Rightarrow> Prefix \<Rightarrow> (Adj \<times> bool) option" where
  "Fib_Get f p = do {
     (r, ok) \<leftarrow> MapFib_Get (reachable f) p;
     Some (if ok then adj r else AdjNil, ok) }"

definition Fib_Lookup :: "'h Fib \<Rightarrow> Address \<Rightarrow> Adj option" where
  "Fib_Lookup f a = mtrie_lookup (f_mtrie f) a"

text \<open>A history of adds to the tables.\<close>

definition add_routes :: "(nat \<Rightarrow> nat) \<Rightarrow> 'h Fib \<Rightarrow> (Prefix \<times> Adj) list \<Rightarrow> 'h Fib option" where
  "add_routes nc f ops = foldM (\<lambda>f (p, r). map_option fst (addDel_tables nc f p r False)) f ops"

subsection \<open>The best route of an address\<close>

primrec best :: "'h MapFib \<Rightarrow> Address \<Rightarrow> nat \<Rightarrow> (nat \<times> 'h mapFibResult) option" where
  "best m a 0 = None"
| "best m a (Suc l) = (case route m (Suc l) (AsUint32 a AND netMask (Suc l)) of
     Some r \<Rightarrow> Some (Suc l, r) | None \<Rightarrow> best m a l)"

definition best_leaf :: "(nat \<times> 'h mapFibResult) option \<Rightarrow> leaf \<times> u8" where
  "best_leaf b = (case b of None \<Rightarrow> (emptyLeaf, 0) | Some (l, r) \<Rightarrow> (setResult (adj r), of_nat l))"

lemma best_le: "best m a n = Some (l, r) \<Longrightarrow> l \<le> n \<and> 0 < l"
  by (induction n) (auto split: option.splits)

lemma best_route: "best m a n = Some (l, r) \<Longrightarrow> route m l (AsUint32 a AND netMask l) = Some r"
  by (induction n) (auto split: option.splits)

lemma best_other:
  assumes "\<And>l. l \<le> n \<Longrightarrow> 0 < l \<Longrightarrow> route m' l (AsUint32 a AND netMask l) = route m l (AsUint32 a AND netMask l)"
  shows "best m' a n = best m a n"
  using assms
proof (induction n)
  case (Suc n)
  have "best m' a n = best m a n" by (rule Suc.IH) (rule Suc.prems, simp_all)
  then show ?case using Suc.prems [of "Suc n"] by (simp split: option.split)
qed simp

lemma best_update:
  assumes "0 < l"
    and "\<And>l'. l' \<le> n \<Longrightarrow> route m' l' (AsUint32 a AND netMask l') =
      (if l' = l then Some r else route m l' (AsUint32 a AND netMask l'))"
  shows "best m' a n = (if n < l then best m a n else case best m a n of
      None \<Rightarrow> Some (l, r) | Some (l0, r0) \<Rightarrow> if l0 \<le> l then Some (l, r) else Some (l0, r0))"
  using assms(2)
proof (induction n)
  case (Suc n)
  have IH: "best m' a n = (if n < l then best m a n else case best m a n of
      None \<Rightarrow> Some (l, r) | Some (l0, r0) \<Rightarrow> if l0 \<le> l then Some (l, r) else Some (l0, r0))"
    by (rule Suc.IH) (rule Suc.prems, simp)
  show ?case
  proof (cases "Suc n = l")
    case True
    then show ?thesis using Suc.prems [of "Suc n"] best_le [of m a n] by (auto split: option.splits)
  next
    case False
    then show ?thesis using IH Suc.prems [of "Suc n"] by (auto split: option.splits)
  qed
qed (use assms(1) in simp)

lemma Lookup_best:
  assumes "length m = 33"
  shows "n \<le> 32 \<Longrightarrow> map_option (adj \<circ> fst) (Lookup_loop m a n) = Some (case best m a n of
     Some (l, r) \<Rightarrow> adj r
   | None \<Rightarrow> (case route m 0 (AsUint32 a AND netMask 0) of Some r \<Rightarrow> adj r | None \<Rightarrow> AdjMiss))"
proof (induction n)
  case 0
  show ?case using assms
    by (cases "route m 0 (AsUint32 a AND netMask 0)") (simp_all add: Lookup_loop_route)
next
  case (Suc n)
  then show ?case using Lookup_loop_route [OF assms Suc.prems]
    by (cases "route m (Suc n) (AsUint32 a AND netMask (Suc n))") simp_all
qed

subsection \<open>Masked keys\<close>

lemma addr_bit_Mask:
  "i < 32 \<Longrightarrow> l \<le> 32 \<Longrightarrow> addr_bit (Address_Mask a l) i \<longleftrightarrow> i < l \<and> addr_bit a i"
  by (auto simp: addr_bit_host Address_Mask_def AsUint32_FromUint32 swap32_and bit_and_iff bit_netMask)

lemma masked_key_Mask: "l \<le> 32 \<Longrightarrow> masked_key (Address_Mask a l) l"
  by (simp add: masked_key_def addr_bit_Mask)

lemma MatchesPrefix_Mask:
  assumes "Len p \<le> 32" "length a = 4" "length (Prefix.Address p) = 4"
  shows "MatchesPrefix a p \<longleftrightarrow>
    (\<forall>i < unat (Len p). addr_bit a i = addr_bit (Address_Mask (Prefix.Address p) (unat (Len p))) i)"
  using assms by (auto simp: MatchesPrefix_iff addr_bit_Mask unat_Len_le)


subsection \<open>The trie refines the maps\<close>

definition fib_sim :: "'h Fib \<Rightarrow> bool" where
  "fib_sim f \<longleftrightarrow> length (reachable f) = 33 \<and> (\<forall>k. route (reachable f) 0 k = None) \<and>
     (\<forall>l k r. l < 33 \<longrightarrow> route (reachable f) l k = Some r \<longrightarrow> adj r < 2 ^ 31) \<and>
     mtrie_inv (f_mtrie f) \<and>
     (\<forall>a. length a = 4 \<longrightarrow> mtrie_leaf (f_mtrie f) a = Some (best_leaf (best (reachable f) a 32)))"

text \<open>A route the trie can hold: a proper prefix, a short adjacency, a block that fits.\<close>

definition route_fits :: "Prefix \<times> Adj \<Rightarrow> bool" where
  "route_fits pr \<longleftrightarrow> (case pr of (p, r) \<Rightarrow> 0 < Len p \<and> Len p \<le> 32 \<and> length (Prefix.Address p) = 4 \<and> r < 2 ^ 31 \<and>
     block_fits (Address_Mask (Prefix.Address p) (unat (Len p))) (unat (Len p)))"

lemma fib_sim_lookup:
  assumes "fib_sim f" "length a = 4"
  shows "Fib_Lookup f a = map_option (adj \<circ> fst) (MapFib_Lookup (reachable f) a)"
proof -
  have len: "length (reachable f) = 33" and z: "route (reachable f) 0 k = None" for k
    using assms(1) by (simp_all add: fib_sim_def)
  have "Fib_Lookup f a = Some (ResultIndex (fst (best_leaf (best (reachable f) a 32))))"
    using assms(2) mtrie_lookup_leaf [of "f_mtrie f" a] assms(1) [unfolded fib_sim_def] by (simp add: Fib_Lookup_def)
  also have "\<dots> = Some (case best (reachable f) a 32 of Some (l, r) \<Rightarrow> adj r | None \<Rightarrow> AdjMiss)"
  proof (cases "best (reachable f) a 32")
    case None
    then show ?thesis by (simp add: best_leaf_def emptyLeaf_def AdjMiss_def ResultIndex_def)
  next
    case (Some lr)
    obtain l r where lr: "lr = (l, r)" by (cases lr)
    have "l < 33" using best_le [of "reachable f" a 32 l r] Some lr by simp
    moreover have "route (reachable f) l (AsUint32 a AND netMask l) = Some r"
      using best_route [of "reachable f" a 32 l r] Some lr by simp
    ultimately have "adj r < 2 ^ 31" using assms(1) unfolding fib_sim_def by blast
    then show ?thesis using Some lr by (simp add: best_leaf_def ResultIndex_setResult)
  qed
  also have "\<dots> = map_option (adj \<circ> fst) (MapFib_Lookup (reachable f) a)"
    unfolding MapFib_Lookup_def Lookup_best [OF len order_refl] by (simp add: z split: option.split)
  finally show ?thesis .
qed

lemma fib_sim_add:
  assumes f: "length (reachable f) = 33" "\<forall>k. route (reachable f) 0 k = None"
     "\<forall>l k r. l < 33 \<longrightarrow> route (reachable f) l k = Some r \<longrightarrow> adj r < 2 ^ 31"
    and m: "(if plen (plyPool (f_mtrie f)) = 0 then mtrie_init nc (f_mtrie f) else Some (f_mtrie f)) = Some m"
     "mtrie_inv m" "\<forall>a. length a = 4 \<longrightarrow> mtrie_leaf m a = Some (best_leaf (best (reachable f) a 32))"
     "plen (plyPool m) + 4 \<le> 2 ^ 31"
    and nc: "\<forall>l. l \<le> nc l" and pr: "route_fits (p, r)"
  shows "\<exists>f' x. addDel_tables nc f p r False = Some (f', x) \<and> fib_sim f' \<and>
    plen (plyPool (f_mtrie f')) \<le> plen (plyPool m) + 4"
proof -
  define l where "l = unat (Len p)"
  have p: "0 < l" "l \<le> 32" "Len p \<le> 32" "Len p \<noteq> 0" "length (Prefix.Address p) = 4" "r < 2 ^ 31"
    "block_fits (Address_Mask (Prefix.Address p) l) l"
    using pr by (auto simp: route_fits_def l_def unat_Len_le word_less_nat_alt unat_gt_0)
  obtain reach' where reach':
    "MapFib_Set (reachable f) p r = Some (reach', case route (reachable f) (unat (Len p)) (mapFibKey p) of None \<Rightarrow> AdjNil | Some r \<Rightarrow> adj r, True)"
    "length reach' = 33"
    "\<And>l k. l < 33 \<Longrightarrow> route reach' l k =
       (if l = unat (Len p) \<and> k = mapFibKey p
        then Some ((case route (reachable f) l k of None \<Rightarrow> zeroResult | Some r \<Rightarrow> r)\<lparr>adj := r\<rparr>)
        else route (reachable f) l k)"
    using MapFib_Set_eq [OF f(1) p(3)] by metis
  let ?s = "\<lparr>key = Address_Mask (Prefix.Address p) l, keyLen = ucast (Len p), result = r\<rparr>"
  have kl: "unat (keyLen ?s) = l" using p(2) by (simp add: l_def unsigned_ucast_eq take_bit_nat_eq_self)
  from set_prefix_leaf [OF m(2) nc m(4) kl p(1,2)] masked_key_Mask [OF p(2)] p(7) obtain m' where
    m': "mtrie_set nc ?s m = Some m'" "mtrie_inv m'" "plen (plyPool m') \<le> plen (plyPool m) + 4"
     "\<And>a. length a = 4 \<Longrightarrow> mtrie_leaf m' a =
       (if \<forall>i < l. addr_bit a i = addr_bit (key ?s) i
        then paint (setResult (result ?s)) (keyLen ?s) (mtrie_leaf m a) else mtrie_leaf m a)" by auto
  define f' where "f' = f\<lparr>reachable := reach', f_mtrie := m'\<rparr>"
  have run: "\<exists>x. addDel_tables nc f p r False = Some (f', x)"
    using reach'(1) m(1) m'(1) p(4)
    by (cases "plen (plyPool (f_mtrie f)) = 0") (auto simp add: addDel_tables_def f'_def l_def Let_def)
  have leaf: "mtrie_leaf m' a = Some (best_leaf (best reach' a 32))" if a: "length a = 4" for a
  proof -
    have mp: "MatchesPrefix a p \<longleftrightarrow> (\<forall>i < l. addr_bit a i = addr_bit (key ?s) i)"
      using MatchesPrefix_Mask [OF p(3) a p(5)] by (simp add: l_def)
    show ?thesis
    proof (cases "MatchesPrefix a p")
      case False
      have "best reach' a 32 = best (reachable f) a 32"
        by (rule best_other) (use False reach'(3) in \<open>auto simp: MatchesPrefix_eq Mask_def\<close>)
      moreover have "mtrie_leaf m' a = mtrie_leaf m a"
        using m'(4) [OF a] False unfolding mp by (simp only: if_False)
      ultimately show ?thesis using m(3) a by simp
    next
      case True
      let ?r = "(case route (reachable f) l (mapFibKey p) of None \<Rightarrow> zeroResult | Some r \<Rightarrow> r)\<lparr>adj := r\<rparr>"
      have key: "mapFibKey p = AsUint32 a AND netMask l"
        using True by (simp add: MatchesPrefix_eq Mask_def l_def)
      have "route reach' l' (AsUint32 a AND netMask l') =
          (if l' = l then Some ?r else route (reachable f) l' (AsUint32 a AND netMask l'))" if "l' \<le> 32" for l'
        using that reach'(3) [of l' "AsUint32 a AND netMask l'"] key by (auto simp: l_def)
      from best_update [OF p(1) this] p(2)
      have up: "best reach' a 32 = (case best (reachable f) a 32 of
          None \<Rightarrow> Some (l, ?r) | Some (l0, r0) \<Rightarrow> if l0 \<le> l then Some (l, ?r) else Some (l0, r0))"
        by simp
      have old: "mtrie_leaf m a = Some (best_leaf (best (reachable f) a 32))" using m(3) a by simp
      have new: "mtrie_leaf m' a = paint (setResult r) (ucast (Len p)) (mtrie_leaf m a)"
        using m'(4) [OF a] True mp by simp
      have ul: "(ucast (Len p) :: u8) = of_nat l" using kl by (metis addDelLeaf.select_convs(2) of_nat_unat ucast_id)
      have le: "(of_nat l0 :: u8) \<le> of_nat l \<longleftrightarrow> l0 \<le> l" if "l0 \<le> 32" for l0
        using that p(2) by (simp add: word_le_nat_alt unsigned_of_nat take_bit_nat_eq_self)
      show ?thesis
      proof (cases "best (reachable f) a 32")
        case None
        then show ?thesis using up new old ul by (simp add: best_leaf_def)
      next
        case (Some lr)
        obtain l0 r0 where lr: "lr = (l0, r0)" by (cases lr)
        have "l0 \<le> 32" using best_le Some lr by metis
        then show ?thesis using up new old ul le [of l0] Some lr by (simp add: best_leaf_def)
      qed
    qed
  qed
  have z: "route reach' 0 k = None" for k using reach'(3) [of 0 k] f(2) p(1) by (simp add: l_def)
  have b: "adj r' < 2 ^ 31" if "l' < 33" "route reach' l' k = Some r'" for l' k r'
    using reach'(3) [OF that(1), of k] that(2) f(3) that(1) p(6) by (auto split: if_splits)
  have "fib_sim f'"
    using reach'(2) m'(2) leaf z b by (auto simp: fib_sim_def f'_def)
  then show ?thesis using run m'(3) by (auto simp: f'_def)
qed

lemma add_routes_sim:
  assumes nc: "\<forall>l. l \<le> nc l"
  shows "fib_sim f \<Longrightarrow> plen (plyPool (f_mtrie f)) + 4 * length ops \<le> 2 ^ 31 \<Longrightarrow> \<forall>pr \<in> set ops. route_fits pr \<Longrightarrow>
    \<exists>f'. add_routes nc f ops = Some f' \<and> fib_sim f'"
proof (induction ops arbitrary: f)
  case (Cons pr ops)
  obtain p r where pr: "pr = (p, r)" by (cases pr)
  have inv: "mtrie_inv (f_mtrie f)" using Cons.prems(1) by (simp add: fib_sim_def)
  have "\<exists>f' x. addDel_tables nc f p r False = Some (f', x) \<and> fib_sim f' \<and>
    plen (plyPool (f_mtrie f')) \<le> plen (plyPool (f_mtrie f)) + 4"
    by (rule fib_sim_add [OF _ _ _ _ inv _ _ nc])
      (use Cons.prems mtrie_inv_plen [OF inv] pr in \<open>simp_all add: fib_sim_def\<close>)
  then obtain f' x where f': "addDel_tables nc f p r False = Some (f', x)" "fib_sim f'"
    "plen (plyPool (f_mtrie f')) \<le> plen (plyPool (f_mtrie f)) + 4" by auto
  have "plen (plyPool (f_mtrie f')) + 4 * length ops \<le> 2 ^ 31" using f'(3) Cons.prems(2) by simp
  from Cons.IH [OF f'(2) this] Cons.prems(3) show ?case using f'(1) pr by (simp add: add_routes_def)
qed (simp add: add_routes_def)

lemma new_fib_add:
  assumes nc: "\<forall>l. l \<le> nc l" and pr: "route_fits (p, r)"
  shows "\<exists>f' x. addDel_tables nc (new_fib i :: 'h Fib) p r False = Some (f', x) \<and> fib_sim f' \<and>
    plen (plyPool (f_mtrie f')) \<le> 5"
proof -
  obtain m where m: "mtrie_init nc new_mtrie = Some m" "mtrie_inv m" "plen (plyPool m) \<le> 1"
    "\<forall>a. length a = 4 \<longrightarrow> mtrie_leaf m a = Some (emptyLeaf, 0)" using mtrie_init_spec [OF nc] by blast
  have rt: "route (replicate 33 None :: 'h MapFib) l k = None" if "l < 33" for l k
    using that by (simp add: route_def)
  have "best (replicate 33 None :: 'h MapFib) a n = None" if "n \<le> 32" for a n
    using that by (induction n) (simp_all add: rt)
  then have leaf: "\<forall>a. length a = 4 \<longrightarrow> mtrie_leaf m a = Some (best_leaf (best (reachable (new_fib i :: 'h Fib)) a 32))"
    using m(4) by (simp add: new_fib_def best_leaf_def)
  have "\<exists>f' x. addDel_tables nc (new_fib i :: 'h Fib) p r False = Some (f', x) \<and> fib_sim f' \<and>
    plen (plyPool (f_mtrie f')) \<le> plen (plyPool m) + 4"
    by (rule fib_sim_add [OF _ _ _ _ m(2) leaf _ nc pr])
      (use m(1,3) rt in \<open>simp_all add: new_fib_def new_mtrie_def new_pool_def\<close>)
  then show ?thesis using m(3) by fastforce
qed

subsection \<open>Routes the trie loses\<close>

lemma add_lost:
  assumes p: "0 < Len p" "Len p \<le> 8" "length (reachable f) = 33"
    and k: "unat (Address_Mask (Prefix.Address p) (unat (Len p)) ! 0) + 2 ^ (8 - unat (Len p)) = 256"
    and m: "(if plen (plyPool (f_mtrie f)) = 0 then mtrie_init nc (f_mtrie f) else Some (f_mtrie f)) = Some m"
      "get_ply m 0 \<noteq> None"
  shows "\<exists>f' x. addDel_tables nc f p r False = Some (f', x) \<and> f_mtrie f' = m \<and> MapFib_adj (reachable f') p = Some r"
proof -
  have l: "0 < unat (Len p)" "unat (Len p) \<le> 8" using p(1,2) by (simp_all add: word_le_nat_alt word_less_nat_alt unat_gt_0)
  have p32: "Len p \<le> 32" using l by (simp add: unat_Len_le)
  from mapfib.put_ok [OF p(3) p32, of r] obtain reach' where
    "map_option fst (MapFib_Set (reachable f) p r) = Some reach'" "length reach' = 33"
    "MapFib_adj reach' p = Some r" using p32 by (auto simp: same_prefix_def)
  then obtain x where reach': "MapFib_Set (reachable f) p r = Some (reach', x)" "MapFib_adj reach' p = Some r" by auto
  let ?s = "\<lparr>key = Address_Mask (Prefix.Address p) (unat (Len p)), keyLen = ucast (Len p), result = r\<rparr>"
  have kl: "unat (keyLen ?s) = unat (Len p)" using l by (simp add: unsigned_ucast_eq take_bit_nat_eq_self)
  have "mtrie_set nc ?s m = Some m" by (rule set_prefix_lost [OF kl l _ m(2)]) (use k in simp)
  then show ?thesis using reach' m(1) p(1)
    by (cases "plen (plyPool (f_mtrie f)) = 0") (auto simp: addDel_tables_def Let_def)
qed

lemma new_fib_init:
  assumes "\<forall>l. l \<le> nc l"
  obtains m where "(if plen (plyPool (f_mtrie (new_fib i))) = 0 then mtrie_init nc (f_mtrie (new_fib i))
      else Some (f_mtrie (new_fib i))) = Some m" "mtrie_inv m" "\<And>a. length a = 4 \<Longrightarrow> mtrie_leaf m a = Some (emptyLeaf, 0)"
  using mtrie_init_spec [OF assms] by (auto simp: new_fib_def new_mtrie_def new_pool_def)

lemma lookup_empty:
  "mtrie_inv m \<Longrightarrow> length a = 4 \<Longrightarrow> mtrie_leaf m a = Some (emptyLeaf, 0) \<Longrightarrow> mtrie_lookup m a = Some AdjMiss"
  by (simp add: mtrie_lookup_leaf emptyLeaf_def AdjMiss_def ResultIndex_def)

subsection \<open>Properties\<close>

text \<open>C1: After any history of adds of proper prefixes whose last block of leaves does not reach leaf 255
  (and with 31-bit adjacencies), the trie answers every lookup with the adjacency of the longest
  matching prefix of the map FIB.\<close>

theorem fib_lookup_refines:
  assumes "\<forall>l. l \<le> nc l" "\<forall>pr \<in> set ops. route_fits pr" "length ops \<le> 2 ^ 28" "length a = 4"
  shows "\<exists>f. add_routes nc (new_fib i) ops = Some f \<and>
    Fib_Lookup f a = map_option (adj \<circ> fst) (MapFib_Lookup (reachable f) a)"
proof (cases ops)
  case Nil
  have rt: "route (replicate 33 None :: 'a MapFib) l k = None" if "l < 33" for l k
    using that by (simp add: route_def)
  have "best (replicate 33 None :: 'a MapFib) a n = None" if "n \<le> 32" for n
    using that by (induction n) (simp_all add: rt)
  then have "map_option (adj \<circ> fst) (MapFib_Lookup (replicate 33 None :: 'a MapFib) a) = Some AdjMiss"
    unfolding MapFib_Lookup_def by (subst Lookup_best) (simp_all add: rt)
  moreover have "Fib_Lookup (new_fib i :: 'a Fib) a = Some AdjMiss"
    by (simp add: Fib_Lookup_def mtrie_lookup_def new_fib_def new_mtrie_def new_pool_def)
  moreover have "add_routes nc (new_fib i :: 'a Fib) ops = Some (new_fib i)"
    using Nil by (simp add: add_routes_def)
  moreover have "reachable (new_fib i :: 'a Fib) = replicate 33 None" by (simp add: new_fib_def)
  ultimately show ?thesis by (intro exI [of _ "new_fib i"]) (simp only: simp_thms)
next
  case (Cons pr ops')
  obtain p r where pr: "pr = (p, r)" by (cases pr)
  have "route_fits (p, r)" using assms(2) Cons pr by simp
  from new_fib_add [OF assms(1) this, of i] obtain f1 :: "'a Fib" and x where
    f1: "addDel_tables nc (new_fib i) p r False = Some (f1, x)" "fib_sim f1" "plen (plyPool (f_mtrie f1)) \<le> 5"
    by blast
  have "plen (plyPool (f_mtrie f1)) + 4 * length ops' \<le> 2 ^ 31" using f1(3) assms(3) Cons by simp
  from add_routes_sim [OF assms(1) f1(2) this] assms(2) Cons obtain f where
    "add_routes nc f1 ops' = Some f" "fib_sim f" by auto
  then show ?thesis using f1(1) Cons pr fib_sim_lookup [OF _ assms(4)]
    by (intro exI [of _ f]) (simp add: add_routes_def)
qed

lemma fib_lookup_refines_witness:
  "\<exists>f. add_routes (\<lambda>l. l) (new_fib 0 :: nat Fib)
      [(\<lparr>Address = [10, 0, 0, 0], Len = 8\<rparr>, 7), (\<lparr>Address = [10, 1, 0, 0], Len = 17\<rparr>, 9)] = Some f \<and>
    Fib_Lookup f [10, 1, 100, 1] = map_option (adj \<circ> fst) (MapFib_Lookup (reachable f) [10, 1, 100, 1])"
  by (rule fib_lookup_refines) 
    (simp_all add: route_fits_def block_fits_def last_byte_def free_bits_def Address_Mask_def AsUint32_def
      FromUint32_def netMask_def swap32_def Let_def push_bit_of_1)



text \<open>C4: A default route alone is never found by a lookup: the trie keeps it in a leaf that no lookup reads.\<close>

theorem fib_default_route_missed:
  assumes "\<forall>l. l \<le> nc l" "Len p = 0" "length a = 4"
  shows "\<exists>f. add_routes nc (new_fib i) [(p, r)] = Some f \<and>
    defaultLeaf (f_mtrie f) = setResult r \<and> Fib_Lookup f a = Some AdjMiss"
proof -
  obtain m where m: "(if plen (plyPool (f_mtrie (new_fib i :: 'a Fib))) = 0 then mtrie_init nc (f_mtrie (new_fib i :: 'a Fib))
      else Some (f_mtrie (new_fib i :: 'a Fib))) = Some m" "mtrie_inv m" "mtrie_leaf m a = Some (emptyLeaf, 0)"
    using new_fib_init [OF assms(1), of i] assms(3) by metis
  have "length (reachable (new_fib i :: 'a Fib)) = 33" by (simp add: new_fib_def)
  moreover have "Len p \<le> 32" using assms(2) by simp
  ultimately obtain reach' x where "MapFib_Set (reachable (new_fib i :: 'a Fib)) p r = Some (reach', x)"
    by (metis MapFib_Set_eq surj_pair)
  then have "\<exists>f x. addDel_tables nc (new_fib i :: 'a Fib) p r False = Some (f, x) \<and>
      f_mtrie f = m\<lparr>defaultLeaf := setResult r\<rparr>"
    using m(1) assms(2) by (auto simp: addDel_tables_def Let_def new_fib_def)
  then obtain f x where f: "addDel_tables nc (new_fib i :: 'a Fib) p r False = Some (f, x)"
    "f_mtrie f = m\<lparr>defaultLeaf := setResult r\<rparr>" by blast
  have "mtrie_lookup (m\<lparr>defaultLeaf := v\<rparr>) a = mtrie_lookup m a" for v
  proof -
    have "get_ply (m\<lparr>defaultLeaf := v\<rparr>) = get_ply m" by (rule ext) (simp add: get_ply_def)
    moreover have "lookup_loop (m\<lparr>defaultLeaf := v\<rparr>) ix b = lookup_loop m ix b" for ix b
      by (induction b arbitrary: ix) (simp_all add: calculation Let_def cong: if_cong)
    ultimately show ?thesis by (simp add: mtrie_lookup_def)
  qed
  then show ?thesis using f lookup_empty [OF m(2) assms(3) m(3)]
    by (auto simp: add_routes_def Fib_Lookup_def)
qed

lemma fib_default_route_missed_witness:
  "\<exists>f. add_routes (\<lambda>l. l) (new_fib 0 :: nat Fib) [(\<lparr>Address = [0, 0, 0, 0], Len = 0\<rparr>, 7)] = Some f \<and>
    defaultLeaf (f_mtrie f) = setResult 7 \<and> Fib_Lookup f [1, 2, 3, 4] = Some AdjMiss"
  by (rule fib_default_route_missed) simp_all

end
