(* ===== verification/Checksum.thy ===== *)
theory Checksum
  imports Ip4_Prefix
begin

section \<open>The internet checksum: vnet/ip/checksum.go, vnet/ip4/packet.go, vnet/icmp4/packet.go\<close>

text \<open>
  A checksum is a 64-bit word summed with end-around carry, folded to 16 bits at the end. The
  machine is little endian, so a load of several bytes has its first byte lowest, and a header
  field of two bytes is held as the machine loads it. A header is the record of its fields; the
  code's view of it as an array of words is the load of its bytes.
\<close>

definition AddWithCarry :: "u64 \<Rightarrow> u64 \<Rightarrow> u64" where
  "AddWithCarry s x = (let t = s + x in if t < x then t + 1 else t)"

fun AddBytes_32 :: "u64 \<times> u64 \<times> u64 \<times> u64 \<Rightarrow> u8 list \<Rightarrow> (u64 \<times> u64 \<times> u64 \<times> u64) \<times> u8 list" where
  "AddBytes_32 (s0, s1, s2, s3) b =
     (if length b \<ge> 32
      then AddBytes_32 (AddWithCarry s0 (load (take 8 b)), AddWithCarry s1 (load (take 8 (drop 8 b))),
             AddWithCarry s2 (load (take 8 (drop 16 b))), AddWithCarry s3 (load (take 8 (drop 24 b)))) (drop 32 b)
      else ((s0, s1, s2, s3), b))"

fun AddBytes_n :: "nat \<Rightarrow> u64 \<Rightarrow> u8 list \<Rightarrow> u64 \<times> u8 list" where
  "AddBytes_n n s b = (if 0 < n \<and> n \<le> length b then AddBytes_n n (AddWithCarry s (load (take n b))) (drop n b)
     else (s, b))"

declare AddBytes_32.simps [simp del] AddBytes_n.simps [simp del]

definition AddBytes :: "u64 \<Rightarrow> u8 list \<Rightarrow> u64" where
  "AddBytes c b = (
     let ((s0, s1, s2, s3), b) = AddBytes_32 (0, 0, 0, 0) b;
         (s0, b) = AddBytes_n 8 s0 b;
         (s0, b) = AddBytes_n 2 s0 b;
         s0 = (if b \<noteq> [] then AddWithCarry s0 (ucast (b ! 0)) else s0)
     in AddWithCarry (AddWithCarry (AddWithCarry (AddWithCarry c s0) s1) s2) s3)"

definition Fold :: "u64 \<Rightarrow> u16" where
  "Fold c = (
     let m1 = 0xffffffff; m2 = 0xffff;
         c = (c AND m1) + drop_bit 32 c;
         c = (c AND m2) + drop_bit 16 c;
         c = (c AND m2) + drop_bit 16 c;
         c = (c AND m2) + drop_bit 16 c
     in ucast c)"

definition AddEven :: "u64 \<Rightarrow> u64 \<Rightarrow> u64" where
  "AddEven c x = (let d = c - x in if c < d then d - 1 else d)"

definition SubEven :: "u64 \<Rightarrow> u64 \<Rightarrow> u64" where
  "SubEven c x = AddWithCarry c x"

subsection \<open>IPv4 and ICMP headers\<close>

record Header =
  Ip_version_and_header_length :: u8
  Tos :: u8
  Length :: u16
  Fragment_id :: u16
  Flags_and_fragment_offset :: u16
  Ttl :: u8
  Protocol :: u8
  hChecksum :: u16
  Src :: Address
  Dst :: Address

definition bytes16 :: "u16 \<Rightarrow> u8 list" where
  "bytes16 w = [ucast w, ucast (drop_bit 8 w)]"

definition header_bytes :: "Header \<Rightarrow> u8 list" where
  "header_bytes h = [Ip_version_and_header_length h, Tos h] @ bytes16 (Length h) @ bytes16 (Fragment_id h) @
     bytes16 (Flags_and_fragment_offset h) @ [Ttl h, Protocol h] @ bytes16 (hChecksum h) @ Src h @ Dst h"

definition header_checksum :: "Header \<Rightarrow> u16" where
  "header_checksum h = (
     let b = header_bytes h;
         c = load (take 8 b);
         c = AddWithCarry c (load (take 8 (drop 8 b)));
         c = AddWithCarry c (load (take 4 (drop 16 b)))
     in NOT (Fold c))"

definition ComputeChecksum :: "Header \<Rightarrow> u16" where
  "ComputeChecksum h = header_checksum (h\<lparr>hChecksum := 0\<rparr>)"

definition GetHeaderFlags :: "Header \<Rightarrow> u16" where
  "GetHeaderFlags h = swap16 (Flags_and_fragment_offset h)"

text \<open>\<open>Write\<close> to a slice: the header as it is left, and the bytes of the slice.\<close>

definition header_Write :: "Header \<Rightarrow> u8 list \<Rightarrow> Header \<times> u8 list" where
  "header_Write h b = (
     let h = h\<lparr>Length := swap16 (of_nat (length b)), hChecksum := 0\<rparr>;
         h = h\<lparr>hChecksum := header_checksum h\<rparr>
     in (h, take (length b) (header_bytes h) @ drop 20 b))"

record icmp_Header =
  icmp_Type :: u8
  icmp_Code :: u8
  icmp_Checksum :: u16

definition icmp_bytes :: "icmp_Header \<Rightarrow> u8 list" where
  "icmp_bytes h = [icmp_Type h, icmp_Code h] @ bytes16 (icmp_Checksum h)"

definition icmp_checksum :: "icmp_Header \<Rightarrow> u8 list \<Rightarrow> u16" where
  "icmp_checksum h payload = NOT (Fold (AddBytes (load (icmp_bytes h)) payload))"

definition icmp_Write :: "icmp_Header \<Rightarrow> u8 list \<Rightarrow> (icmp_Header \<times> u8 list) option" where
  "icmp_Write h b = do {
     panic_unless (4 \<le> length b);
     let h = h\<lparr>icmp_Checksum := 0\<rparr>;
     let h = h\<lparr>icmp_Checksum := icmp_checksum h (drop 4 b)\<rparr>;
     Some (h, icmp_bytes h @ drop 4 b) }"

subsection \<open>End-around carry is addition modulo \<open>2^64 - 1\<close>\<close>

abbreviation M64 :: nat where "M64 \<equiv> 2 ^ 64 - 1"

lemma unat_AddWithCarry:
  "unat (AddWithCarry a b) = (if unat a + unat b < 2 ^ 64 then unat a + unat b else unat a + unat b - M64)"
proof -
  have ab: "unat a < 2 ^ 64" "unat b < 2 ^ 64" by (rule unat_u64_less)+
  have t: "unat (a + b) = (unat a + unat b) mod 2 ^ 64" by (simp add: unat_word_ariths)
  show ?thesis
  proof (cases "unat a + unat b < 2 ^ 64")
    case True
    then have u: "unat (a + b) = unat a + unat b" using t by simp
    then have "\<not> a + b < b" by (simp add: word_less_nat_alt)
    then show ?thesis using True u by (simp add: AddWithCarry_def)
  next
    case False
    then have u: "unat (a + b) = unat a + unat b - 2 ^ 64"
      using t ab by (simp add: mod_if)
    then have "a + b < b" using ab False by (simp add: word_less_nat_alt)
    moreover have "unat (a + b + 1) = unat (a + b) + 1"
      using u ab by (simp add: unat_word_ariths)
    ultimately show ?thesis using u False by (simp add: AddWithCarry_def)
  qed
qed

text \<open>Two sums the ones' complement arithmetic does not tell apart: congruent, and zero together.\<close>

definition ones_eq :: "nat \<Rightarrow> nat \<Rightarrow> bool" where
  "ones_eq a b \<longleftrightarrow> a mod 65535 = b mod 65535 \<and> (a = 0 \<longleftrightarrow> b = 0)"

named_theorems ones_intro \<open>congruence rules of ones' complement sums\<close>

lemma ones_refl [ones_intro]: "ones_eq a a"
  by (simp add: ones_eq_def)

lemma ones_trans [trans]: "ones_eq a b \<Longrightarrow> ones_eq b c \<Longrightarrow> ones_eq a c"
  by (simp add: ones_eq_def)

lemma ones_add [ones_intro]: "ones_eq a b \<Longrightarrow> ones_eq c d \<Longrightarrow> ones_eq (a + c) (b + d)"
  unfolding ones_eq_def by (metis add_is_0 mod_add_eq)

lemma ones_fold: "ones_eq (x mod 2 ^ 16 + x div 2 ^ 16) x" "ones_eq (x mod 2 ^ 32 + x div 2 ^ 32) x"
proof -
  have x: "x = x mod 2 ^ 16 + x div 2 ^ 16 + 65535 * (x div 2 ^ 16)"
    "x = x mod 2 ^ 32 + x div 2 ^ 32 + 65535 * (65537 * (x div 2 ^ 32))"
    using mod_mult_div_eq [of x "2 ^ 16"] mod_mult_div_eq [of x "2 ^ 32"] by simp_all
  have m: "(x mod 2 ^ 16 + x div 2 ^ 16) mod 65535 = x mod 65535" "(x mod 2 ^ 32 + x div 2 ^ 32) mod 65535 = x mod 65535"
    using x by (metis mod_mult_self2)+
  have z: "x mod 2 ^ 16 + x div 2 ^ 16 = 0 \<longleftrightarrow> x = 0" "x mod 2 ^ 32 + x div 2 ^ 32 = 0 \<longleftrightarrow> x = 0"
    using x by auto
  show "ones_eq (x mod 2 ^ 16 + x div 2 ^ 16) x" "ones_eq (x mod 2 ^ 32 + x div 2 ^ 32) x"
    unfolding ones_eq_def using m z by blast+
qed

lemma AddWithCarry_ones: "ones_eq (unat (AddWithCarry a b)) (unat a + unat b)"
proof (cases "unat a + unat b < 2 ^ 64")
  case False
  have "unat a + unat b = (unat a + unat b - M64) + 65535 * 281479271743489" using False by simp
  then have "(unat a + unat b - M64) mod 65535 = (unat a + unat b) mod 65535" by (metis mod_mult_self2)
  then show ?thesis using False unfolding unat_AddWithCarry ones_eq_def by auto
qed (simp add: unat_AddWithCarry ones_eq_def)

subsection \<open>Sums of 16-bit words\<close>

fun wsum :: "u8 list \<Rightarrow> nat" where
  "wsum [] = 0"
| "wsum [b] = unat b"
| "wsum (a # b # bs) = unat a + 256 * unat b + wsum bs"

lemma wsum_append: "even (length xs) \<Longrightarrow> wsum (xs @ ys) = wsum xs + wsum ys"
  by (induction xs rule: wsum.induct) auto

lemma wsum_split: "even n \<Longrightarrow> n \<le> length b \<Longrightarrow> wsum b = wsum (take n b) + wsum (drop n b)"
  using wsum_append [of "take n b" "drop n b"] by simp

lemma load_ones: "length bs \<le> 8 \<Longrightarrow> ones_eq (unat (load bs)) (wsum bs)"
proof (induction bs rule: wsum.induct)
  case (2 b)
  then show ?case using unat_load_less [of "[b]"] by (simp add: ones_eq_def)
next
  case (3 a b bs)
  have u: "unat (load (a # b # bs)) = unat a + 256 * unat b + unat (load bs) + 65535 * unat (load bs)"
    using 3 unat_load_less [of "a # b # bs"] unat_load_less [of "b # bs"] by simp
  have "ones_eq (unat a + 256 * unat b + unat (load bs) + 65535 * unat (load bs)) (unat a + 256 * unat b + unat (load bs))"
    unfolding ones_eq_def mod_mult_self2 by auto
  also have "ones_eq (unat a + 256 * unat b + unat (load bs)) (unat a + 256 * unat b + wsum bs)"
    using 3 by (intro ones_intro) simp
  finally show ?case unfolding u by simp
qed (simp add: ones_eq_def)

lemma AddWithCarry_load [ones_intro]:
  assumes "ones_eq (unat s) n" "length b \<le> 8"
  shows "ones_eq (unat (AddWithCarry s (load b))) (n + wsum b)"
  using AddWithCarry_ones ones_add [OF assms(1) load_ones [OF assms(2)]] by (rule ones_trans)

lemma AddBytes_n_ones:
  "even n \<Longrightarrow> n \<le> 8 \<Longrightarrow> 0 < n \<Longrightarrow> (case AddBytes_n n s b of (s', r) \<Rightarrow>
     ones_eq (unat s' + wsum r) (unat s + wsum b) \<and> length r < n)"
proof (induction n s b rule: AddBytes_n.induct)
  case (1 n s b)
  show ?case
  proof (cases "n \<le> length b")
    case True
    then have "0 < n \<and> n \<le> length b" using 1 by simp
    from 1(1) [OF this 1(2-4)] have IH: "case AddBytes_n n (AddWithCarry s (load (take n b))) (drop n b) of (s', r) \<Rightarrow>
       ones_eq (unat s' + wsum r) (unat (AddWithCarry s (load (take n b))) + wsum (drop n b)) \<and> length r < n" .
    have w: "wsum b = wsum (take n b) + wsum (drop n b)" using 1(2) True by (rule wsum_split)
    have "ones_eq (unat (AddWithCarry s (load (take n b))) + wsum (drop n b)) (unat s + wsum (take n b) + wsum (drop n b))"
      using 1(3) by (intro ones_intro) simp
    then have "ones_eq (unat (AddWithCarry s (load (take n b))) + wsum (drop n b)) (unat s + wsum b)"
      unfolding w by (simp only: add.assoc)
    then show ?thesis using IH True 1(4) by (subst AddBytes_n.simps) (auto intro: ones_trans)
  qed (use 1 in \<open>subst AddBytes_n.simps, simp add: ones_refl\<close>)
qed

lemma AddBytes_32_ones:
  "case AddBytes_32 ss b of ((t0, t1, t2, t3), r) \<Rightarrow> (case ss of (s0, s1, s2, s3) \<Rightarrow>
     ones_eq (unat t0 + unat t1 + unat t2 + unat t3 + wsum r) (unat s0 + unat s1 + unat s2 + unat s3 + wsum b))"
proof (induction ss b rule: AddBytes_32.induct)
  case (1 s0 s1 s2 s3 b)
  show ?case
  proof (cases "32 \<le> length b")
    case True
    let ?a = "AddWithCarry s0 (load (take 8 b))" and ?b = "AddWithCarry s1 (load (take 8 (drop 8 b)))"
    let ?c = "AddWithCarry s2 (load (take 8 (drop 16 b)))" and ?d = "AddWithCarry s3 (load (take 8 (drop 24 b)))"
    have w: "wsum b = wsum (take 8 b) + (wsum (take 8 (drop 8 b)) + (wsum (take 8 (drop 16 b)) +
        (wsum (take 8 (drop 24 b)) + wsum (drop 32 b))))"
      using True wsum_split [of 8 b] wsum_split [of 8 "drop 8 b"] wsum_split [of 8 "drop 16 b"]
        wsum_split [of 8 "drop 24 b"] by simp
    have "ones_eq (unat ?a + unat ?b + unat ?c + unat ?d + wsum (drop 32 b))
      ((unat s0 + wsum (take 8 b)) + (unat s1 + wsum (take 8 (drop 8 b))) + (unat s2 + wsum (take 8 (drop 16 b))) +
        (unat s3 + wsum (take 8 (drop 24 b))) + wsum (drop 32 b))"
      by (intro ones_intro) simp_all
    also have "\<dots> = unat s0 + unat s1 + unat s2 + unat s3 + wsum b"
      unfolding w by (simp add: algebra_simps)
    finally have "ones_eq (unat ?a + unat ?b + unat ?c + unat ?d + wsum (drop 32 b)) (unat s0 + unat s1 + unat s2 + unat s3 + wsum b)" .
    then show ?thesis using 1 [OF True] True by (subst AddBytes_32.simps) (auto intro: ones_trans split: prod.splits)
  qed (subst AddBytes_32.simps, simp add: ones_refl)
qed

lemma AddBytes_ones: "ones_eq (unat (AddBytes c b)) (unat c + wsum b)"
proof -
  obtain t0 t1 t2 t3 r where r: "AddBytes_32 (0, 0, 0, 0) b = ((t0, t1, t2, t3), r)" by (metis surj_pair)
  obtain u q where q: "AddBytes_n 8 t0 r = (u, q)" by (cases "AddBytes_n 8 t0 r")
  obtain v p where p: "AddBytes_n 2 u q = (v, p)" by (cases "AddBytes_n 2 u q")
  have 1: "ones_eq (unat t0 + unat t1 + unat t2 + unat t3 + wsum r) (wsum b)"
    using AddBytes_32_ones [where ss = "(0, 0, 0, 0)" and b = b] r by simp
  have 2: "ones_eq (unat u + wsum q) (unat t0 + wsum r)"
    using AddBytes_n_ones [of 8 t0 r] q by simp
  have 3: "ones_eq (unat v + wsum p) (unat u + wsum q)" and lp: "length p < 2"
    using AddBytes_n_ones [of 2 u q] p by simp_all
  define w where "w = (if p \<noteq> [] then AddWithCarry v (ucast (p ! 0)) else v)"
  have 4: "ones_eq (unat w) (unat v + wsum p)"
  proof (cases p)
    case (Cons x xs)
    then have "p = [x]" using lp by simp
    moreover have "unat (ucast x :: u64) = unat x"
      using unat_u8_less [of x] by (simp add: unsigned_ucast_eq take_bit_nat_eq_self)
    ultimately show ?thesis using AddWithCarry_ones [of v "ucast x"] by (simp add: w_def)
  qed (simp add: w_def ones_refl)
  have d: "AddBytes c b = AddWithCarry (AddWithCarry (AddWithCarry (AddWithCarry c w) t1) t2) t3"
    by (simp add: AddBytes_def r q p w_def)
  have "ones_eq (unat (AddBytes c b))
      (unat c + unat w + unat t1 + unat t2 + unat t3)"
    unfolding d by (rule ones_trans [OF AddWithCarry_ones], intro ones_intro)+
  also have "ones_eq (unat c + unat w + unat t1 + unat t2 + unat t3) (unat c + (unat t0 + wsum r) + unat t1 + unat t2 + unat t3)"
    by (intro ones_intro) (rule ones_trans [OF 4 ones_trans [OF 3 2]])
  also have "ones_eq (unat c + (unat t0 + wsum r) + unat t1 + unat t2 + unat t3) (unat c + wsum b)"
    using ones_add [OF ones_refl 1, of "unat c"] by (simp add: algebra_simps)
  finally show ?thesis .
qed

subsection \<open>Folding and verification\<close>

lemma unat_and_mask: "n < LENGTH('a::len) \<Longrightarrow> unat (w AND mask n :: 'a word) = unat w mod 2 ^ n"
  unfolding take_bit_eq_mask [symmetric] by (simp only: unsigned_take_bit_eq take_bit_eq_mod [where 'a = nat])

lemma unat_fold_step:
  assumes "n < 64" "unat c mod 2 ^ n + unat c div 2 ^ n < 2 ^ 64"
  shows "unat ((c AND mask n) + drop_bit n c :: u64) = unat c mod 2 ^ n + unat c div 2 ^ n"
proof -
  have "unat (drop_bit n c) = unat c div 2 ^ n" by (simp only: unat_drop_bit_eq drop_bit_eq_div [where 'a = nat])
  then show ?thesis using assms by (simp add: unat_word_ariths unat_and_mask)
qed

lemma fold_less: "x < 2 ^ n * k \<Longrightarrow> x mod 2 ^ n + x div 2 ^ n < 2 ^ n + (k :: nat)"
  by (intro add_strict_mono) (simp_all add: less_mult_imp_div_less ac_simps)

lemma fold_last: "x < 65540 \<Longrightarrow> x mod 65536 + x div 65536 < (65536 :: nat)"
  using mod_if [of x 65536] div_if [of x 65536] by (cases "x < 65536") simp_all

lemma Fold_ones: "ones_eq (unat (Fold c)) (unat c)"
proof -
  let ?f = "\<lambda>n x :: nat. x mod 2 ^ n + x div 2 ^ n"
  define x1 where "x1 = (c AND mask 32) + drop_bit 32 c"
  define x2 where "x2 = (x1 AND mask 16) + drop_bit 16 x1"
  define x3 where "x3 = (x2 AND mask 16) + drop_bit 16 x2"
  define x4 where "x4 = (x3 AND mask 16) + drop_bit 16 x3"
  have f: "?f n x < 2 ^ n + k" if "x < 2 ^ n * k" for n x k using that by (rule fold_less)
  have small: "unat ((c AND mask n) + drop_bit n c :: u64) = ?f n (unat c)"
    if "n < 64" "?f n (unat c) < 2 ^ 33" for n c using that by (intro unat_fold_step) simp_all
  have b1: "?f 32 (unat c) < 2 ^ 32 + 2 ^ 32" by (rule f) (use unat_u64_less [of c] in simp)
  then have u1: "unat x1 = ?f 32 (unat c)" unfolding x1_def by (intro small) simp_all
  have "unat x1 < 2 ^ 16 * 2 ^ 17" using b1 unfolding u1 [symmetric] by simp
  then have b2: "?f 16 (unat x1) < 2 ^ 16 + 2 ^ 17" by (rule f)
  then have u2: "unat x2 = ?f 16 (unat x1)" unfolding x2_def by (intro small) simp_all
  have "unat x2 < 2 ^ 16 * 4" using b2 unfolding u2 [symmetric] by simp
  then have b3: "?f 16 (unat x2) < 2 ^ 16 + 4" by (rule f)
  then have u3: "unat x3 = ?f 16 (unat x2)" unfolding x3_def by (intro small) simp_all
  have "unat x3 < 65540" using b3 unfolding u3 [symmetric] by simp
  then have l: "?f 16 (unat x3) < 65536" using fold_last by simp
  then have u4: "unat x4 = ?f 16 (unat x3)" unfolding x4_def by (intro small) simp_all
  have b4: "unat x4 < 65536" using l unfolding u4 .
  have m: "mask 32 = (0xffffffff :: u64)" "mask 16 = (0xffff :: u64)" by (simp_all add: mask_eq_decr_exp)
  have "Fold c = ucast x4" unfolding Fold_def Let_def x4_def x3_def x2_def x1_def m ..
  then have "unat (Fold c) = unat x4"
    using b4 by (simp add: unsigned_ucast_eq take_bit_nat_eq_self)
  also have "ones_eq \<dots> (unat x3)" unfolding u4 by (rule ones_fold(1))
  also have "ones_eq \<dots> (unat x2)" unfolding u3 by (rule ones_fold(1))
  also have "ones_eq \<dots> (unat x1)" unfolding u2 by (rule ones_fold(1))
  also have "ones_eq \<dots> (unat c)" unfolding u1 by (rule ones_fold(2))
  finally show ?thesis .
qed

lemma unat_NOT_u16: "unat (NOT w :: u16) = 65535 - unat w"
proof -
  have "NOT w = - 1 - w" by (simp add: not_eq_complement)
  moreover have "unat (- 1 :: u16) = 65535" by (simp add: unsigned_minus_1_eq_mask mask_eq_exp_minus_1)
  ultimately show ?thesis by (metis unat_sub word_order.extremum)
qed

text \<open>A sum folds to zero bits inverted exactly when it is a positive multiple of 65535.\<close>

lemma Fold_verifies:
  assumes "ones_eq (unat c) n" "0 < n" "65535 dvd n"
  shows "NOT (Fold c) = 0"
proof -
  have "ones_eq (unat (Fold c)) n" using Fold_ones assms(1) by (rule ones_trans)
  then have "65535 dvd unat (Fold c)" and pos: "0 < unat (Fold c)"
    using assms(2,3) by (auto simp: ones_eq_def dvd_eq_mod_eq_0)
  then obtain k where k: "unat (Fold c) = 65535 * k" by (elim dvdE)
  then have "k = 1" using pos unat_u16_less [of "Fold c"] by simp
  then have "unat (Fold c) = 65535" using k by simp
  then have "unat (NOT (Fold c)) = 0" by (simp add: unat_NOT_u16)
  then show ?thesis by (simp add: unat_eq_0)
qed

lemma wsum_bytes16 [simp]: "wsum (bytes16 w @ bs) = unat w + wsum bs" "length (bytes16 w) = 2"
proof -
  have "unat (ucast w :: u8) + 256 * unat (ucast (drop_bit 8 w) :: u8) = unat w"
  proof -
    have "unat (ucast w :: u8) = unat w mod 256"
      by (simp add: unsigned_ucast_eq take_bit_eq_mod)
    moreover have "unat (ucast (drop_bit 8 w) :: u8) = unat w div 256"
      using unat_u16_less [of w] by (simp add: unsigned_ucast_eq unat_drop_bit_eq take_bit_eq_mod) (simp add: drop_bit_eq_div)
    ultimately show ?thesis by simp
  qed
  then show "wsum (bytes16 w @ bs) = unat w + wsum bs" by (simp add: bytes16_def)
qed (simp add: bytes16_def)

text \<open>A checksum field set to the inverted folded sum of the rest verifies.\<close>

lemma checksum_verifies:
  assumes s: "ones_eq (unat s) n" and t: "ones_eq (unat t) (n + unat (NOT (Fold s)))"
  shows "NOT (Fold t) = 0"
proof (rule Fold_verifies [OF t])
  have f: "ones_eq (unat (Fold s)) n" using Fold_ones s by (rule ones_trans)
  then have m: "unat (Fold s) mod 65535 = n mod 65535" by (simp add: ones_eq_def)
  have le: "unat (Fold s) \<le> 65535" using unat_u16_less [of "Fold s"] by simp
  show "0 < n + unat (NOT (Fold s))"
    using f by (auto simp: unat_NOT_u16 ones_eq_def)
  have "(n + (65535 - unat (Fold s))) mod 65535 = (unat (Fold s) + (65535 - unat (Fold s))) mod 65535"
    using m by (metis mod_add_left_eq)
  also have "\<dots> = 0" using le by simp
  finally show "65535 dvd n + unat (NOT (Fold s))" by (simp add: unat_NOT_u16 dvd_eq_mod_eq_0)
qed

subsection \<open>Headers\<close>

lemma wsum_header_checksum:
  assumes "length (Src h) = 4" "length (Dst h) = 4"
  shows "wsum (header_bytes h) = wsum (header_bytes (h\<lparr>hChecksum := 0\<rparr>)) + unat (hChecksum h)" "length (header_bytes h) = 20"
proof -
  let ?p = "[Ip_version_and_header_length h, Tos h] @ bytes16 (Length h) @ bytes16 (Fragment_id h) @
     bytes16 (Flags_and_fragment_offset h) @ [Ttl h, Protocol h]"
  have e: "header_bytes (h\<lparr>hChecksum := c\<rparr>) = ?p @ bytes16 c @ Src h @ Dst h" for c
    by (simp add: header_bytes_def)
  have "wsum (header_bytes (h\<lparr>hChecksum := c\<rparr>)) = wsum ?p + unat c + wsum (Src h @ Dst h)" for c
    unfolding e by (subst wsum_append) (simp_all add: wsum_bytes16(2))
  from this [of 0] this [of "hChecksum h"]
  show "wsum (header_bytes h) = wsum (header_bytes (h\<lparr>hChecksum := 0\<rparr>)) + unat (hChecksum h)" by simp
  show "length (header_bytes h) = 20" using e [of "hChecksum h"] assms by simp
qed

definition header_sum :: "Header \<Rightarrow> u64" where
  "header_sum h = AddWithCarry (AddWithCarry (load (take 8 (header_bytes h))) (load (take 8 (drop 8 (header_bytes h)))))
     (load (take 4 (drop 16 (header_bytes h))))"

lemma header_checksum_sum: "header_checksum h = NOT (Fold (header_sum h))"
  by (simp add: header_checksum_def header_sum_def Let_def)

lemma header_sum_ones:
  assumes "length (Src h) = 4" "length (Dst h) = 4"
  shows "ones_eq (unat (header_sum h)) (wsum (header_bytes h))"
proof -
  let ?b = "header_bytes h"
  have "wsum ?b = wsum (take 8 ?b) + wsum (take 8 (drop 8 ?b)) + wsum (take 4 (drop 16 ?b))"
    using wsum_header_checksum(2) [OF assms] wsum_split [of 8 ?b] wsum_split [of 8 "drop 8 ?b"] by simp
  then show ?thesis unfolding header_sum_def by (simp only:) (intro ones_intro load_ones, simp_all)
qed

lemma header_checksum_verifies:
  assumes "length (Src h) = 4" "length (Dst h) = 4"
  shows "header_checksum (h\<lparr>hChecksum := header_checksum (h\<lparr>hChecksum := 0\<rparr>)\<rparr>) = 0"
proof -
  let ?z = "h\<lparr>hChecksum := 0\<rparr>" and ?c = "h\<lparr>hChecksum := header_checksum (h\<lparr>hChecksum := 0\<rparr>)\<rparr>"
  have z: "ones_eq (unat (header_sum ?z)) (wsum (header_bytes ?z))" by (rule header_sum_ones) (simp_all add: assms)
  have "ones_eq (unat (header_sum ?c)) (wsum (header_bytes ?c))" by (rule header_sum_ones) (simp_all add: assms)
  then have "ones_eq (unat (header_sum ?c)) (wsum (header_bytes ?z) + unat (NOT (Fold (header_sum ?z))))"
    using wsum_header_checksum(1) [of ?c] assms by (simp add: header_checksum_sum [of ?z])
  from checksum_verifies [OF z this] show ?thesis by (simp add: header_checksum_sum [of ?c])
qed

lemma swap16_swap16: "swap16 (swap16 x) = x"
  by (rule bit_word_eqI) (auto simp: swap16_def bit_simps)

lemma unat_AddEven:
  "unat (AddEven c x) = (if unat x \<le> unat c then unat c - unat x else unat c + M64 - unat x)"
proof -
  have b: "unat c < 2 ^ 64" "unat x < 2 ^ 64" by (rule unat_u64_less)+
  show ?thesis
  proof (cases "x \<le> c")
    case True
    then have u: "unat (c - x) = unat c - unat x" by (rule unat_sub)
    then have "\<not> c < c - x" by (simp add: word_less_nat_alt)
    then show ?thesis using True u by (simp add: AddEven_def word_le_nat_alt)
  next
    case False
    then have l: "unat c < unat x" by (simp add: not_le word_less_nat_alt)
    have u: "unat (c - x) = 2 ^ 64 + unat c - unat x"
      using unat_sub_if' [of c x] l by simp
    then have g: "c < c - x" using l b by (simp add: word_less_nat_alt)
    have "c - x \<noteq> 0" using g by auto
    then have "unat (c - x - 1) = unat (c - x) - 1" by (rule unat_minus_one)
    then show ?thesis using g u l by (simp add: AddEven_def)
  qed
qed

subsection \<open>Properties\<close>

text \<open>C9: The unrolled sum of 8-byte words with end-around carry, folded, is the ones' complement sum of
  the 16-bit words (an odd last byte padded with zero): congruent modulo 65535, and zero only together.\<close>

theorem AddBytes_ones_complement: "ones_eq (unat (Fold (AddBytes c b))) (unat c + wsum b)"
  using Fold_ones AddBytes_ones by (rule ones_trans)

text \<open>C10: A header that \<open>Write\<close> left has the slice's length in network order, its checksum verifies, and
  the slice starts with its 20 bytes.\<close>

theorem header_Write_verifies:
  assumes "length (Src h) = 4" "length (Dst h) = 4" "20 \<le> length b"
  shows "case header_Write h b of (h', b') \<Rightarrow> header_checksum h' = 0 \<and> ComputeChecksum h' = hChecksum h' \<and>
    swap16 (Length h') = of_nat (length b) \<and> b' = header_bytes h' @ drop 20 b \<and> length b' = length b"
proof -
  let ?h = "h\<lparr>Length := swap16 (of_nat (length b))\<rparr>"
  let ?w = "?h\<lparr>hChecksum := header_checksum (?h\<lparr>hChecksum := 0\<rparr>)\<rparr>"
  have "header_checksum ?w = 0" by (rule header_checksum_verifies) (simp_all add: assms)
  moreover have "length (header_bytes ?w) = 20" using wsum_header_checksum(2) [of ?w] assms by simp
  moreover have "swap16 (swap16 x) = x" for x by (rule swap16_swap16)
  ultimately show ?thesis using assms(3) by (simp add: header_Write_def ComputeChecksum_def Let_def)
qed

lemma header_Write_verifies_witness:
  "\<exists>h b. header_Write \<lparr>Ip_version_and_header_length = 0x45, Tos = 0, Length = 0, Fragment_id = 0,
     Flags_and_fragment_offset = 0, Ttl = 64, Protocol = 1, hChecksum = 7, Src = [10, 0, 0, 1], Dst = [10, 0, 0, 2]\<rparr>
     (replicate 28 0) = (h, b) \<and> header_checksum h = 0 \<and> swap16 (Length h) = 28"
  using header_Write_verifies [of "\<lparr>Ip_version_and_header_length = 0x45, Tos = 0, Length = 0, Fragment_id = 0,
     Flags_and_fragment_offset = 0, Ttl = 64, Protocol = 1, hChecksum = 7, Src = [10, 0, 0, 1], Dst = [10, 0, 0, 2]\<rparr>"
     "replicate 28 0"]
  by (auto split: prod.splits)

text \<open>\<open>Write\<close> of an ICMP header panics on a slice shorter than the header; otherwise the message it
  leaves keeps the payload and its ones' complement sum, checksum included, verifies.\<close>

theorem icmp_Write_verifies:
  "icmp_Write h b = None \<and> length b < 4 \<or>
   (\<exists>h' b'. icmp_Write h b = Some (h', b') \<and> length b' = length b \<and> drop 4 b' = drop 4 b \<and> take 2 b' = [icmp_Type h, icmp_Code h] \<and>
     NOT (Fold (AddBytes 0 b')) = 0)"
proof (cases "4 \<le> length b")
  case True
  define z where "z = h\<lparr>icmp_Checksum := 0\<rparr>"
  define h' where "h' = z\<lparr>icmp_Checksum := icmp_checksum z (drop 4 b)\<rparr>"
  have s: "ones_eq (unat (AddBytes (load (icmp_bytes z)) (drop 4 b))) (wsum (icmp_bytes z) + wsum (drop 4 b))"
    by (rule ones_trans [OF AddBytes_ones]) (intro ones_intro load_ones, simp add: icmp_bytes_def bytes16_def)
  have "wsum (icmp_bytes h' @ drop 4 b) = (wsum (icmp_bytes z) + wsum (drop 4 b)) + unat (icmp_checksum z (drop 4 b))"
    using wsum_bytes16(1) [of "icmp_checksum z (drop 4 b)" "drop 4 b"] wsum_bytes16(1) [of 0 "[]"]
    by (simp add: icmp_bytes_def z_def h'_def)
  then have "ones_eq (unat (AddBytes 0 (icmp_bytes h' @ drop 4 b)))
      ((wsum (icmp_bytes z) + wsum (drop 4 b)) + unat (icmp_checksum z (drop 4 b)))"
    using AddBytes_ones [of 0 "icmp_bytes h' @ drop 4 b"] by simp
  then have "NOT (Fold (AddBytes 0 (icmp_bytes h' @ drop 4 b))) = 0"
    using checksum_verifies [OF s] by (simp add: icmp_checksum_def)
  moreover have "icmp_Write h b = Some (h', icmp_bytes h' @ drop 4 b)"
    using True by (simp add: icmp_Write_def h'_def z_def Let_def)
  moreover have "length (icmp_bytes h') = 4" "take 2 (icmp_bytes h' @ drop 4 b) = [icmp_Type h, icmp_Code h]"
    by (simp_all add: icmp_bytes_def bytes16_def h'_def z_def)
  ultimately show ?thesis using True by auto
qed (simp add: icmp_Write_def panic_unless_def)

text \<open>Adding back a field taken out of a sum restores it, the zero sum excepted: there the other
  representation of zero comes back, and the debugging check of the code panics.\<close>

theorem AddEven_restores: "SubEven (AddEven c x) x = (if c = 0 \<and> x \<noteq> 0 then - 1 else c)"
proof -
  have b: "unat c < 2 ^ 64" "unat x < 2 ^ 64" by (rule unat_u64_less)+
  have m: "unat (- 1 :: u64) = M64" by (simp add: unsigned_minus_1_eq_mask mask_eq_exp_minus_1)
  have "unat (SubEven (AddEven c x) x) = unat (if c = 0 \<and> x \<noteq> 0 then - 1 else c)"
    using b m by (auto simp: SubEven_def unat_AddWithCarry unat_AddEven unat_eq_0)
  then show ?thesis by (simp only: word_unat_eq_iff)
qed

end
