(* ===== verification/Counter.thy ===== *)
theory Counter
  imports Go_Prelude
begin

section \<open>Network counters: vnet/counter.go\<close>

text \<open>
  A counter of \<open>Counters\<close> is spread over a 16-bit mini counter and a 64-bit one that takes over when the mini
  counter would overflow; clearing it records its total. \<open>CombinedCounters\<close> count packets and bytes. The
  Go \<open>uint\<close> and \<open>uint64\<close> are 64-bit words; an index out of range is a panic.
\<close>

record Counters =
  mini :: "u16 list"
  maxi :: "u64 list"
  debug :: "u64 list"
  valuesLastClear :: "u64 list"

definition Counters_Validate :: "Counters \<Rightarrow> nat \<Rightarrow> Counters" where
  "Counters_Validate c i = c\<lparr>mini := vec_validate 0 i (mini c), maxi := vec_validate 0 i (maxi c),
     valuesLastClear := vec_validate 0 i (valuesLastClear c)\<rparr>"

definition Counters_Add :: "Counters \<Rightarrow> nat \<Rightarrow> u64 \<Rightarrow> Counters option" where
  "Counters_Add c i x = do {
     m \<leftarrow> slice_get (mini c) i;
     let old = (ucast m :: u64);
     let new = old + x;
     let m' = (ucast new :: u16);
     if ucast m' \<noteq> new
     then do {
       v \<leftarrow> slice_get (maxi c) i;
       Some (c\<lparr>maxi := (maxi c)[i := v + (old + x)], mini := (mini c)[i := 0]\<rparr>) }
     else Some (c\<lparr>mini := (mini c)[i := m']\<rparr>) }"

definition Counters_Add64 :: "Counters \<Rightarrow> nat \<Rightarrow> u64 \<Rightarrow> Counters option" where
  "Counters_Add64 c i x = do {
     v \<leftarrow> slice_get (maxi c) i;
     Some (c\<lparr>maxi := (maxi c)[i := v + x]\<rparr>) }"

definition Counters_Get :: "Counters \<Rightarrow> nat \<Rightarrow> u64 option" where
  "Counters_Get c i = do {
     v \<leftarrow> slice_get (maxi c) i; m \<leftarrow> slice_get (mini c) i; l \<leftarrow> slice_get (valuesLastClear c) i;
     Some (v + ucast m - l) }"

definition Counters_Value :: "Counters \<Rightarrow> nat \<Rightarrow> u64 option" where
  "Counters_Value c i = Counters_Get c i"

definition Counters_Clear :: "Counters \<Rightarrow> nat \<Rightarrow> Counters option" where
  "Counters_Clear c i = do {
     x \<leftarrow> slice_get (maxi c) i; m \<leftarrow> slice_get (mini c) i;
     let v = x + ucast m;
     ls \<leftarrow> slice_set (valuesLastClear c) i v;
     Some (c\<lparr>valuesLastClear := ls, maxi := (maxi c)[i := v], mini := (mini c)[i := 0]\<rparr>) }"

fun clear_loop :: "Counters \<Rightarrow> nat list \<Rightarrow> Counters option" where
  "clear_loop c [] = Some c"
| "clear_loop c (i # is) = do { c \<leftarrow> Counters_Clear c i; clear_loop c is }"

definition Counters_ClearAll :: "Counters \<Rightarrow> Counters option" where
  "Counters_ClearAll c = clear_loop c [0..<length (valuesLastClear c)]"

fun CountersVec_ClearAll :: "Counters list \<Rightarrow> Counters list option" where
  "CountersVec_ClearAll [] = Some []"
| "CountersVec_ClearAll (c # cs) = do { c \<leftarrow> Counters_ClearAll c; cs \<leftarrow> CountersVec_ClearAll cs; Some (c # cs) }"

subsection \<open>Packets and bytes\<close>

record CombinedCounter =
  Packets :: u64
  Bytes :: u64

definition cc_Zero :: CombinedCounter where
  "cc_Zero = \<lparr>Packets = 0, Bytes = 0\<rparr>"

definition cc_Add :: "CombinedCounter \<Rightarrow> CombinedCounter \<Rightarrow> CombinedCounter" where
  "cc_Add c d = c\<lparr>Packets := Packets c + Packets d, Bytes := Bytes c + Bytes d\<rparr>"

definition subNoValidate :: "CombinedCounter \<Rightarrow> CombinedCounter \<Rightarrow> CombinedCounter" where
  "subNoValidate c d = c\<lparr>Packets := Packets c - Packets d, Bytes := Bytes c - Bytes d\<rparr>"

definition cc_Sub :: "CombinedCounter \<Rightarrow> CombinedCounter \<Rightarrow> CombinedCounter option" where
  "cc_Sub c d = (if Packets d > Packets c \<or> Bytes d > Bytes c then None else Some (subNoValidate c d))"

record CombinedCounters =
  cvalues :: "CombinedCounter list"
  cvaluesLastClear :: "CombinedCounter list"

definition Combined_Validate :: "CombinedCounters \<Rightarrow> nat \<Rightarrow> CombinedCounters" where
  "Combined_Validate c i = c\<lparr>cvalues := vec_validate cc_Zero i (cvalues c),
     cvaluesLastClear := vec_validate cc_Zero i (cvaluesLastClear c)\<rparr>"

definition Combined_Add64 :: "CombinedCounters \<Rightarrow> nat \<Rightarrow> u64 \<Rightarrow> u64 \<Rightarrow> CombinedCounters option" where
  "Combined_Add64 c i p b = do {
     v \<leftarrow> slice_get (cvalues c) i;
     Some (c\<lparr>cvalues := (cvalues c)[i := v\<lparr>Packets := Packets v + p, Bytes := Bytes v + b\<rparr>]\<rparr>) }"

definition Combined_Get :: "CombinedCounters \<Rightarrow> nat \<Rightarrow> CombinedCounter option" where
  "Combined_Get c i = do {
     v \<leftarrow> slice_get (cvalues c) i; l \<leftarrow> slice_get (cvaluesLastClear c) i;
     Some (subNoValidate v l) }"

definition Combined_Clear :: "CombinedCounters \<Rightarrow> nat \<Rightarrow> CombinedCounters option" where
  "Combined_Clear c i = do {
     v \<leftarrow> slice_get (cvalues c) i;
     ls \<leftarrow> slice_set (cvaluesLastClear c) i v;
     Some (c\<lparr>cvaluesLastClear := ls\<rparr>) }"

text \<open>\<open>copy\<close> of one slice over another: as many elements as both have.\<close>

definition slice_copy :: "'a list \<Rightarrow> 'a list \<Rightarrow> 'a list" where
  "slice_copy dst src = take (length dst) src @ drop (length src) dst"

definition Combined_ClearAll :: "CombinedCounters \<Rightarrow> CombinedCounters" where
  "Combined_ClearAll c = c\<lparr>cvaluesLastClear := slice_copy (cvaluesLastClear c) (cvalues c)\<rparr>"

subsection \<open>Histories of counters\<close>

text \<open>What a client does with a vector of counters, and what a counter then should read.\<close>

datatype counter_op = Add_op nat u64 | Add64_op nat u64 | Clear_op nat | ClearAll_op | Validate_op nat

fun counter_step :: "counter_op \<Rightarrow> Counters \<Rightarrow> Counters option" where
  "counter_step (Add_op i x) c = Counters_Add c i x"
| "counter_step (Add64_op i x) c = Counters_Add64 c i x"
| "counter_step (Clear_op i) c = Counters_Clear c i"
| "counter_step ClearAll_op c = Counters_ClearAll c"
| "counter_step (Validate_op i) c = Some (Counters_Validate c i)"

fun counter_run :: "counter_op list \<Rightarrow> Counters \<Rightarrow> Counters option" where
  "counter_run [] c = Some c"
| "counter_run (p # ps) c = do { c \<leftarrow> counter_step p c; counter_run ps c }"

text \<open>The specification: a length and a total per index.\<close>

fun spec_step :: "counter_op \<Rightarrow> nat \<times> (nat \<Rightarrow> u64) \<Rightarrow> (nat \<times> (nat \<Rightarrow> u64)) option" where
  "spec_step (Add_op i x) (n, f) = (if i < n then Some (n, f(i := f i + x)) else None)"
| "spec_step (Add64_op i x) (n, f) = (if i < n then Some (n, f(i := f i + x)) else None)"
| "spec_step (Clear_op i) (n, f) = (if i < n then Some (n, f(i := 0)) else None)"
| "spec_step ClearAll_op (n, f) = Some (n, \<lambda>_. 0)"
| "spec_step (Validate_op i) (n, f) = Some (max n (Suc i), f)"

fun spec_run :: "counter_op list \<Rightarrow> nat \<times> (nat \<Rightarrow> u64) \<Rightarrow> (nat \<times> (nat \<Rightarrow> u64)) option" where
  "spec_run [] s = Some s"
| "spec_run (p # ps) s = do { s \<leftarrow> spec_step p s; spec_run ps s }"

definition csize :: "Counters \<Rightarrow> nat" where
  "csize c = length (maxi c)"

definition counters_wf :: "Counters \<Rightarrow> bool" where
  "counters_wf c \<longleftrightarrow> length (mini c) = csize c \<and> length (valuesLastClear c) = csize c"

definition total :: "Counters \<Rightarrow> nat \<Rightarrow> u64" where
  "total c i = (if i < csize c then maxi c ! i + ucast (mini c ! i) - valuesLastClear c ! i else 0)"

definition counters_abs :: "Counters \<Rightarrow> nat \<times> (nat \<Rightarrow> u64)" where
  "counters_abs c = (csize c, total c)"

lemma Counters_Value_total: "counters_wf c \<Longrightarrow> Counters_Value c i = (if i < csize c then Some (total c i) else None)"
  by (simp add: Counters_Value_def Counters_Get_def counters_wf_def total_def slice_get_def csize_def)

text \<open>The result of an operation that succeeds is well formed and abstracts to the specified one.\<close>

definition implements :: "Counters option \<Rightarrow> (nat \<times> (nat \<Rightarrow> u64)) option \<Rightarrow> bool" where
  "implements r s \<longleftrightarrow> (case r of None \<Rightarrow> s = None | Some c \<Rightarrow> counters_wf c \<and> s = Some (counters_abs c))"

lemma Add_implements: "counters_wf c \<Longrightarrow> implements (Counters_Add c i x) (spec_step (Add_op i x) (counters_abs c))"
  by (auto simp: implements_def Counters_Add_def counters_abs_def counters_wf_def total_def csize_def slice_get_def Let_def
      fun_eq_iff nth_list_update)

lemma Add64_implements: "counters_wf c \<Longrightarrow> implements (Counters_Add64 c i x) (spec_step (Add64_op i x) (counters_abs c))"
  by (auto simp: implements_def Counters_Add64_def counters_abs_def counters_wf_def total_def csize_def slice_get_def
      fun_eq_iff nth_list_update)

lemma Clear_implements: "counters_wf c \<Longrightarrow> implements (Counters_Clear c i) (spec_step (Clear_op i) (counters_abs c))"
  by (auto simp: implements_def Counters_Clear_def counters_abs_def counters_wf_def total_def csize_def slice_get_def slice_set_def
      Let_def fun_eq_iff nth_list_update)

lemma clear_loop_total:
  "counters_wf c \<Longrightarrow> set is \<subseteq> {..<csize c} \<Longrightarrow>
     \<exists>c'. clear_loop c is = Some c' \<and> counters_wf c' \<and> csize c' = csize c \<and> total c' = (\<lambda>i. if i \<in> set is then 0 else total c i)"
proof (induction "is" arbitrary: c)
  case (Cons i "is")
  obtain c1 where c1: "Counters_Clear c i = Some c1" "counters_wf c1" "csize c1 = csize c" "total c1 = (total c)(i := 0)"
    using Clear_implements [OF Cons.prems(1), of i] Cons.prems(2)
    by (auto simp: implements_def counters_abs_def split: option.splits if_splits)
  from Cons.IH [OF c1(2)] Cons.prems(2) c1(1,3,4) show ?case by (auto simp: fun_eq_iff)
qed simp

lemma ClearAll_implements:
  assumes "counters_wf c"
  shows "implements (Counters_ClearAll c) (spec_step ClearAll_op (counters_abs c))"
proof -
  have l: "length (valuesLastClear c) = csize c" using assms by (simp add: counters_wf_def)
  obtain c' where "clear_loop c [0..<csize c] = Some c'" "counters_wf c'" "csize c' = csize c"
    and t: "total c' = (\<lambda>i. if i \<in> set [0..<csize c] then 0 else total c i)"
    using clear_loop_total [OF assms, of "[0..<csize c]"] by (auto simp: atLeast0LessThan)
  moreover have "total c' = (\<lambda>_. 0)" unfolding t by (auto simp: total_def)
  ultimately show ?thesis by (simp add: implements_def Counters_ClearAll_def l counters_abs_def)
qed

lemma Validate_implements:
  "counters_wf c \<Longrightarrow> implements (Some (Counters_Validate c i)) (spec_step (Validate_op i) (counters_abs c))"
  by (auto simp: implements_def Counters_Validate_def counters_abs_def counters_wf_def total_def csize_def fun_eq_iff
      nth_vec_validate)

lemmas counter_implements = Add_implements Add64_implements Clear_implements ClearAll_implements Validate_implements

lemma counter_step_implements: "counters_wf c \<Longrightarrow> implements (counter_step p c) (spec_step p (counters_abs c))"
  by (cases p) (simp_all only: counter_step.simps counter_implements)

lemma counter_run_implements: "counters_wf c \<Longrightarrow> implements (counter_run ps c) (spec_run ps (counters_abs c))"
proof (induction ps arbitrary: c)
  case (Cons p ps)
  show ?case
  proof (cases "counter_step p c")
    case None
    then show ?thesis using counter_step_implements [OF Cons.prems, of p] by (simp add: implements_def)
  next
    case (Some c1)
    then have "counters_wf c1" "spec_step p (counters_abs c) = Some (counters_abs c1)"
      using counter_step_implements [OF Cons.prems, of p] by (simp_all add: implements_def)
    then show ?thesis using Cons.IH [of c1] Some by simp
  qed
qed (simp add: implements_def)

definition no_counters :: Counters where
  "no_counters = \<lparr>mini = [], maxi = [], debug = [], valuesLastClear = []\<rparr>"

text \<open>C23: After any history of a new vector of counters, which panics exactly when an operation is out of range,
  a counter reads the sum of what was added to it since it was last cleared, modulo \<open>2^64\<close>: whether an amount went to the
  mini or the wide counter is not visible.\<close>

theorem counters_history:
  "case spec_run ps (0, \<lambda>_. 0) of
     None \<Rightarrow> counter_run ps no_counters = None
   | Some (n, f) \<Rightarrow> \<exists>c. counter_run ps no_counters = Some c \<and>
       (\<forall>i. Counters_Value c i = (if i < n then Some (f i) else None))"
proof -
  have "counters_wf no_counters" "counters_abs no_counters = (0, \<lambda>_. 0)"
    by (simp_all add: no_counters_def counters_wf_def counters_abs_def csize_def total_def fun_eq_iff)
  with counter_run_implements [of no_counters ps] have "implements (counter_run ps no_counters) (spec_run ps (0, \<lambda>_. 0))" by simp
  then show ?thesis
    by (auto simp: implements_def counters_abs_def Counters_Value_total split: option.splits)
qed

subsection \<open>Combined counters\<close>

lemma le_plus_iff: "y \<le> x + y \<longleftrightarrow> unat x + unat y < 2 ^ LENGTH('a)" for x y :: "'a::len word"
  using no_olen_add_nat [of y x] by (simp add: add.commute)

text \<open>Subtraction of combined counters panics exactly when either component is smaller, and undoes addition
  exactly when neither sum wraps around.\<close>

theorem cc_Sub_Add:
  "(cc_Sub c d = None) = (\<not> (Packets d \<le> Packets c \<and> Bytes d \<le> Bytes c)) \<and>
   (cc_Sub (cc_Add c d) d = Some c) =
     (unat (Packets c) + unat (Packets d) < 2 ^ 64 \<and> unat (Bytes c) + unat (Bytes d) < 2 ^ 64)"
proof -
  have l: "LENGTH(64) = 64" by simp
  note w = le_plus_iff [where 'a = 64, unfolded l]
  have u: "subNoValidate (cc_Add c d) d = c" by (simp add: cc_Add_def subNoValidate_def)
  have a: "Packets (cc_Add c d) = Packets c + Packets d" "Bytes (cc_Add c d) = Bytes c + Bytes d" by (simp_all add: cc_Add_def)
  show ?thesis unfolding w [symmetric] cc_Sub_def u a by (simp only: not_less [symmetric] de_Morgan_conj not_not if_split_eq1) blast
qed

end
