(* ===== verification/Next_Hops.thy ===== *)
theory Next_Hops
  imports Ip4_Prefix Complex_Main
begin

section \<open>Vectors of next hops: vnet/ip/adjacency.go\<close>

text \<open>
  A multipath is a vector of weighted next hops. Before it is laid out, it is sorted and its weights are
  scaled to a block of adjacencies whose size is a power of 2. The code scales in \<open>float64\<close>: here the operations are
  those on the reals, each followed by a rounding \<open>rnd\<close>, a parameter. IEEE rounding is monotone and fixes 0, which is
  all the theorems for any rounding use; the theorem on the number of rounds is for the exact operations.
\<close>

record nextHop =
  nhAdj :: Adj
  Weight :: u32

text \<open>\<open>compare\<close>: by decreasing weight, then by increasing adjacency; the result is a Go \<open>int\<close>, which cannot overflow.\<close>

definition nh_compare :: "nextHop \<Rightarrow> nextHop \<Rightarrow> int" where
  "nh_compare a b = (
     let cmp = int (unat (Weight b)) - int (unat (Weight a))
     in if cmp = 0 then int (unat (nhAdj a)) - int (unat (nhAdj b)) else cmp)"

definition nh_equal :: "nextHop list \<Rightarrow> nextHop list \<Rightarrow> bool" where
  "nh_equal a b \<longleftrightarrow> length a = length b \<and> list_all2 (\<lambda>x y. nh_compare x y = 0) a b"

text \<open>\<open>sort.Slice\<close> with this comparison. Next hops that compare equal are equal, so every sort gives the same list.\<close>

fun nh_insort :: "nextHop \<Rightarrow> nextHop list \<Rightarrow> nextHop list" where
  "nh_insort a [] = [a]"
| "nh_insort a (b # bs) = (if nh_compare b a < 0 then b # nh_insort a bs else a # b # bs)"

definition nh_sort :: "nextHop list \<Rightarrow> nextHop list" where
  "nh_sort xs = foldr nh_insort xs []"

subsection \<open>Normalization\<close>

text \<open>The weights of one round, with what is left of the block; \<open>uint(nf + .5)\<close> truncates.\<close>

fun assign :: "(real \<Rightarrow> real) \<Rightarrow> real \<Rightarrow> nextHop list \<Rightarrow> nat \<Rightarrow> nextHop list \<times> nat" where
  "assign rnd w [] nLeft = ([], nLeft)"
| "assign rnd w (x # xs) nLeft = (
     let nf = rnd (w * real (unat (Weight x)));
         n = nat \<lfloor>rnd (nf + 1 / 2)\<rfloor>;
         n = (if nLeft < n then nLeft else n);
         (ys, l) = assign rnd w xs (nLeft - n)
     in (x\<lparr>Weight := of_nat n\<rparr> # ys, l))"

fun add_left :: "nat \<Rightarrow> nextHop list \<Rightarrow> nextHop list" where
  "add_left l [] = []"
| "add_left l (x # xs) = x\<lparr>Weight := Weight x + of_nat l\<rparr> # xs"

fun flow_error :: "(real \<Rightarrow> real) \<Rightarrow> real \<Rightarrow> nat \<Rightarrow> nextHop list \<Rightarrow> nextHop list \<Rightarrow> real \<Rightarrow> real" where
  "flow_error rnd sumWeight nAdj (s # ss) (t # ts) e = (
     let want = rnd (real (unat (Weight s)) / sumWeight);
         got = rnd (real (unat (Weight t)) / real nAdj)
     in flow_error rnd sumWeight nAdj ss ts (rnd (e + abs (rnd (want - got)))))"
| "flow_error rnd sumWeight nAdj ss ts e = e"

text \<open>The loop over the powers of 2, for at most \<open>fuel\<close> of them.\<close>

fun norm_loop :: "nat \<Rightarrow> (real \<Rightarrow> real) \<Rightarrow> real \<Rightarrow> nextHop list \<Rightarrow> real \<Rightarrow> nat \<Rightarrow> (nat \<times> nextHop list) option" where
  "norm_loop 0 rnd tol t_save sumWeight nAdj = None"
| "norm_loop (Suc fuel) rnd tol t_save sumWeight nAdj = (
     let w = rnd (real nAdj / sumWeight);
         (t, nLeft) = assign rnd w t_save nAdj;
         t = add_left nLeft t
     in if flow_error rnd sumWeight nAdj t_save t 0 < tol
        then Some (nAdj, takeWhile (\<lambda>x. Weight x \<noteq> 0) t)
        else norm_loop fuel rnd tol t_save sumWeight (nAdj * 2))"

definition sum_weight :: "(real \<Rightarrow> real) \<Rightarrow> nextHop list \<Rightarrow> real" where
  "sum_weight rnd t = fold (\<lambda>x s. rnd (s + real (unat (Weight x)))) t 0"

definition tolerance :: "(real \<Rightarrow> real) \<Rightarrow> real \<Rightarrow> real" where
  "tolerance rnd tol = (if tol = 0 then rnd (1 / 100) else tol)"

definition normalizePow2 :: "nat \<Rightarrow> (real \<Rightarrow> real) \<Rightarrow> real \<Rightarrow> nextHop list \<Rightarrow> (nat \<times> nextHop list) option" where
  "normalizePow2 fuel rnd tol given = (
     let n = length given in
     if n = 0 then Some (0, [])
     else if n = 1 then Some (1, [(given ! 0)\<lparr>Weight := 1\<rparr>])
     else let t = (if n = 2
         then let cmp = (if nh_compare (given ! 0) (given ! 1) > 0 then 1 else 0) in [given ! cmp, given ! (1 - cmp)]
         else nh_sort given)
       in if n = 2 \<and> Weight (t ! 0) = Weight (t ! 1) then Some (2, map (\<lambda>x. x\<lparr>Weight := 1\<rparr>) t)
       else let sumWeight = sum_weight rnd t;
           (t, sumWeight) = (if sumWeight = 0 then (map (\<lambda>x. x\<lparr>Weight := 1\<rparr>) t, rnd (real n)) else (t, sumWeight))
         in norm_loop fuel rnd (tolerance rnd tol) t sumWeight (unat (MaxPow2 (of_nat n))))"

subsection \<open>Merging duplicates, finding and editing next hops\<close>

text \<open>\<open>sum_duplicates\<close> works in place: \<open>i\<close> reads and \<open>j\<close> writes the same array.\<close>

definition sumdup_step :: "nat \<Rightarrow> nextHop list \<times> nat \<times> Adj \<Rightarrow> nextHop list \<times> nat \<times> Adj" where
  "sumdup_step i = (\<lambda>(r, j, lastAdj).
     if 0 < i \<and> nhAdj (r ! i) = lastAdj
     then (r[j := (r ! j)\<lparr>Weight := Weight (r ! j) + Weight (r ! i)\<rparr>], j, nhAdj (r ! i))
     else (r[j := r ! i], j + 1, nhAdj (r ! i)))"

definition sum_duplicates :: "nextHop list \<Rightarrow> nextHop list" where
  "sum_duplicates r = (case fold sumdup_step [0..<length r] (r, 0, AdjNil) of (r, j, _) \<Rightarrow> take j r)"

fun nh_find :: "nextHop list \<Rightarrow> Adj \<Rightarrow> nat \<times> bool" where
  "nh_find [] target = (0, False)"
| "nh_find (x # xs) target = (if nhAdj x = target then (0, True) else case nh_find xs target of (i, ok) \<Rightarrow> (i + 1, ok))"

text \<open>The vector \<open>AddDelNextHop\<close> makes of the old one, next hop \<open>nhi\<close> being the one to change; deleting from
  no next hops slices below 0.\<close>

definition edit_next_hops :: "nextHop list \<Rightarrow> nat \<Rightarrow> Adj \<Rightarrow> u32 \<Rightarrow> bool \<Rightarrow> nextHop list option" where
  "edit_next_hops nhs nhi a w isDel = (
     if isDel then (if length nhs = 0 then None else Some (take nhi nhs @ drop (nhi + 1) nhs))
     else if nhi < length nhs then Some (nhs[nhi := (nhs ! nhi)\<lparr>Weight := w\<rparr>])
     else Some (nhs @ [\<lparr>nhAdj = a, Weight = w\<rparr>]))"

subsection \<open>Duplicates are dropped, not summed\<close>

text \<open>The next hops that start a run of equal adjacencies.\<close>

definition starts_run :: "nextHop list \<Rightarrow> nat \<Rightarrow> bool" where
  "starts_run r i \<longleftrightarrow> i = 0 \<or> nhAdj (r ! i) \<noteq> nhAdj (r ! (i - 1))"

definition run_heads :: "nextHop list \<Rightarrow> nextHop list" where
  "run_heads r = map ((!) r) (filter (starts_run r) [0..<length r])"

lemma sumdup_inv:
  assumes "n \<le> length r"
  shows "\<exists>q j. fold sumdup_step [0..<n] (r, 0, AdjNil) = (q, j, if n = 0 then AdjNil else nhAdj (r ! (n - 1))) \<and>
    length q = length r \<and> drop n q = drop n r \<and> j \<le> n \<and>
    take j q = map ((!) r) (filter (\<lambda>i. i = 0 \<or> nhAdj (r ! i) \<noteq> nhAdj (r ! (i - 1))) [0..<n])"
  using assms
proof (induction n)
  case (Suc n)
  then obtain q j where q: "fold sumdup_step [0..<n] (r, 0, AdjNil) = (q, j, if n = 0 then AdjNil else nhAdj (r ! (n - 1)))"
    "length q = length r" "drop n q = drop n r" "j \<le> n"
    "take j q = map ((!) r) (filter (\<lambda>i. i = 0 \<or> nhAdj (r ! i) \<noteq> nhAdj (r ! (i - 1))) [0..<n])" by auto
  have n: "q ! n = r ! n" using q(2,3) Suc.prems by (metis Cons_nth_drop_Suc Suc_le_eq list.inject)
  have d: "drop (Suc n) (q[j := x]) = drop (Suc n) r" for x
    using q(3,4) by (metis drop_Suc drop_update_cancel le_imp_less_Suc tl_drop)
  have f: "fold sumdup_step [0..<Suc n] (r, 0, AdjNil) = sumdup_step n (q, j, if n = 0 then AdjNil else nhAdj (r ! (n - 1)))"
    using q(1) by simp
  show ?case
  proof (cases "0 < n \<and> nhAdj (r ! n) = nhAdj (r ! (n - 1))")
    case True
    then have "sumdup_step n (q, j, if n = 0 then AdjNil else nhAdj (r ! (n - 1))) =
      (q[j := (q ! j)\<lparr>Weight := Weight (q ! j) + Weight (q ! n)\<rparr>], j, nhAdj (r ! n))" using n by (simp add: sumdup_step_def)
    then show ?thesis unfolding f using True q d by simp
  next
    case False
    then have "sumdup_step n (q, j, if n = 0 then AdjNil else nhAdj (r ! (n - 1))) = (q[j := r ! n], Suc j, nhAdj (r ! n))"
      using n by (auto simp: sumdup_step_def)
    moreover have "take (Suc j) (q[j := r ! n]) = take j q @ [r ! n]" using q(2,4) Suc.prems by (simp add: take_Suc_conv_app_nth)
    ultimately show ?thesis unfolding f using False q d by auto
  qed
qed simp

lemma sum_duplicates_heads: "sum_duplicates r = run_heads r"
  using sumdup_inv [of "length r" r] by (auto simp: sum_duplicates_def run_heads_def starts_run_def [abs_def])

subsection \<open>Editing\<close>

definition nh_map :: "nextHop list \<Rightarrow> Adj \<rightharpoonup> u32" where
  "nh_map nhs = map_of (map (\<lambda>x. (nhAdj x, Weight x)) nhs)"

lemma nh_find_spec:
  "nh_find nhs a = (i, ok) \<Longrightarrow> i \<le> length nhs \<and> (ok \<longleftrightarrow> i < length nhs) \<and> (ok \<longleftrightarrow> a \<in> nhAdj ` set nhs) \<and>
     (ok \<longrightarrow> nhAdj (nhs ! i) = a) \<and> (\<forall>k < i. nhAdj (nhs ! k) \<noteq> a)"
proof (induction nhs arbitrary: i ok)
  case (Cons x xs)
  obtain i' ok' where f: "nh_find xs a = (i', ok')" by (cases "nh_find xs a")
  show ?case using Cons.IH [OF f] Cons.prems f by (auto simp: less_Suc_eq_0_disj split: if_splits)
qed simp

lemma nh_map_Nil [simp]: "nh_map [] = Map.empty"
  and nh_map_Cons [simp]: "nh_map (x # xs) = (nh_map xs)(nhAdj x \<mapsto> Weight x)"
  by (simp_all add: nh_map_def)

lemma nh_map_None: "nh_map xs a = None \<longleftrightarrow> a \<notin> nhAdj ` set xs"
  by (induction xs) auto

lemma set_take_drop: "set (take i xs @ drop j xs) \<subseteq> set xs"
  using set_take_subset set_drop_subset by fastforce

lemma delete_next_hop:
  "distinct (map nhAdj nhs) \<Longrightarrow> nh_find nhs a = (i, True) \<Longrightarrow>
     nh_map (take i nhs @ drop (i + 1) nhs) = (nh_map nhs)(a := None) \<and> distinct (map nhAdj (take i nhs @ drop (i + 1) nhs))"
proof (induction nhs arbitrary: i)
  case (Cons x xs)
  obtain i' ok where f: "nh_find xs a = (i', ok)" by (cases "nh_find xs a")
  show ?case
  proof (cases "nhAdj x = a")
    case True
    then have "nh_map xs a = None" using Cons.prems(1) by (auto simp: nh_map_None)
    then show ?thesis using Cons.prems True by (auto simp: fun_upd_idem)
  next
    case False
    then have ok: "ok" and i: "i = Suc i'" using Cons.prems(2) f by auto
    note IH = Cons.IH [of i'] 
    have "nhAdj x \<notin> nhAdj ` set (take i' xs @ drop (i' + 1) xs)"
      using Cons.prems(1) set_take_drop [of i' xs "i' + 1"] by auto
    then show ?thesis using IH Cons.prems(1) f ok False by (auto simp: i fun_upd_twist)
  qed
qed simp

lemma reweigh_next_hop:
  "nh_find nhs a = (i, True) \<Longrightarrow> distinct (map nhAdj nhs) \<Longrightarrow>
     nh_map (nhs[i := (nhs ! i)\<lparr>Weight := w\<rparr>]) = (nh_map nhs)(a \<mapsto> w) \<and> map nhAdj (nhs[i := (nhs ! i)\<lparr>Weight := w\<rparr>]) = map nhAdj nhs"
proof (induction nhs arbitrary: i)
  case (Cons x xs)
  obtain i' ok where f: "nh_find xs a = (i', ok)" by (cases "nh_find xs a")
  show ?case using Cons.IH [of i'] Cons.prems f by (cases "nhAdj x = a") (auto simp: fun_upd_twist)
qed simp

lemma add_next_hop: "a \<notin> nhAdj ` set nhs \<Longrightarrow> nh_map (nhs @ [\<lparr>nhAdj = a, Weight = w\<rparr>]) = (nh_map nhs)(a \<mapsto> w)"
  by (induction nhs) (auto simp: fun_upd_twist)

lemma edit_next_hops_spec:
  assumes d: "distinct (map nhAdj nhs)" and f: "nh_find nhs a = (i, ok)" and del: "isDel \<Longrightarrow> ok"
  shows "\<exists>nhs'. edit_next_hops nhs i a w isDel = Some nhs' \<and> distinct (map nhAdj nhs') \<and>
     nh_map nhs' = (nh_map nhs)(a := if isDel then None else Some w)"
proof (cases ok)
  case True
  then have f': "nh_find nhs a = (i, True)" and i: "i < length nhs" using f nh_find_spec [OF f] by auto
  show ?thesis
    using delete_next_hop [OF d f'] reweigh_next_hop [OF f' d, of w] d i by (cases isDel) (auto simp: edit_next_hops_def)
next
  case False
  then have "\<not> isDel" "i = length nhs" "a \<notin> nhAdj ` set nhs" using del nh_find_spec [OF f] by auto
  then show ?thesis using d add_next_hop [of a nhs w] by (auto simp: edit_next_hops_def)
qed

subsection \<open>Sharing a block\<close>

text \<open>The shares of a block: each next hop gets what it wants as far as the block goes.\<close>

fun shares :: "nat list \<Rightarrow> nat \<Rightarrow> nat list \<times> nat" where
  "shares [] l = ([], l)"
| "shares (r # rs) l = (let (ns, l') = shares rs (l - min r l) in (min r l # ns, l'))"

fun add_head :: "nat \<Rightarrow> nat list \<Rightarrow> nat list" where
  "add_head l [] = []"
| "add_head l (n # ns) = (n + l) # ns"

definition lay :: "nextHop list \<Rightarrow> nat list \<Rightarrow> nextHop list" where
  "lay xs vs = map2 (\<lambda>x n. x\<lparr>Weight := of_nat n\<rparr>) xs vs"

definition share :: "(real \<Rightarrow> real) \<Rightarrow> real \<Rightarrow> nextHop \<Rightarrow> nat" where
  "share rnd w x = nat \<lfloor>rnd (rnd (w * real (unat (Weight x))) + 1 / 2)\<rfloor>"

abbreviation decreasing :: "nat list \<Rightarrow> bool" where
  "decreasing \<equiv> sorted_wrt (\<ge>)"

lemma shares_sum: "shares rs l = (ns, l') \<Longrightarrow> sum_list ns + l' = l \<and> length ns = length rs \<and> (l' = 0 \<or> ns = rs) \<and>
   list_all2 (\<le>) ns rs \<and> (\<forall>n \<in> set ns. n \<le> l)"
proof (induction rs arbitrary: l ns)
  case (Cons r rs)
  obtain ms where m: "shares rs (l - min r l) = (ms, l')" "ns = min r l # ms"
    using Cons.prems by (auto simp: Let_def split: prod.splits)
  from Cons.IH [OF m(1)] show ?case unfolding m(2) by (auto simp: min_def split: if_splits)
qed simp

lemma shares_decreasing: "decreasing rs \<Longrightarrow> decreasing (fst (shares rs l))"
proof (induction rs arbitrary: l)
  case (Cons r rs)
  obtain ms l' where m: "shares rs (l - min r l) = (ms, l')" by (cases "shares rs (l - min r l)")
  have "n \<le> min r l" if n: "n \<in> set ms" for n
  proof -
    from shares_sum [OF m] have "list_all2 (\<le>) ms rs" "n \<le> l - min r l" using n by auto
    then obtain r' where "r' \<in> set rs" "n \<le> r'" using n by (metis list_all2_conv_all_nth in_set_conv_nth)
    then show ?thesis using Cons.prems \<open>n \<le> l - min r l\<close> by fastforce
  qed
  then show ?case using Cons.IH [of "l - min r l"] Cons.prems m by simp
qed simp

lemma add_head_decreasing: "decreasing ns \<Longrightarrow> decreasing (add_head l ns)"
  by (cases ns) fastforce+

lemma add_head_sum: "ns \<noteq> [] \<Longrightarrow> sum_list (add_head l ns) = sum_list ns + l"
  by (cases ns) simp_all

lemma length_add_head [simp]: "length (add_head l ns) = length ns"
  by (cases ns) simp_all

lemma assign_shares: "assign rnd w xs l = (case shares (map (share rnd w) xs) l of (ns, l') \<Rightarrow> (lay xs ns, l'))"
proof (induction xs arbitrary: l)
  case (Cons x xs)
  have e: "(if l < share rnd w x then l else share rnd w x) = min (share rnd w x) l" by (simp add: min_def)
  show ?case
    by (simp only: assign.simps Let_def share_def [symmetric] e Cons.IH) (simp add: lay_def Let_def split: prod.splits)
qed (simp add: lay_def)

lemma add_left_lay: "length ns = length xs \<Longrightarrow> add_left l (lay xs ns) = lay xs (add_head l ns)"
  by (cases ns; cases xs) (simp_all add: lay_def)

lemma sum_takeWhile_decreasing: "decreasing vs \<Longrightarrow> sum_list (takeWhile (\<lambda>n. n \<noteq> 0) vs) = sum_list vs"
  by (induction vs) auto

lemma unat_of_nat_32: "n < 2 ^ 32 \<Longrightarrow> unat (of_nat n :: u32) = n"
  by (simp add: unsigned_of_nat take_bit_nat_eq_self)

lemma lay_weights: "length vs = length xs \<Longrightarrow> \<forall>v \<in> set vs. v < 2 ^ 32 \<Longrightarrow> map (unat \<circ> Weight) (lay xs vs) = vs"
  unfolding lay_def by (induction vs xs rule: list_induct2) (simp_all add: unat_of_nat_32)

lemma lay_adjs: "length vs = length xs \<Longrightarrow> map nhAdj (lay xs vs) = map nhAdj xs"
  unfolding lay_def by (induction vs xs rule: list_induct2) simp_all

text \<open>The order of next hops and of their weights.\<close>

abbreviation by_weight :: "nextHop list \<Rightarrow> bool" where
  "by_weight \<equiv> sorted_wrt (\<lambda>x y. Weight y \<le> Weight x)"

lemma nh_compare_neg: "nh_compare b a < 0 \<Longrightarrow> Weight a \<le> Weight b" "\<not> nh_compare b a < 0 \<Longrightarrow> Weight b \<le> Weight a"
  unfolding nh_compare_def Let_def word_le_nat_alt by (simp_all del: of_nat_unat split: if_splits)

lemma mset_nh_insort: "mset (nh_insort a bs) = add_mset a (mset bs)"
  by (induction bs) auto

lemma mset_nh_sort: "mset (nh_sort xs) = mset xs"
  unfolding nh_sort_def by (induction xs) (simp_all add: mset_nh_insort)

lemma nh_insort_by_weight: "by_weight bs \<Longrightarrow> by_weight (nh_insort a bs)"
proof (induction bs)
  case (Cons b bs)
  have "set (nh_insort a bs) = insert a (set bs)" using mset_nh_insort [of a bs] by (metis set_mset_add_mset_insert set_mset_mset)
  then show ?case using Cons nh_compare_neg [of b a] by (auto intro: order_trans)
qed simp

lemma nh_sort_by_weight: "by_weight (nh_sort xs)"
  unfolding nh_sort_def by (induction xs) (simp_all add: nh_insort_by_weight)

lemma share_decreasing:
  assumes "mono rnd" "0 \<le> w" "by_weight xs"
  shows "decreasing (map (share rnd w) xs)"
proof -
  have "share rnd w y \<le> share rnd w x" if "Weight y \<le> Weight x" for x y
  proof -
    have "w * real (unat (Weight y)) \<le> w * real (unat (Weight x))"
      using that assms(2) unfolding word_le_nat_alt by (intro mult_left_mono of_nat_mono)
    then show ?thesis unfolding share_def using assms(1) by (intro nat_mono floor_mono) (simp add: monoD)
  qed
  then show ?thesis using assms(3) by (simp add: sorted_wrt_map sorted_wrt_mono_rel [of xs "\<lambda>x y. Weight y \<le> Weight x"])
qed

text \<open>One round: the layout of a block of \<open>n\<close> adjacencies.\<close>

definition round_values :: "(real \<Rightarrow> real) \<Rightarrow> real \<Rightarrow> nextHop list \<Rightarrow> nat \<Rightarrow> nat list" where
  "round_values rnd w xs n = (case shares (map (share rnd w) xs) n of (ns, l) \<Rightarrow> add_head l ns)"

lemma round_lay: "(case assign rnd w xs n of (t, l) \<Rightarrow> add_left l t) = lay xs (round_values rnd w xs n)"
  using shares_sum [of "map (share rnd w) xs" n]
  by (auto simp: assign_shares round_values_def add_left_lay split: prod.splits)

lemma round_values_spec:
  assumes "xs \<noteq> []"
  shows "sum_list (round_values rnd w xs n) = n" "length (round_values rnd w xs n) = length xs"
    "\<forall>v \<in> set (round_values rnd w xs n). v \<le> n"
    "mono rnd \<Longrightarrow> 0 \<le> w \<Longrightarrow> by_weight xs \<Longrightarrow> decreasing (round_values rnd w xs n)"
proof -
  obtain ns l where s: "shares (map (share rnd w) xs) n = (ns, l)" by (cases "shares (map (share rnd w) xs) n")
  note S = shares_sum [OF s]
  have "ns \<noteq> []" using S assms by auto
  then show *: "sum_list (round_values rnd w xs n) = n" using S by (simp add: round_values_def s add_head_sum)
  show "length (round_values rnd w xs n) = length xs" using S by (simp add: round_values_def s)
  show "\<forall>v \<in> set (round_values rnd w xs n). v \<le> n" using member_le_sum_list [of _ "round_values rnd w xs n"] * by auto
  assume "mono rnd" "0 \<le> w" "by_weight xs"
  then show "decreasing (round_values rnd w xs n)"
    using shares_decreasing [OF share_decreasing, of rnd w xs n] by (simp add: round_values_def s add_head_decreasing)
qed

definition block :: "nextHop list \<Rightarrow> nat \<Rightarrow> nextHop list \<Rightarrow> bool" where
  "block given n out \<longleftrightarrow> sum_list (map (unat \<circ> Weight) out) = n \<and> 0 \<notin> Weight ` set out \<and> by_weight out \<and>
     mset (map nhAdj out) \<subseteq># mset (map nhAdj given)"

lemma takeWhile_mset: "mset (takeWhile P xs) \<subseteq># mset xs"
  by (metis mset_append mset_subset_eq_add_left takeWhile_dropWhile_id)

lemma nonzero_unat: "(\<lambda>x. Weight x \<noteq> 0) = (\<lambda>n. n \<noteq> 0) \<circ> (unat \<circ> Weight)"
  by (rule ext) (simp only: o_apply unat_eq_0)

lemma by_weight_unat: "by_weight xs \<longleftrightarrow> decreasing (map (unat \<circ> Weight) xs)"
  unfolding sorted_wrt_map by (simp only: o_apply word_le_nat_alt)

lemma round_block:
  assumes "mono rnd" "0 \<le> w" "by_weight xs" "xs \<noteq> []" "n < 2 ^ 32"
  shows "block xs n (takeWhile (\<lambda>x. Weight x \<noteq> 0) (lay xs (round_values rnd w xs n)))"
proof -
  define v t where "v = round_values rnd w xs n" and "t = lay xs v"
  define out where "out = takeWhile (\<lambda>x. Weight x \<noteq> 0) t"
  note v = round_values_spec [OF assms(4), of rnd w n, folded v_def]
  have d: "decreasing v" by (rule v(4) [OF assms(1-3)])
  have "\<forall>x \<in> set v. x < 2 ^ 32" using v(3) assms(5) by (meson order.strict_trans1)
  with v(2) have w: "map (unat \<circ> Weight) t = v" unfolding t_def by (rule lay_weights)
  have o: "map (unat \<circ> Weight) out = takeWhile (\<lambda>n. n \<noteq> 0) v"
    unfolding out_def nonzero_unat w [symmetric] by (rule takeWhile_map [symmetric])
  have 1: "sum_list (map (unat \<circ> Weight) out) = n" unfolding o sum_takeWhile_decreasing [OF d] by (rule v(1))
  have 2: "by_weight out" unfolding by_weight_unat o by (subst takeWhile_eq_take) (rule sorted_wrt_take [OF d])
  have 3: "mset (map nhAdj out) \<subseteq># mset (map nhAdj xs)"
  proof -
    have "map nhAdj xs = map nhAdj t" unfolding t_def by (rule lay_adjs [OF v(2), symmetric])
    then show ?thesis by (simp only: mset_map out_def image_mset_subseteq_mono [OF takeWhile_mset])
  qed
  have 4: "0 \<notin> Weight ` set out" unfolding out_def by (auto dest: set_takeWhileD)
  have "block xs n out" unfolding block_def by (intro conjI 1 2 3 4)
  then show ?thesis unfolding out_def t_def v_def .
qed

lemma norm_loop_block:
  assumes "mono rnd" "rnd 0 = 0" "0 \<le> S" "by_weight xs" "xs \<noteq> []"
  shows "norm_loop fuel rnd tol xs S n0 = Some (n, out) \<Longrightarrow> n < 2 ^ 32 \<Longrightarrow> (\<exists>k. n = n0 * 2 ^ k) \<and> block xs n out"
proof (induction fuel arbitrary: n0)
  case (Suc fuel)
  let ?w = "rnd (real n0 / S)" and ?t = "lay xs (round_values rnd (rnd (real n0 / S)) xs n0)"
  have w: "0 \<le> ?w" using monoD [OF assms(1), of 0 "real n0 / S"] assms(2,3) by simp
  have s: "norm_loop (Suc fuel) rnd tol xs S n0 = (if flow_error rnd S n0 xs ?t 0 < tol
      then Some (n0, takeWhile (\<lambda>x. Weight x \<noteq> 0) ?t) else norm_loop fuel rnd tol xs S (n0 * 2))"
    using round_lay [of rnd ?w xs n0] by (cases "assign rnd ?w xs n0") (simp add: Let_def)
  show ?case
  proof (cases "flow_error rnd S n0 xs ?t 0 < tol")
    case True
    then have "n = n0" "out = takeWhile (\<lambda>x. Weight x \<noteq> 0) ?t" using Suc.prems(1) s by simp_all
    then show ?thesis using round_block [OF assms(1) w assms(4,5)] Suc.prems(2) by (auto intro: exI [of _ 0])
  next
    case False
    then have "norm_loop fuel rnd tol xs S (n0 * 2) = Some (n, out)" using Suc.prems(1) s by simp
    from Suc.IH [OF this Suc.prems(2)] obtain k where "n = n0 * 2 * 2 ^ k" "block xs n out" by blast
    then show ?thesis by (auto intro: exI [of _ "Suc k"])
  qed
qed simp

subsection \<open>The normalized block\<close>

text \<open>The next hops in order, and the weights that are normalized: all 1 when they sum to 0.\<close>

definition nh_order :: "nextHop list \<Rightarrow> nextHop list" where
  "nh_order given = (if length given = 2
     then let cmp = (if nh_compare (given ! 0) (given ! 1) > 0 then 1 else 0) in [given ! cmp, given ! (1 - cmp)]
     else nh_sort given)"

definition unit_weights :: "nextHop list \<Rightarrow> nextHop list" where
  "unit_weights t = map (\<lambda>x. x\<lparr>Weight := 1\<rparr>) t"

definition to_normalize :: "(real \<Rightarrow> real) \<Rightarrow> nextHop list \<Rightarrow> nextHop list" where
  "to_normalize rnd t = (if sum_weight rnd t = 0 then unit_weights t else t)"

definition norm_sum :: "(real \<Rightarrow> real) \<Rightarrow> nextHop list \<Rightarrow> real" where
  "norm_sum rnd t = (if sum_weight rnd t = 0 then rnd (real (length t)) else sum_weight rnd t)"

lemma two_elements: "length given = 2 \<Longrightarrow> given = [given ! 0, given ! 1]"
  by (cases given rule: list.exhaust; cases "tl given") auto

lemma nh_order_spec: "by_weight (nh_order given)" "mset (nh_order given) = mset given" "length (nh_order given) = length given"
proof -
  have "by_weight (nh_order given) \<and> mset (nh_order given) = mset given"
  proof (cases "length given = 2")
    case True
    obtain a b where g: "given = [a, b]" using two_elements [OF True] by blast
    have "Weight b \<le> Weight a \<or> nh_compare a b > 0"
      unfolding nh_compare_def Let_def word_le_nat_alt by (auto simp del: of_nat_unat)
    moreover have "nh_compare a b > 0 \<Longrightarrow> Weight a \<le> Weight b"
      unfolding nh_compare_def Let_def word_le_nat_alt by (simp del: of_nat_unat split: if_splits)
    ultimately show ?thesis by (auto simp: nh_order_def g)
  qed (simp add: nh_order_def nh_sort_by_weight mset_nh_sort)
  then show "by_weight (nh_order given)" "mset (nh_order given) = mset given" by auto
  then show "length (nh_order given) = length given" by (metis size_mset)
qed

lemma normalizePow2_cases:
  assumes "2 \<le> length given"
  shows "normalizePow2 fuel rnd tol given = (let t = nh_order given in
    if length given = 2 \<and> Weight (t ! 0) = Weight (t ! 1) then Some (2, unit_weights t)
    else norm_loop fuel rnd (tolerance rnd tol) (to_normalize rnd t) (norm_sum rnd t) (unat (MaxPow2 (of_nat (length given)))))"
proof -
  have "length given \<noteq> 0" "length given \<noteq> 1" using assms by auto
  then show ?thesis
    unfolding normalizePow2_def Let_def nh_order_def [unfolded Let_def, symmetric] unit_weights_def [symmetric]
    using nh_order_spec(3) [of given] by (simp add: to_normalize_def norm_sum_def)
qed

lemma sum_weight_nonneg: "mono rnd \<Longrightarrow> rnd 0 = 0 \<Longrightarrow> 0 \<le> sum_weight rnd t"
proof -
  assume r: "mono rnd" "rnd 0 = 0"
  have "0 \<le> s \<Longrightarrow> 0 \<le> fold (\<lambda>x s. rnd (s + real (unat (Weight x)))) t s" for s
  proof (induction t arbitrary: s)
    case (Cons x t)
    have "0 \<le> s + real (unat (Weight x))" by (intro add_nonneg_nonneg Cons.prems of_nat_0_le_iff)
    then have "0 \<le> rnd (s + real (unat (Weight x)))" using monoD [OF r(1)] r(2) by fastforce
    then show ?case using Cons.IH by simp
  qed simp
  then show ?thesis by (simp add: sum_weight_def)
qed

lemma unit_weights_spec: "by_weight (unit_weights t)" "map nhAdj (unit_weights t) = map nhAdj t" "length (unit_weights t) = length t"
  by (simp_all add: unit_weights_def sorted_wrt_map sorted_wrt_iff_nth_less o_def)

lemma to_normalize_spec:
  "by_weight t \<Longrightarrow> by_weight (to_normalize rnd t)" "map nhAdj (to_normalize rnd t) = map nhAdj t" "length (to_normalize rnd t) = length t"
  by (simp_all add: to_normalize_def unit_weights_spec)

lemma block_order: "block (to_normalize rnd (nh_order given)) n out \<Longrightarrow> block given n out"
proof -
  have "mset (map nhAdj (to_normalize rnd (nh_order given))) = mset (map nhAdj given)"
    unfolding to_normalize_spec(2) by (simp add: nh_order_spec)
  then show "block (to_normalize rnd (nh_order given)) n out \<Longrightarrow> block given n out" unfolding block_def by simp
qed

lemma MaxPow2_length:
  assumes "0 < n" "n \<le> 2 ^ 63"
  shows "\<exists>k. unat (MaxPow2 (of_nat n)) = 2 ^ k \<and> n \<le> 2 ^ k \<and> 2 ^ k < 2 * n"
proof -
  have u: "unat (of_nat n :: u64) = n" using assms(2) by (simp add: unsigned_of_nat take_bit_nat_eq_self)
  then have nz: "(of_nat n :: u64) \<noteq> 0" using assms(1) by (metis neq0_conv unat_eq_0)
  from MaxLog2_bounds [OF nz] MaxPow2_MaxLog2 [OF nz] show ?thesis using u assms(2) by auto
qed

lemma normalizePow2_spec:
  assumes r: "mono rnd" "rnd 0 = 0" and g: "given \<noteq> []" "length given < 2 ^ 32"
    and n: "normalizePow2 fuel rnd tol given = Some (nAdj, out)" "nAdj < 2 ^ 32"
  shows "(\<exists>k. nAdj = 2 ^ k) \<and> block given nAdj out"
proof (cases "length given < 2")
  case True
  with g(1) have l: "length given = 1" by (cases given) auto
  obtain a where a: "given = [a]" using l by (cases given) auto
  have "nAdj = 1" "out = [a\<lparr>Weight := 1\<rparr>]" using n(1) a by (auto simp: normalizePow2_def)
  then show ?thesis by (auto simp: block_def a intro: exI [of _ 0])
next
  case False
  then have l: "2 \<le> length given" by simp
  let ?t = "nh_order given"
  note o = nh_order_spec [of given]
  show ?thesis
  proof (cases "length given = 2 \<and> Weight (?t ! 0) = Weight (?t ! 1)")
    case True
    then have e: "nAdj = 2" "out = unit_weights ?t" using n(1) normalizePow2_cases [OF l, of fuel rnd tol] by simp_all
    obtain a b where t: "?t = [a, b]" using two_elements [of ?t] o(3) True by auto
    have "mset (map nhAdj out) = mset (map nhAdj given)" unfolding e(2) unit_weights_spec(2) by (simp add: o(2))
    then have "block given nAdj out" using unit_weights_spec(1) [of ?t] by (simp add: block_def e t unit_weights_def)
    then show ?thesis using e(1) by (auto intro: exI [of _ 1])
  next
    case False
    have s: "norm_loop fuel rnd (tolerance rnd tol) (to_normalize rnd ?t) (norm_sum rnd ?t)
        (unat (MaxPow2 (of_nat (length given)))) = Some (nAdj, out)"
      using n(1) unfolding normalizePow2_cases [OF l] Let_def if_not_P [OF False] .
    have 0: "0 \<le> norm_sum rnd ?t" using sum_weight_nonneg [OF r, of ?t] monoD [OF r(1), of 0 "real (length ?t)"] r(2)
      by (simp add: norm_sum_def)
    have ne: "to_normalize rnd ?t \<noteq> []" using to_normalize_spec(3) [of rnd ?t] o(3) l by (metis list.size(3) not_numeral_le_zero)
    obtain k0 where k0: "unat (MaxPow2 (of_nat (length given))) = 2 ^ k0"
      using MaxPow2_length [of "length given"] g l by auto
    from norm_loop_block [OF r 0 to_normalize_spec(1) [OF o(1)] ne s n(2)] obtain k where
      "nAdj = 2 ^ k0 * 2 ^ k" "block (to_normalize rnd ?t) nAdj out" unfolding k0 by blast
    then show ?thesis using block_order [of rnd given nAdj out] by (auto intro: exI [of _ "k0 + k"] simp: power_add)
  qed
qed

subsection \<open>The rounds end\<close>

declare of_nat_unat [simp del]

text \<open>With exact arithmetic: the distance between what the next hops want of a block and what they get.\<close>

definition distance :: "real list \<Rightarrow> nat list \<Rightarrow> real" where
  "distance xs vs = sum_list (map2 (\<lambda>x v. abs (x - real v)) xs vs)"

lemma distance_le:
  "list_all2 (\<lambda>x v. real v \<le> x + 1 / 2) xs vs \<Longrightarrow> distance xs vs \<le> real (length xs) + sum_list xs - real (sum_list vs)"
  unfolding distance_def by (induction rule: list_all2_induct) (auto simp: abs_if)

lemma distance_add_head: "length xs = length vs \<Longrightarrow> distance xs (add_head l vs) \<le> distance xs vs + real l"
  by (cases vs; cases xs) (auto simp: distance_def abs_if)

lemma rounding: "0 \<le> x \<Longrightarrow> real (nat \<lfloor>x + 1 / 2\<rfloor>) \<le> x + 1 / 2 \<and> x - 1 / 2 \<le> real (nat \<lfloor>x + 1 / 2\<rfloor>)"
  by linarith

lemma rounded_sum:
  "\<forall>x \<in> set xs. 0 \<le> x \<Longrightarrow> sum_list xs - real (sum_list (map (\<lambda>x. nat \<lfloor>x + 1 / 2\<rfloor>) xs)) \<le> real (length xs) / 2"
proof (induction xs)
  case (Cons x xs)
  then show ?case using rounding [of x] by simp
qed simp

lemma shares_distance:
  assumes "\<forall>x \<in> set xs. 0 \<le> x" "sum_list xs = real n" "xs \<noteq> []"
    and s: "shares (map (\<lambda>x. nat \<lfloor>x + 1 / 2\<rfloor>) xs) n = (ns, l)"
  shows "distance xs (add_head l ns) \<le> 2 * real (length xs)"
proof -
  let ?rs = "map (\<lambda>x. nat \<lfloor>x + 1 / 2\<rfloor>) xs"
  note S = shares_sum [OF s]
  have "list_all2 (\<lambda>x v. real v \<le> x + 1 / 2) xs ns"
    unfolding list_all2_conv_all_nth
  proof (intro conjI allI impI)
    fix i assume i: "i < length xs"
    then have "ns ! i \<le> nat \<lfloor>xs ! i + 1 / 2\<rfloor>" using S by (auto simp: list_all2_conv_all_nth)
    moreover have "0 \<le> xs ! i" using assms(1) i by simp
    ultimately show "real (ns ! i) \<le> xs ! i + 1 / 2" using rounding [of "xs ! i"] by linarith
  qed (use S in simp)
  from distance_le [OF this] have 1: "distance xs ns \<le> real (length xs) + real l" using S assms(2) by (simp add: algebra_simps)
  have 2: "real l \<le> real (length xs) / 2"
  proof (cases "l = 0")
    case False
    then have "ns = ?rs" using S by blast
    then have "real l = sum_list xs - real (sum_list ?rs)" using S assms(2) by (simp add: algebra_simps)
    then show ?thesis using rounded_sum [OF assms(1)] by simp
  qed simp
  have "distance xs (add_head l ns) \<le> distance xs ns + real l" using S by (intro distance_add_head) simp
  then show ?thesis using 1 2 by linarith
qed

lemma flow_error_exact:
  "length ss = length ts \<Longrightarrow> flow_error (\<lambda>x. x) S n ss ts e =
     e + sum_list (map2 (\<lambda>s t. abs (real (unat (Weight s)) / S - real (unat (Weight t)) / real n)) ss ts)"
  by (induction ss ts arbitrary: e rule: list_induct2) (simp_all add: Let_def)

lemma flow_error_distance:
  assumes "0 < n" "0 < S" "length vs = length xs" "map (unat \<circ> Weight) t = vs"
  shows "flow_error (\<lambda>x. x) S n xs t 0 = distance (map (\<lambda>x. real n / S * real (unat (Weight x))) xs) vs / real n"
proof -
  have l: "length xs = length t" using assms(3,4) by auto
  have "flow_error (\<lambda>x. x) S n xs t 0 = sum_list (map2 (\<lambda>s t. abs (real (unat (Weight s)) / S - real (unat (Weight t)) / real n)) xs t)"
    using flow_error_exact [OF l] by simp
  also have "\<dots> = distance (map (\<lambda>x. real n / S * real (unat (Weight x))) xs) (map (unat \<circ> Weight) t) / real n"
    unfolding distance_def using l
  proof (induction xs t rule: list_induct2)
    case (Cons x xs y ys)
    let ?a = "real (unat (Weight x))" and ?b = "real (unat (Weight y))"
    have "?a / S - ?b / real n = (real n / S * ?a - ?b) / real n" using assms(1) by (simp add: diff_divide_distrib)
    then have "abs (?a / S - ?b / real n) = abs (real n / S * ?a - ?b) / real n" by simp
    then show ?case using Cons.IH by (simp add: add_divide_distrib)
  qed simp
  finally show ?thesis unfolding assms(4) .
qed

definition exact_sum :: "nextHop list \<Rightarrow> real" where
  "exact_sum xs = sum_list (map (\<lambda>x. real (unat (Weight x))) xs)"

lemma round_error:
  assumes "0 < n" "n < 2 ^ 32" "0 < exact_sum xs"
  shows "flow_error (\<lambda>x. x) (exact_sum xs) n xs (lay xs (round_values (\<lambda>x. x) (real n / exact_sum xs) xs n)) 0
    \<le> 2 * real (length xs) / real n"
proof -
  let ?S = "exact_sum xs"
  let ?xs = "map (\<lambda>x. real n / ?S * real (unat (Weight x))) xs"
  have ne: "xs \<noteq> []" using assms(3) by (auto simp: exact_sum_def)
  note v = round_values_spec [OF ne, of "\<lambda>x. x" "real n / ?S" n]
  have "\<forall>x \<in> set (round_values (\<lambda>x. x) (real n / ?S) xs n). x < 2 ^ 32" using v(3) assms(2) by (meson order.strict_trans1)
  then have w: "map (unat \<circ> Weight) (lay xs (round_values (\<lambda>x. x) (real n / ?S) xs n)) = round_values (\<lambda>x. x) (real n / ?S) xs n"
    by (rule lay_weights [OF v(2)])
  obtain ns l where s: "shares (map (share (\<lambda>x. x) (real n / ?S)) xs) n = (ns, l)"
    by (cases "shares (map (share (\<lambda>x. x) (real n / ?S)) xs) n")
  have m: "map (share (\<lambda>x. x) (real n / ?S)) xs = map (\<lambda>x. nat \<lfloor>x + 1 / 2\<rfloor>) ?xs" by (simp add: share_def)
  have r: "round_values (\<lambda>x. x) (real n / ?S) xs n = add_head l ns" by (simp add: round_values_def s)
  have pos: "\<forall>x \<in> set ?xs. 0 \<le> x" using assms(3) by auto
  have "sum_list ?xs = real n / ?S * ?S" unfolding exact_sum_def sum_list_const_mult ..
  then have tot: "sum_list ?xs = real n" using assms(3) by simp
  have "distance ?xs (add_head l ns) \<le> 2 * real (length ?xs)"
    by (rule shares_distance [OF pos tot _ s [unfolded m]]) (use ne in simp)
  then have "distance ?xs (add_head l ns) / real n \<le> 2 * real (length xs) / real n"
    using assms(1) by (intro divide_right_mono) simp_all
  then show ?thesis using flow_error_distance [OF assms(1,3) v(2) w] unfolding r by linarith
qed

lemma norm_loop_returns:
  assumes "0 < exact_sum xs"
  shows "2 * real (length xs) / real (n * 2 ^ k) < tol \<Longrightarrow> 0 < n \<Longrightarrow> n * 2 ^ k < 2 ^ 32 \<Longrightarrow>
     \<exists>n' out. norm_loop (Suc k) (\<lambda>x. x) tol xs (exact_sum xs) n = Some (n', out) \<and> n' \<le> n * 2 ^ k"
proof (induction k arbitrary: n)
  case 0
  let ?t = "lay xs (round_values (\<lambda>x. x) (real n / exact_sum xs) xs n)"
  have "flow_error (\<lambda>x. x) (exact_sum xs) n xs ?t 0 < tol"
    using round_error [OF _ _ assms, of n] 0 by simp
  then show ?case using round_lay [of "\<lambda>x. x" "real n / exact_sum xs" xs n]
    by (cases "assign (\<lambda>x. x) (real n / exact_sum xs) xs n") (simp add: Let_def)
next
  case (Suc k)
  let ?t = "lay xs (round_values (\<lambda>x. x) (real n / exact_sum xs) xs n)"
  have s: "norm_loop (Suc (Suc k)) (\<lambda>x. x) tol xs (exact_sum xs) n = (if flow_error (\<lambda>x. x) (exact_sum xs) n xs ?t 0 < tol
      then Some (n, takeWhile (\<lambda>x. Weight x \<noteq> 0) ?t) else norm_loop (Suc k) (\<lambda>x. x) tol xs (exact_sum xs) (n * 2))"
    using round_lay [of "\<lambda>x. x" "real n / exact_sum xs" xs n]
    by (cases "assign (\<lambda>x. x) (real n / exact_sum xs) xs n") (simp add: Let_def del: norm_loop.simps(2) add: norm_loop.simps(2) [of "Suc k"])
  have "n \<le> n * 2 ^ Suc k" by simp
  moreover obtain n' out where "norm_loop (Suc k) (\<lambda>x. x) tol xs (exact_sum xs) (n * 2) = Some (n', out)" "n' \<le> n * 2 * 2 ^ k"
    using Suc.IH [of "n * 2"] Suc.prems by (auto simp: mult.assoc)
  ultimately show ?case unfolding s by (simp add: mult.assoc)
qed

text \<open>The number of rounds for the tolerance of 1 per cent the code sets.\<close>

lemma sum_weight_exact: "sum_weight (\<lambda>x. x) t = exact_sum t"
proof -
  have "fold (\<lambda>x s. s + real (unat (Weight x))) t s = s + exact_sum t" for s
    by (induction t arbitrary: s) (simp_all add: exact_sum_def)
  then show ?thesis by (simp add: sum_weight_def)
qed

lemma exact_sum_pos: "0 \<le> exact_sum t"
  unfolding exact_sum_def by (intro sum_list_nonneg) auto

lemma norm_sum_exact:
  assumes "t \<noteq> []"
  shows "norm_sum (\<lambda>x. x) t = exact_sum (to_normalize (\<lambda>x. x) t)" "0 < exact_sum (to_normalize (\<lambda>x. x) t)"
proof -
  have u: "exact_sum (unit_weights t) = real (length t)"
    by (simp add: exact_sum_def unit_weights_def o_def sum_list_triv)
  show "norm_sum (\<lambda>x. x) t = exact_sum (to_normalize (\<lambda>x. x) t)"
    by (simp add: norm_sum_def to_normalize_def sum_weight_exact u)
  show "0 < exact_sum (to_normalize (\<lambda>x. x) t)"
    using assms exact_sum_pos [of t] by (auto simp: to_normalize_def sum_weight_exact u)
qed

lemma normalizePow2_returns_spec:
  assumes "given \<noteq> []" "length given < 2 ^ 23"
  shows "\<exists>n out. normalizePow2 9 (\<lambda>x. x) 0 given = Some (n, out) \<and> n \<le> 512 * length given"
proof (cases "length given < 2")
  case True
  with assms(1) have "length given = 1" by (cases given) auto
  then show ?thesis by (simp add: normalizePow2_def)
next
  case False
  then have l: "2 \<le> length given" by simp
  let ?t = "nh_order given"
  show ?thesis
  proof (cases "length given = 2 \<and> Weight (?t ! 0) = Weight (?t ! 1)")
    case True
    then show ?thesis using normalizePow2_cases [OF l, of 9 "\<lambda>x. x" 0] by (simp add: Let_def)
  next
    case False
    let ?xs = "to_normalize (\<lambda>x. x) ?t"
    have ne: "?t \<noteq> []" using nh_order_spec(3) [of given] assms(1) by auto
    have len: "length ?xs = length given" using to_normalize_spec(3) nh_order_spec(3) by simp
    obtain k0 where k0: "unat (MaxPow2 (of_nat (length given))) = 2 ^ k0" "length given \<le> 2 ^ k0" "2 ^ k0 < 2 * length given"
      using MaxPow2_length [of "length given"] assms by auto
    have "real (length given) \<le> real (2 ^ k0)" using k0(2) by (rule of_nat_mono)
    moreover have "0 < real (2 ^ k0)" by simp
    moreover have "real (2 ^ k0 * 2 ^ 8) = real (2 ^ k0) * 256" by simp
    ultimately have "2 * real (length given) / real (2 ^ k0 * 2 ^ 8) < 1 / 100"
      using pos_divide_less_eq [of "real (2 ^ k0 * 2 ^ 8)" "2 * real (length given)" "1 / 100"] by linarith
    then have b: "2 * real (length ?xs) / real (2 ^ k0 * 2 ^ 8) < tolerance (\<lambda>x. x) 0" unfolding len by (simp add: tolerance_def)
    have "2 ^ k0 * 2 ^ 8 < (2::nat) ^ 32" using k0(3) assms(2) by simp
    from norm_loop_returns [OF norm_sum_exact(2) [OF ne] b _ this] obtain n out where
      n: "norm_loop 9 (\<lambda>x. x) (tolerance (\<lambda>x. x) 0) ?xs (exact_sum ?xs) (2 ^ k0) = Some (n, out)" "n \<le> 2 ^ k0 * 2 ^ 8" by auto
    have "normalizePow2 9 (\<lambda>x. x) 0 given = Some (n, out)"
      using n(1) unfolding normalizePow2_cases [OF l] Let_def if_not_P [OF False] k0(1) norm_sum_exact(1) [OF ne] .
    then show ?thesis using n(2) k0(3) by (intro exI [of _ n] exI [of _ out]) simp
  qed
qed

subsection \<open>Properties\<close>

text \<open>C16: Whatever the (monotone) rounding of the arithmetic, a normalization that returns gives a block whose size is a
  power of 2 and next hops, among those given, in order of decreasing non-zero weights that add up to the size exactly.\<close>

theorem normalizePow2_block:
  assumes "mono rnd" "rnd 0 = 0" "given \<noteq> []" "length given < 2 ^ 32"
    and "normalizePow2 fuel rnd tol given = Some (nAdj, out)" "nAdj < 2 ^ 32"
  shows "(\<exists>k. nAdj = 2 ^ k) \<and> block given nAdj out"
  by (rule normalizePow2_spec [OF assms])

lemma normalizePow2_block_witness:
  "\<exists>nAdj out k. normalizePow2 9 (\<lambda>x. x) 0 [\<lparr>nhAdj = 5, Weight = 1\<rparr>, \<lparr>nhAdj = 6, Weight = 3\<rparr>] = Some (nAdj, out) \<and>
     nAdj = 2 ^ k \<and> block [\<lparr>nhAdj = 5, Weight = 1\<rparr>, \<lparr>nhAdj = 6, Weight = 3\<rparr>] nAdj out"
proof -
  let ?g = "[\<lparr>nhAdj = 5, Weight = 1\<rparr>, \<lparr>nhAdj = 6, Weight = 3\<rparr>]"
  obtain n out where n: "normalizePow2 9 (\<lambda>x. x) 0 ?g = Some (n, out)" "n \<le> 512 * 2"
    using normalizePow2_returns_spec [of ?g] by auto
  have "mono (\<lambda>x::real. x)" by (simp add: mono_def)
  from normalizePow2_block [OF this _ _ _ n(1)] n show ?thesis by force
qed

text \<open>C17: With exact arithmetic and the default tolerance the loop over the powers of 2 ends: after at most 9 rounds, with
  at most 512 adjacencies for each next hop.\<close>

theorem normalizePow2_returns:
  assumes "given \<noteq> []" "length given < 2 ^ 23"
  shows "\<exists>nAdj out. normalizePow2 9 (\<lambda>x. x) 0 given = Some (nAdj, out) \<and> nAdj \<le> 512 * length given"
  by (rule normalizePow2_returns_spec [OF assms])

lemma normalizePow2_returns_witness:
  "\<exists>nAdj out. normalizePow2 9 (\<lambda>x. x) 0 [\<lparr>nhAdj = 5, Weight = 1\<rparr>, \<lparr>nhAdj = 6, Weight = 3\<rparr>] = Some (nAdj, out) \<and> nAdj \<le> 1024"
  using normalizePow2_returns [of "[\<lparr>nhAdj = 5, Weight = 1\<rparr>, \<lparr>nhAdj = 6, Weight = 3\<rparr>]"] by simp

text \<open>C18: \<open>sum_duplicates\<close> does not sum: of each run of next hops with the same adjacency the first is kept with its
  own weight, and the weights of the others are lost.\<close>

theorem sum_duplicates_drops:
  "sum_duplicates r = map ((!) r) (filter (starts_run r) [0..<length r])"
  unfolding sum_duplicates_heads run_heads_def ..



end
