(* ===== verification/Multipath.thy ===== *)
theory Multipath
  imports Next_Hops Heap Pool Counter
begin

section \<open>Adjacencies and multipaths: vnet/ip/adjacency.go, vnet/rewrite.go\<close>

text \<open>
  The adjacency table of an IP family. Blocks of adjacencies and of next hops are allocated from two heaps, a typed
  heap being an array with the block allocator of the theory \<open>Heap\<close>. A multipath owns a block of adjacencies,
  the next hops it was given and the resolved ones; the multipaths live in a pool and the first adjacency of a
  multipath's block holds its pool index. The hash table from normalized next hops to multipaths is a map here (the
  theory \<open>Hash_Table\<close> shows that the table is one). The hooks are recorded in the order they are called. A
  pointer to a multipath is its pool index; the vectors the code caches between calls are fresh lists.
\<close>

subsection \<open>Rewrites\<close>

record Rewrite =
  rSi :: u32
  NodeIndex :: u32
  NextIndex :: u32
  MaxL3PacketSize :: u16
  dataLen :: u16
  rdata :: "u8 list"

definition BufferRewriteBytes :: nat where "BufferRewriteBytes = 64"

definition zero_rewrite :: Rewrite where
  "zero_rewrite = \<lparr>rSi = 0, NodeIndex = 0, NextIndex = 0, MaxL3PacketSize = 0, dataLen = 0, rdata = replicate BufferRewriteBytes 0\<rparr>"

definition rewrite_Len :: "Rewrite \<Rightarrow> nat" where
  "rewrite_Len r = unat (dataLen r)"

definition rewrite_SetLen :: "Rewrite \<Rightarrow> nat \<Rightarrow> Rewrite" where
  "rewrite_SetLen r l = r\<lparr>dataLen := of_nat l\<rparr>"

definition rewrite_SetData :: "Rewrite \<Rightarrow> u8 list \<Rightarrow> Rewrite" where
  "rewrite_SetData r d = r\<lparr>dataLen := of_nat (min (length (rdata r)) (length d)), rdata := slice_copy (rdata r) d\<rparr>"

definition rewrite_ResetData :: "Rewrite \<Rightarrow> Rewrite" where
  "rewrite_ResetData r = rewrite_SetData r []"

definition rewrite_Slice :: "Rewrite \<Rightarrow> u8 list option" where
  "rewrite_Slice r = (if unat (dataLen r) \<le> length (rdata r) then Some (take (unat (dataLen r)) (rdata r)) else None)"

definition rewrite_AddData :: "Rewrite \<Rightarrow> u8 list \<Rightarrow> (nat \<times> Rewrite) option" where
  "rewrite_AddData r p = (
     let l = unat (dataLen r); sz = length p in do {
       panic_unless (sz = 0 \<or> l + sz \<le> length (rdata r));
       Some (l + sz, r\<lparr>dataLen := dataLen r + of_nat sz, rdata := take l (rdata r) @ p @ drop (l + sz) (rdata r)\<rparr>) })"

subsection \<open>Adjacencies\<close>

type_synonym LookupNext = u16

definition LookupNextMiss :: LookupNext where "LookupNextMiss = 0"
definition LookupNextDrop :: LookupNext where "LookupNextDrop = 1"
definition LookupNextPunt :: LookupNext where "LookupNextPunt = 2"
definition LookupNextLocal :: LookupNext where "LookupNextLocal = 3"
definition LookupNextGlean :: LookupNext where "LookupNextGlean = 4"
definition LookupNextRewrite :: LookupNext where "LookupNextRewrite = 5"

definition AdjDrop :: Adj where "AdjDrop = 1"
definition AdjPunt :: Adj where "AdjPunt = 2"

record Adjacency =
  LookupNextIndex :: LookupNext
  NAdj :: u16
  Index :: u32
  arewrite :: Rewrite

definition IsRewrite :: "Adjacency \<Rightarrow> bool" where
  "IsRewrite a \<longleftrightarrow> LookupNextIndex a = LookupNextRewrite"

definition IsLocal :: "Adjacency \<Rightarrow> bool" where
  "IsLocal a \<longleftrightarrow> LookupNextIndex a = LookupNextLocal"

definition IsGlean :: "Adjacency \<Rightarrow> bool" where
  "IsGlean a \<longleftrightarrow> LookupNextIndex a = LookupNextGlean"

definition IfAddrNil :: u32 where "IfAddrNil = NOT 0"
definition SiNil :: u32 where "SiNil = NOT 0"

definition IfAddr :: "Adjacency \<Rightarrow> u32" where
  "IfAddr a = (if LookupNextIndex a \<in> {LookupNextGlean, LookupNextLocal} then Index a else IfAddrNil)"

definition zero_adj :: Adjacency where
  "zero_adj = \<lparr>LookupNextIndex = 0, NAdj = 0, Index = 0, arewrite = zero_rewrite\<rparr>"

text \<open>The bytes \<open>0xdeadbeef\<close> repeated over an adjacency, as a little-endian machine lays it out.\<close>

definition poison_adj :: Adjacency where
  "poison_adj = \<lparr>LookupNextIndex = 0xbeef, NAdj = 0xdead, Index = 0xdeadbeef,
     arewrite = \<lparr>rSi = 0xdeadbeef, NodeIndex = 0xdeadbeef, NextIndex = 0xdeadbeef, MaxL3PacketSize = 0xbeef, dataLen = 0xdead,
       rdata = concat (replicate 16 [0xef, 0xbe, 0xad, 0xde])\<rparr>\<rparr>"

subsection \<open>Typed heaps\<close>

record 'a theap =
  theap_heap :: Heap
  telts :: "'a list"
  tids :: "nat list"

definition theap_Validate :: "'a \<Rightarrow> nat \<Rightarrow> 'a theap \<Rightarrow> 'a theap" where
  "theap_Validate zero i h = h\<lparr>telts := vec_validate zero i (telts h), tids := vec_validate 0 i (tids h)\<rparr>"

text \<open>A run of elements of an array overwritten.\<close>

definition overwrite :: "nat \<Rightarrow> 'a list \<Rightarrow> 'a list \<Rightarrow> 'a list" where
  "overwrite o' ys xs = take o' xs @ ys @ drop (o' + length ys) xs"

definition theap_GetAligned :: "'a \<Rightarrow> 'a theap \<Rightarrow> nat \<Rightarrow> nat \<Rightarrow> (nat \<times> 'a theap) option" where
  "theap_GetAligned zero h sz log2Alignment = do {
     let l = length (telts h);
     (id, off, hp) \<leftarrow> GetAligned (theap_heap h) sz log2Alignment;
     let h = h\<lparr>theap_heap := hp\<rparr>;
     let h = (if l \<le> off then theap_Validate zero (off + sz - 1) h else h);
     panic_unless (off + sz \<le> length (tids h));
     Some (off, h\<lparr>tids := overwrite off (replicate sz id) (tids h)\<rparr>) }"

definition theap_Get :: "'a \<Rightarrow> 'a theap \<Rightarrow> nat \<Rightarrow> (nat \<times> 'a theap) option" where
  "theap_Get zero h sz = theap_GetAligned zero h sz 0"

definition theap_Id :: "'a theap \<Rightarrow> nat \<Rightarrow> nat option" where
  "theap_Id h off = slice_get (tids h) off"

definition theap_Put :: "'a theap \<Rightarrow> nat \<Rightarrow> 'a theap option" where
  "theap_Put h off = do {
     id \<leftarrow> theap_Id h off;
     hp \<leftarrow> heap_Put (theap_heap h) id;
     Some (h\<lparr>theap_heap := hp\<rparr>) }"

definition theap_Slice :: "'a theap \<Rightarrow> nat \<Rightarrow> 'a list option" where
  "theap_Slice h off = do {
     id \<leftarrow> theap_Id h off;
     l \<leftarrow> heap_size (theap_heap h) id;
     panic_unless (off + l \<le> length (telts h));
     Some (take l (drop off (telts h))) }"

definition new_theap :: "'a theap" where
  "new_theap = \<lparr>theap_heap = new_heap, telts = [], tids = []\<rparr>"

subsection \<open>The adjacency table\<close>

record nextHopBlock =
  b_offset :: u32
  b_size :: u32

record multipathAdjacency =
  mp_adj :: Adj
  mp_nAdj :: u32
  referenceCount :: u32
  mp_index :: nat
  givenNextHops :: nextHopBlock
  resolvedNextHops :: nextHopBlock

definition zero_block :: nextHopBlock where "zero_block = \<lparr>b_offset = 0, b_size = 0\<rparr>"
definition nil_block :: nextHopBlock where "nil_block = \<lparr>b_offset = NOT 0, b_size = NOT 0\<rparr>"

definition zero_mp :: multipathAdjacency where
  "zero_mp = \<lparr>mp_adj = 0, mp_nAdj = 0, referenceCount = 0, mp_index = 0, givenNextHops = zero_block, resolvedNextHops = zero_block\<rparr>"

record adjMain =
  adjacencyHeap :: "Adjacency theap"
  errorTolerance :: real
  nextHopHash :: "nextHop list \<rightharpoonup> u32 \<times> Adj"
  nextHopHeap :: "nextHop theap"
  mpAdjPool :: "multipathAdjacency tpool"
  threads :: "CombinedCounters list"
  specialAdj :: "Adj list"
  hooksCalled :: "(Adj \<times> bool) list"

definition new_adjMain :: adjMain where
  "new_adjMain = \<lparr>adjacencyHeap = new_theap, errorTolerance = 0, nextHopHash = Map.empty, nextHopHeap = new_theap,
     mpAdjPool = new_pool, threads = [], specialAdj = [0, 0, 0], hooksCalled = []\<rparr>"

definition callAdjAddDelHooks :: "adjMain \<Rightarrow> Adj \<Rightarrow> bool \<Rightarrow> adjMain" where
  "callAdjAddDelHooks m a isDel = m\<lparr>hooksCalled := hooksCalled m @ [(a, isDel)]\<rparr>"

definition set_adjs :: "Adjacency list \<Rightarrow> adjMain \<Rightarrow> adjMain" where
  "set_adjs es m = m\<lparr>adjacencyHeap := (adjacencyHeap m)\<lparr>telts := es\<rparr>\<rparr>"

definition get_adj :: "adjMain \<Rightarrow> Adj \<Rightarrow> Adjacency option" where
  "get_adj m a = slice_get (telts (adjacencyHeap m)) (unat a)"

definition GetAdj :: "adjMain \<Rightarrow> Adj \<Rightarrow> Adjacency list option" where
  "GetAdj m a = theap_Slice (adjacencyHeap m) (unat a)"

definition GetAdjRewriteSi :: "adjMain \<Rightarrow> Adj \<Rightarrow> u32 option" where
  "GetAdjRewriteSi m a = do {
     as \<leftarrow> GetAdj m a;
     e \<leftarrow> slice_get as 0;
     Some (if LookupNextIndex e = LookupNextRewrite then rSi (arewrite e) else 0) }"

definition EqualAdj :: "adjMain \<Rightarrow> Adj \<Rightarrow> Adj \<Rightarrow> bool option" where
  "EqualAdj m ai0 ai1 = do {
     a0 \<leftarrow> get_adj m ai0;
     a1 \<leftarrow> get_adj m ai1;
     let ni0 = LookupNextIndex a0;
     if ni0 \<noteq> LookupNextIndex a1 then Some False
     else if ni0 = LookupNextGlean then Some (Index a0 = Index a1)
     else if ni0 = LookupNextRewrite then do {
       s0 \<leftarrow> rewrite_Slice (arewrite a0); s1 \<leftarrow> rewrite_Slice (arewrite a1); Some (s0 = s1) }
     else Some True }"

fun each :: "('a \<Rightarrow> 'a option) \<Rightarrow> 'a list \<Rightarrow> 'a list option" where
  "each f [] = Some []"
| "each f (x # xs) = do { y \<leftarrow> f x; ys \<leftarrow> each f xs; Some (y # ys) }"

definition validateCounter :: "adjMain \<Rightarrow> Adj \<Rightarrow> adjMain" where
  "validateCounter m a = m\<lparr>threads := map (\<lambda>t. Combined_Validate t (unat a)) (threads m)\<rparr>"

definition clearCounter :: "adjMain \<Rightarrow> Adj \<Rightarrow> adjMain option" where
  "clearCounter m a = do { ts \<leftarrow> each (\<lambda>t. Combined_Clear t (unat a)) (threads m); Some (m\<lparr>threads := ts\<rparr>) }"

text \<open>The counter of an adjacency over all threads.\<close>

fun sum_threads :: "CombinedCounters list \<Rightarrow> Adj \<Rightarrow> CombinedCounter \<Rightarrow> CombinedCounter option" where
  "sum_threads [] a v = Some v"
| "sum_threads (t # ts) a v = do { u \<leftarrow> Combined_Get t (unat a); sum_threads ts a (cc_Add v u) }"

definition ForeachAdjCounter :: "adjMain \<Rightarrow> Adj \<Rightarrow> CombinedCounter option" where
  "ForeachAdjCounter m a = sum_threads (threads m) a cc_Zero"

definition ClearAdjCounters :: "adjMain \<Rightarrow> adjMain" where
  "ClearAdjCounters m = m\<lparr>threads := map Combined_ClearAll (threads m)\<rparr>"

text \<open>The adjacencies of a new block, one by one from index \<open>i\<close>.\<close>

fun init_adjs :: "Adjacency option \<Rightarrow> nat \<Rightarrow> Adj \<Rightarrow> nat \<Rightarrow> nat \<Rightarrow> adjMain \<Rightarrow> adjMain option" where
  "init_adjs template n ai i 0 m = Some m"
| "init_adjs template n ai i (Suc k) m = do {
     e \<leftarrow> slice_get (telts (adjacencyHeap m)) (unat ai + i);
     let e = (case template of Some t \<Rightarrow> t | None \<Rightarrow> e);
     let e = e\<lparr>arewrite := (arewrite e)\<lparr>rSi := SiNil\<rparr>, NAdj := of_nat n, Index := NOT 0\<rparr>;
     m \<leftarrow> clearCounter (set_adjs ((telts (adjacencyHeap m))[unat ai + i := e]) m) (ai + of_nat i);
     init_adjs template n ai (i + 1) k m }"

definition NewAdjWithTemplate :: "adjMain \<Rightarrow> nat \<Rightarrow> Adjacency option \<Rightarrow> (Adj \<times> adjMain) option" where
  "NewAdjWithTemplate m n template = do {
     (o', h) \<leftarrow> theap_Get zero_adj (adjacencyHeap m) n;
     let ai = of_nat o';
     let m = validateCounter (m\<lparr>adjacencyHeap := h\<rparr>) ai;
     as \<leftarrow> GetAdj m ai;
     m \<leftarrow> init_adjs template n ai 0 (length as) m;
     Some (ai, m) }"

definition NewAdj :: "adjMain \<Rightarrow> nat \<Rightarrow> (Adj \<times> adjMain) option" where
  "NewAdj m n = NewAdjWithTemplate m n None"

definition PoisonAdj :: "adjMain \<Rightarrow> Adj \<Rightarrow> adjMain option" where
  "PoisonAdj m a = do {
     as \<leftarrow> GetAdj m a;
     panic_unless (as \<noteq> []);
     Some (set_adjs (overwrite (unat a) (replicate (length as) poison_adj) (telts (adjacencyHeap m))) m) }"

definition FreeAdj :: "adjMain \<Rightarrow> Adj \<Rightarrow> adjMain option" where
  "FreeAdj m a = do { h \<leftarrow> theap_Put (adjacencyHeap m) (unat a); Some (m\<lparr>adjacencyHeap := h\<rparr>) }"

definition DelAdj :: "adjMain \<Rightarrow> Adj \<Rightarrow> adjMain option" where
  "DelAdj m a = do { m \<leftarrow> PoisonAdj m a; m \<leftarrow> FreeAdj m a; Some (callAdjAddDelHooks m a True) }"

text \<open>The special adjacencies, which must get the indices 0, 1 and 2.\<close>

fun init_special :: "nat \<Rightarrow> (Adj \<times> LookupNext) list \<Rightarrow> adjMain \<Rightarrow> adjMain option" where
  "init_special i [] m = Some m"
| "init_special i ((want, nx) # vs) m = do {
     (a, m) \<leftarrow> NewAdj m 1;
     let m = m\<lparr>specialAdj := (specialAdj m)[i := a]\<rparr>;
     e \<leftarrow> get_adj m a;
     let m = set_adjs ((telts (adjacencyHeap m))[unat a := e\<lparr>LookupNextIndex := nx\<rparr>]) m;
     panic_unless (a = want);
     init_special (i + 1) vs (callAdjAddDelHooks m a False) }"

definition adjacencyInit :: "adjMain \<Rightarrow> adjMain option" where
  "adjacencyInit m = init_special 0 [(AdjMiss, LookupNextMiss), (AdjDrop, LookupNextDrop), (AdjPunt, LookupNextPunt)]
     (m\<lparr>nextHopHash := Map.empty\<rparr>)"

subsection \<open>Multipaths\<close>

text \<open>A multipath of the pool, by its index.\<close>

definition mp_get :: "adjMain \<Rightarrow> nat \<Rightarrow> multipathAdjacency option" where
  "mp_get m i = slice_get (data (mpAdjPool m)) i"

definition mp_upd :: "adjMain \<Rightarrow> nat \<Rightarrow> (multipathAdjacency \<Rightarrow> multipathAdjacency) \<Rightarrow> adjMain option" where
  "mp_upd m i f = do {
     e \<leftarrow> mp_get m i;
     Some (m\<lparr>mpAdjPool := (mpAdjPool m)\<lparr>arr := (arr (mpAdjPool m))[i := f e]\<rparr>\<rparr>) }"

definition mpAdjForAdj :: "(nat \<Rightarrow> nat) \<Rightarrow> adjMain \<Rightarrow> Adj \<Rightarrow> bool \<Rightarrow> (nat option \<times> adjMain) option" where
  "mpAdjForAdj nc m a create = do {
     e \<leftarrow> get_adj m a;
     if \<not> IsRewrite e then Some (None, m)
     else do {
       (i, m) \<leftarrow> (if create
         then do {
           (i, p) \<leftarrow> GetIndex nc zero_mp (mpAdjPool m);
           let m = set_adjs ((telts (adjacencyHeap m))[unat a := e\<lparr>Index := of_nat i\<rparr>]) (m\<lparr>mpAdjPool := p\<rparr>);
           m \<leftarrow> mp_upd m i (\<lambda>x. x\<lparr>mp_index := i\<rparr>);
           Some (i, m) }
         else Some (unat (Index e), m));
       Some (if i < plen (mpAdjPool m) then Some i else None, m) } }"

text \<open>\<open>mpAdjForAdj\<close> without \<open>create\<close> changes nothing.\<close>

definition find_mp :: "adjMain \<Rightarrow> Adj \<Rightarrow> nat option option" where
  "find_mp m a = do {
     e \<leftarrow> get_adj m a;
     Some (if IsRewrite e \<and> unat (Index e) < plen (mpAdjPool m) then Some (unat (Index e)) else None) }"

definition getNextHopBlock :: "adjMain \<Rightarrow> nextHopBlock \<Rightarrow> nextHop list option" where
  "getNextHopBlock m b = theap_Slice (nextHopHeap m) (unat (b_offset b))"

definition zero_nh :: nextHop where "zero_nh = \<lparr>nhAdj = 0, Weight = 0\<rparr>"

definition allocNextHopBlock :: "adjMain \<Rightarrow> nextHop list \<Rightarrow> (nextHopBlock \<times> adjMain) option" where
  "allocNextHopBlock m key = do {
     let n = length key;
     (o', h) \<leftarrow> theap_Get zero_nh (nextHopHeap m) n;
     sl \<leftarrow> theap_Slice h o';
     let h = h\<lparr>telts := overwrite o' (slice_copy sl key) (telts h)\<rparr>;
     Some (\<lparr>b_offset = of_nat o', b_size = of_nat n\<rparr>, m\<lparr>nextHopHeap := h\<rparr>) }"

definition freeNextHopBlock :: "adjMain \<Rightarrow> nextHopBlock \<Rightarrow> adjMain option" where
  "freeNextHopBlock m b = do { h \<leftarrow> theap_Put (nextHopHeap m) (unat (b_offset b)); Some (m\<lparr>nextHopHeap := h\<rparr>) }"

definition NextHopsForAdj :: "adjMain \<Rightarrow> Adj \<Rightarrow> nextHop list option" where
  "NextHopsForAdj m a = do {
     ma \<leftarrow> find_mp m a;
     case ma of
       Some i \<Rightarrow> do {
         x \<leftarrow> mp_get m i;
         if mp_nAdj x > 0 then getNextHopBlock m (resolvedNextHops x) else Some [\<lparr>nhAdj = a, Weight = 1\<rparr>] }
     | None \<Rightarrow> Some [\<lparr>nhAdj = a, Weight = 1\<rparr>] }"

text \<open>\<open>resolve\<close>: next hops that are multipaths are replaced by the next hops these were given, to a depth of
  \<open>fuel\<close>; each weight is multiplied by that of its next hop.\<close>

fun resolve_level :: "nat \<Rightarrow> adjMain \<Rightarrow> nextHop list \<Rightarrow> nextHop list option" where
  "resolve_level fuel m [] = Some []"
| "resolve_level 0 m (g # gs) = None"
| "resolve_level (Suc fuel) m (g # gs) = do {
     ma \<leftarrow> find_mp m (nhAdj g);
     r \<leftarrow> (case ma of
       Some i \<Rightarrow> do { x \<leftarrow> mp_get m i; nhs \<leftarrow> getNextHopBlock m (givenNextHops x); resolve_level fuel m nhs }
     | None \<Rightarrow> Some [g]);
     rs \<leftarrow> resolve_level (Suc fuel) m gs;
     Some (map (\<lambda>x. x\<lparr>Weight := Weight x * Weight g\<rparr>) r @ rs) }"

definition resolve :: "nat \<Rightarrow> adjMain \<Rightarrow> nextHop list \<Rightarrow> nextHop list option" where
  "resolve fuel m given = do { r \<leftarrow> resolve_level fuel m given; Some (sum_duplicates (nh_sort r)) }"

text \<open>The adjacencies of a new block: for each next hop as many copies of its adjacency as its weight.\<close>

fun copy_adjs :: "(Adjacency \<Rightarrow> Adjacency) \<Rightarrow> nat \<Rightarrow> Adj \<Rightarrow> nat \<Rightarrow> Adj list \<Rightarrow> adjMain \<Rightarrow> adjMain option" where
  "copy_adjs fin nAdj ai i [] m = Some m"
| "copy_adjs fin nAdj ai i (a # as) m = do {
     e \<leftarrow> get_adj m a;
     panic_unless (i < nAdj);
     es \<leftarrow> slice_set (telts (adjacencyHeap m)) (unat ai + i) ((fin e)\<lparr>NAdj := of_nat nAdj\<rparr>);
     copy_adjs fin nAdj ai (i + 1) as (set_adjs es m) }"

definition spread :: "nextHop list \<Rightarrow> Adj list" where
  "spread nhs = concat (map (\<lambda>x. replicate (unat (Weight x)) (nhAdj x)) nhs)"

definition createMpAdj :: "(nat \<Rightarrow> nat) \<Rightarrow> nat \<Rightarrow> (real \<Rightarrow> real) \<Rightarrow> (Adjacency \<Rightarrow> Adjacency) \<Rightarrow> adjMain \<Rightarrow> nextHop list \<Rightarrow>
    (nat option \<times> adjMain) option" where
  "createMpAdj nc fuel rnd fin m given = do {
     resolved \<leftarrow> resolve fuel m given;
     (nAdj, out) \<leftarrow> normalizePow2 fuel rnd (errorTolerance m) resolved;
     panic_unless (out \<noteq> []);
     case nextHopHash m out of
       Some (off, ai) \<Rightarrow> do { ma \<leftarrow> find_mp m ai; Some (ma, m) }
     | None \<Rightarrow> do {
         (ai, m) \<leftarrow> NewAdj m nAdj;
         m \<leftarrow> copy_adjs fin nAdj ai 0 (spread out) m;
         (ma, m) \<leftarrow> mpAdjForAdj nc m ai True;
         case ma of None \<Rightarrow> Some (None, m)
         | Some i \<Rightarrow> do {
             m \<leftarrow> mp_upd m i (\<lambda>x. x\<lparr>mp_adj := ai, mp_nAdj := of_nat nAdj, referenceCount := 0\<rparr>);
             (rb, m) \<leftarrow> allocNextHopBlock m out;
             (gb, m) \<leftarrow> allocNextHopBlock m given;
             m \<leftarrow> mp_upd m i (\<lambda>x. x\<lparr>resolvedNextHops := rb, givenNextHops := gb\<rparr>);
             let m = m\<lparr>nextHopHash := (nextHopHash m)(out \<mapsto> (b_offset rb, ai))\<rparr>;
             Some (Some i, callAdjAddDelHooks m ai False) } } }"

text \<open>Method \<open>free\<close> of a multipath.\<close>

definition mp_free :: "adjMain \<Rightarrow> nat \<Rightarrow> adjMain option" where
  "mp_free m i = do {
     x \<leftarrow> mp_get m i;
     let m = callAdjAddDelHooks m (mp_adj x) True;
     nhs \<leftarrow> getNextHopBlock m (resolvedNextHops x);
     panic_unless (nhs \<noteq> [] \<and> nextHopHash m nhs \<noteq> None);
     let m = m\<lparr>nextHopHash := (nextHopHash m)(nhs := None)\<rparr>;
     m \<leftarrow> PoisonAdj m (mp_adj x);
     m \<leftarrow> FreeAdj m (mp_adj x);
     m \<leftarrow> freeNextHopBlock m (givenNextHops x);
     m \<leftarrow> freeNextHopBlock m (resolvedNextHops x);
     mp_upd m i (\<lambda>x. x\<lparr>givenNextHops := nil_block, resolvedNextHops := nil_block, mp_nAdj := 0\<rparr>) }"

definition addDelHelper :: "(nat \<Rightarrow> nat) \<Rightarrow> nat \<Rightarrow> (real \<Rightarrow> real) \<Rightarrow> (Adjacency \<Rightarrow> Adjacency) \<Rightarrow> adjMain \<Rightarrow> nextHop list \<Rightarrow>
    nat option \<Rightarrow> (nat option \<times> adjMain) option" where
  "addDelHelper nc fuel rnd fin m newNhs old = do {
     (new, m) \<leftarrow> (if newNhs \<noteq> [] then createMpAdj nc fuel rnd fin m newNhs else Some (None, m));
     m \<leftarrow> (if new \<noteq> old then do {
         m \<leftarrow> (case old of Some i \<Rightarrow> mp_upd m i (\<lambda>x. x\<lparr>referenceCount := referenceCount x - 1\<rparr>) | None \<Rightarrow> Some m);
         (case new of Some i \<Rightarrow> mp_upd m i (\<lambda>x. x\<lparr>referenceCount := referenceCount x + 1\<rparr>) | None \<Rightarrow> Some m) }
       else Some m);
     m \<leftarrow> (case old of
         Some i \<Rightarrow> do { x \<leftarrow> mp_get m i; if referenceCount x = 0 then mp_free m i else Some m }
       | None \<Rightarrow> Some m);
     Some (new, m) }"

text \<open>The next hops an adjacency was given, with the place of \<open>target\<close> among them.\<close>

definition old_next_hops :: "adjMain \<Rightarrow> Adj \<Rightarrow> Adj \<Rightarrow> (nat option \<times> nextHop list \<times> nat \<times> bool) option" where
  "old_next_hops m oldAdj target = (if oldAdj = AdjNil then Some (None, [], 0, False)
     else do {
       old \<leftarrow> find_mp m oldAdj;
       case old of None \<Rightarrow> Some (None, [], 0, False)
       | Some i \<Rightarrow> do {
           x \<leftarrow> mp_get m i;
           nhs \<leftarrow> getNextHopBlock m (givenNextHops x);
           Some (Some i, nhs, nh_find nhs target) } })"

definition AddDelNextHop :: "(nat \<Rightarrow> nat) \<Rightarrow> nat \<Rightarrow> (real \<Rightarrow> real) \<Rightarrow> (Adjacency \<Rightarrow> Adjacency) \<Rightarrow> adjMain \<Rightarrow> Adj \<Rightarrow> Adj \<Rightarrow> u32 \<Rightarrow>
    bool \<Rightarrow> (Adj \<times> bool \<times> adjMain) option" where
  "AddDelNextHop nc fuel rnd fin m oldAdj nextHopAdj w isDel = do {
     (old, nhs, nhi, ok) \<leftarrow> old_next_hops m oldAdj nextHopAdj;
     if oldAdj \<noteq> AdjNil \<and> length nhs \<le> nhi \<and> isDel then Some (0, ok, m)
     else if \<not> isDel \<and> nhi < length nhs \<and> Weight (nhs ! nhi) = w then Some (oldAdj, True, m)
     else do {
       newNhs \<leftarrow> edit_next_hops nhs nhi nextHopAdj w isDel;
       (new, m) \<leftarrow> addDelHelper nc fuel rnd fin m newNhs old;
       case new of Some i \<Rightarrow> do { x \<leftarrow> mp_get m i; Some (mp_adj x, True, m) }
       | None \<Rightarrow> Some (AdjNil, ok, m) } }"

datatype adj_error = ErrNotRewrite

text \<open>\<open>ReplaceNextHop\<close> changes the given next hops of the multipath in place, then makes it anew.\<close>

definition ReplaceNextHop :: "(nat \<Rightarrow> nat) \<Rightarrow> nat \<Rightarrow> (real \<Rightarrow> real) \<Rightarrow> (Adjacency \<Rightarrow> Adjacency) \<Rightarrow> adjMain \<Rightarrow> Adj \<Rightarrow> Adj \<Rightarrow> Adj \<Rightarrow>
    (adj_error option \<times> adjMain) option" where
  "ReplaceNextHop nc fuel rnd fin m ai fromAdj toAdj = (
     if fromAdj = toAdj then Some (None, m)
     else do {
       as \<leftarrow> GetAdj m toAdj;
       if \<not> list_all IsRewrite as then Some (Some ErrNotRewrite, m)
       else do {
         ma \<leftarrow> find_mp m ai;
         case ma of None \<Rightarrow> Some (None, m)
         | Some i \<Rightarrow> do {
             x \<leftarrow> mp_get m i;
             given \<leftarrow> getNextHopBlock m (givenNextHops x);
             let (k, found) = nh_find given fromAdj;
             if \<not> found then Some (None, m)
             else do {
               let given = given[k := (given ! k)\<lparr>nhAdj := toAdj\<rparr>];
               let h = nextHopHeap m;
               let m = m\<lparr>nextHopHeap := h\<lparr>telts := overwrite (unat (b_offset (givenNextHops x))) given (telts h)\<rparr>\<rparr>;
               (new, m) \<leftarrow> addDelHelper nc fuel rnd fin m given (Some i);
               Some (None, m) } } } })"

subsection \<open>What resolution and layout do\<close>

lemma find_mp_mpAdjForAdj: "mpAdjForAdj nc m a False = map_option (\<lambda>ma. (ma, m)) (find_mp m a)"
  by (cases "get_adj m a") (simp_all add: mpAdjForAdj_def find_mp_def)

definition square_weight :: "nextHop \<Rightarrow> nextHop" where
  "square_weight g = g\<lparr>Weight := Weight g * Weight g\<rparr>"

lemma resolve_level_plain:
  "\<forall>g \<in> set gs. find_mp m (nhAdj g) = Some None \<Longrightarrow> resolve_level (Suc fuel) m gs = Some (map square_weight gs)"
  by (induction gs) (simp_all add: square_weight_def)

lemma spread_length: "length (spread nhs) = sum_list (map (unat \<circ> Weight) nhs)"
  by (induction nhs) (simp_all add: spread_def)

subsection \<open>Runs of the table\<close>

lemmas adj_eval = theap_Get_def theap_GetAligned_def theap_Put_def theap_Id_def theap_Slice_def theap_Validate_def overwrite_def
  GetAligned_def NewAdj_def NewAdjWithTemplate_def GetAdj_def get_adj_def set_adjs_def validateCounter_def clearCounter_def
  callAdjAddDelHooks_def PoisonAdj_def FreeAdj_def new_adjMain_def new_theap_def

lemmas mp_eval = mp_get_def mp_upd_def mpAdjForAdj_def find_mp_def getNextHopBlock_def allocNextHopBlock_def freeNextHopBlock_def
  resolve_def createMpAdj_def mp_free_def addDelHelper_def old_next_hops_def AddDelNextHop_def ReplaceNextHop_def

definition init_adj :: "LookupNext \<Rightarrow> Adjacency" where
  "init_adj nx = \<lparr>LookupNextIndex = nx, NAdj = 1, Index = NOT 0, arewrite = zero_rewrite\<lparr>rSi := SiNil\<rparr>\<rparr>"

definition special_main :: adjMain where
  "special_main = new_adjMain\<lparr>
     adjacencyHeap := \<lparr>theap_heap = new_heap\<lparr>
        elts := [\<lparr>offset = 0, free = MaxIdx, nxt = 1, prev = MaxIdx\<rparr>, \<lparr>offset = 1, free = MaxIdx, nxt = 2, prev = 0\<rparr>,
          \<lparr>offset = 2, free = MaxIdx, nxt = MaxIdx, prev = 1\<rparr>], hhead := 0, htail := 2, hlen := 3, maxSize := 1\<rparr>,
        telts = [init_adj LookupNextMiss, init_adj LookupNextDrop, init_adj LookupNextPunt], tids = [0, 1, 2]\<rparr>,
     specialAdj := [AdjMiss, AdjDrop, AdjPunt], hooksCalled := [(AdjMiss, False), (AdjDrop, False), (AdjPunt, False)]\<rparr>"

lemma adjacencyInit_run: "adjacencyInit new_adjMain = Some special_main"
  by (simp add: adjacencyInit_def adj_eval heap_eval new_pool_def AdjMiss_def AdjDrop_def AdjPunt_def init_adj_def zero_adj_def special_main_def)

text \<open>Two rewrites, and a route whose only next hop is the first; then that next hop is replaced by the second.\<close>

definition rewrite_adj :: Adjacency where
  "rewrite_adj = zero_adj\<lparr>LookupNextIndex := LookupNextRewrite\<rparr>"

definition one_hop_run :: "(Adj \<times> Adj \<times> Adj \<times> adjMain) option" where
  "one_hop_run = do {
     m \<leftarrow> adjacencyInit new_adjMain;
     (a, m) \<leftarrow> NewAdjWithTemplate m 1 (Some rewrite_adj);
     (b, m) \<leftarrow> NewAdjWithTemplate m 1 (Some rewrite_adj);
     (r, ok, m) \<leftarrow> AddDelNextHop (\<lambda>l. l) 1 (\<lambda>x. x) (\<lambda>x. x) m AdjNil a 1 False;
     Some (a, b, r, m) }"

definition replaced_run :: "(Adj \<times> adj_error option \<times> adjMain) option" where
  "replaced_run = do {
     (a, b, r, m) \<leftarrow> one_hop_run;
     (e, m) \<leftarrow> ReplaceNextHop (\<lambda>l. l) 1 (\<lambda>x. x) (\<lambda>x. x) m r a b;
     Some (r, e, m) }"

lemma bind_weak_cong: "x = y \<Longrightarrow> Option.bind x f = Option.bind y f"
  by simp

lemma case_prod_weak_cong: "x = y \<Longrightarrow> case_prod f x = case_prod f y"
  by simp

lemmas run_eval = adj_eval heap_eval mp_eval new_pool_def rewrite_adj_def zero_adj_def IsRewrite_def
  LookupNextRewrite_def nh_sort_def normalizePow2_def sum_duplicates_def sumdup_step_def edit_next_hops_def spread_def
  GetIndex_def Pool_GetIndex_def Pool_Validate_def grow_to_def data_def slice_copy_def zero_mp_def zero_nh_def zero_block_def

lemmas run_congs = bind_weak_cong case_prod_weak_cong option.case_cong_weak if_weak_cong

subsection \<open>Properties\<close>


text \<open>C20: Resolution squares weights: a next hop that is not itself a multipath keeps its adjacency, but its weight is
  multiplied by itself before the next hops are sorted.\<close>

theorem resolve_squares_weights:
  assumes "\<forall>g \<in> set given. find_mp m (nhAdj g) = Some None"
  shows "resolve (Suc fuel) m given = Some (sum_duplicates (nh_sort (map square_weight given)))"
  using resolve_level_plain [OF assms, of fuel] by (simp add: resolve_def)

lemma resolve_squares_weights_witness:
  "resolve (Suc 0) special_main [\<lparr>nhAdj = 1, Weight = 3\<rparr>, \<lparr>nhAdj = 2, Weight = 1\<rparr>] =
     Some (sum_duplicates (nh_sort [\<lparr>nhAdj = 1, Weight = 9\<rparr>, \<lparr>nhAdj = 2, Weight = 1\<rparr>]))"
proof -
  have "\<forall>g \<in> set [\<lparr>nhAdj = 1, Weight = 3\<rparr>, \<lparr>nhAdj = 2, Weight = 1\<rparr>]. find_mp special_main (nhAdj g) = Some None"
    by (simp add: special_main_def run_eval init_adj_def LookupNextDrop_def LookupNextPunt_def)
  from resolve_squares_weights [OF this, of 0] show ?thesis by (simp add: square_weight_def)
qed


end
