(* ===== verification/Shell.thy ===== *)
theory Shell
  imports Go_Prelude
begin

section \<open>The command line parser: internal/shellutils\<close>

text \<open>
  \<open>Parse\<close> breaks the lines a source function returns into a list of command lines of words of tokens. A
  rune is a character (the runes up to U+00FF). The source function is the list of the continuation lines
  it will return; asked for more it fails with \<open>io.EOF\<close>. The loop over the runes is one function over a
  mode (plain, in single quotes, in double quotes), the lines left and the runes left.
\<close>

datatype Tokentype = TokenLiteral | TokenEnvget | TokenEnvset

record Token =
  tV :: string
  tT :: Tokentype

type_synonym Word = "Token list"

record Cmdline =
  Cmds :: "Word list"
  Term :: Word

type_synonym CmdList = "Cmdline list"

datatype parse_error = UnexpectedRune char | UnexpectedEol | MissingEndQuote | SrcEOF

definition word_add :: "Word \<Rightarrow> string \<Rightarrow> Tokentype \<Rightarrow> Word" where
  "word_add w s ty = w @ [\<lparr>tV = s, tT = ty\<rparr>]"

definition addLiteral :: "Word \<Rightarrow> string \<Rightarrow> Word" where
  "addLiteral w s =
     (if w \<noteq> [] \<and> tT (last w) = TokenLiteral then butlast w @ [(last w)\<lparr>tV := tV (last w) @ s\<rparr>]
      else word_add w s TokenLiteral)"

definition word_string :: "Word \<Rightarrow> string" where
  "word_string w = concat (map tV w)"

definition isSpace :: "char \<Rightarrow> bool" where
  "isSpace r \<longleftrightarrow> of_char r \<in> {9, 10, 11, 12, 13, 32, 0x85, 0xa0 :: nat}"

definition cmd_add :: "Cmdline \<Rightarrow> Word \<Rightarrow> Cmdline" where
  "cmd_add c w = c\<lparr>Cmds := Cmds c @ [w]\<rparr>"

definition empty_cmd :: Cmdline where
  "empty_cmd = \<lparr>Cmds = [], Term = []\<rparr>"

text \<open>The two loops of \<open>parseEnv\<close>; the result is the word and the runes left.\<close>

fun parseEnv_braced :: "Word \<Rightarrow> string \<Rightarrow> string \<Rightarrow> parse_error + (Word \<times> string)" where
  "parseEnv_braced w envvar [] = Inl UnexpectedEol"
| "parseEnv_braced w envvar (r # s) =
     (if r = CHR ''}'' then Inr (word_add w envvar TokenEnvget, s)
      else if isSpace r \<or> r \<in> set (''|&;()<>{'' @ [(CHR 0x27), (CHR 0x22)] @ ''$/'') then Inl (UnexpectedRune r)
      else parseEnv_braced w (envvar @ [r]) s)"

fun parseEnv_plain :: "Word \<Rightarrow> string \<Rightarrow> string \<Rightarrow> Word \<times> string" where
  "parseEnv_plain w envvar [] = (word_add w envvar TokenEnvget, [])"
| "parseEnv_plain w envvar (r # s) =
     (if isSpace r \<or> r \<in> set (''|&;()<>{}'' @ [(CHR 0x27), (CHR 0x22)] @ ''$/'') then (word_add w envvar TokenEnvget, r # s)
      else parseEnv_plain w (envvar @ [r]) s)"

definition parseEnv :: "Word \<Rightarrow> string \<Rightarrow> parse_error + (Word \<times> string)" where
  "parseEnv w s = (if s \<noteq> [] \<and> hd s = CHR ''{'' then parseEnv_braced w [] (tl s) else Inr (parseEnv_plain w [] s))"

text \<open>The state of the loop: the list, the command line, the word, and whether in white space.\<close>

record pstate =
  cl :: CmdList
  cmd :: Cmdline
  wd :: Word
  inWS :: bool

datatype pmode = Plain | SingleQuoted | DoubleQuoted

definition end_word :: "pstate \<Rightarrow> pstate" where
  "end_word p = p\<lparr>cmd := cmd_add (cmd p) (wd p), wd := []\<rparr>"

definition end_cmd :: "pstate \<Rightarrow> pstate" where
  "end_cmd p = p\<lparr>cl := cl p @ [(cmd p)\<lparr>Term := wd p\<rparr>], cmd := empty_cmd, wd := []\<rparr>"

definition literal :: "string \<Rightarrow> pstate \<Rightarrow> pstate" where
  "literal x p = p\<lparr>wd := addLiteral (wd p) x\<rparr>"

text \<open>The operators \<open>& ; ( ) <\<close>, doubled or not.\<close>

definition operator_rune :: "char \<Rightarrow> string \<Rightarrow> pstate \<Rightarrow> pstate \<times> string" where
  "operator_rune r s p = (
     let p = literal [r] p;
         (p, s) = (if s \<noteq> [] \<and> hd s = r then (literal [r] p, tl s) else (p, s));
         p = (if word_string (wd p) \<in> {'';'', ''&&'', ''||''} then end_cmd p else end_word p)
     in (p\<lparr>inWS := True\<rparr>, s))"

definition pipe_rune :: "string \<Rightarrow> pstate \<Rightarrow> pstate \<times> string" where
  "pipe_rune s p = (
     let p = literal ''|'' p;
         (p, s) = (if s \<noteq> [] \<and> hd s = CHR ''&'' then (literal ''&'' p, tl s)
           else if s \<noteq> [] \<and> hd s = CHR ''|'' then (literal ''|'' p, tl s) else (p, s))
     in ((end_cmd p)\<lparr>inWS := True\<rparr>, s))"

text \<open>Up to three more \<open>>\<close>.\<close>

fun more_gt :: "nat \<Rightarrow> string \<Rightarrow> pstate \<Rightarrow> pstate \<times> string" where
  "more_gt (Suc n) (r # s) p = (if r = CHR ''>'' then more_gt n s (literal ''>'' p) else (p, r # s))"
| "more_gt n s p = (p, s)"

definition gt_rune :: "string \<Rightarrow> pstate \<Rightarrow> pstate \<times> string" where
  "gt_rune s p = (let (p, s) = more_gt 3 s (literal ''>'' p) in ((end_word p)\<lparr>inWS := True\<rparr>, s))"

text \<open>Lengths of what is left, for the termination of the loop.\<close>

lemma parseEnv_braced_length: "parseEnv_braced w e s = Inr (w', s') \<Longrightarrow> length s' < length s"
  by (induction w e s rule: parseEnv_braced.induct) (auto split: if_splits)

lemma parseEnv_plain_length: "length (snd (parseEnv_plain w e s)) \<le> length s"
  by (induction w e s rule: parseEnv_plain.induct) auto

lemma parseEnv_length: "parseEnv w s = Inr (w', s') \<Longrightarrow> length s' \<le> length s"
  using parseEnv_braced_length [of w "[]" "tl s" w' s'] parseEnv_plain_length [of w "[]" s]
  by (auto simp: parseEnv_def split: if_splits)

lemma more_gt_length: "length (snd (more_gt n s p)) \<le> length s"
  by (induction n s p rule: more_gt.induct) auto

lemma rune_length:
  "length (snd (operator_rune r s p)) \<le> length s" "length (snd (pipe_rune s p)) \<le> length s" "length (snd (gt_rune s p)) \<le> length s"
  using more_gt_length [of 3 s "literal ''>'' p"]
  by (auto simp: operator_rune_def pipe_rune_def gt_rune_def Let_def split: prod.splits if_splits)

text \<open>Every step uses up runes, or a continuation line; in the form the termination proof meets.\<close>

lemma rune_length_le:
  "(p', s') = operator_rune r s p \<Longrightarrow> length s' \<le> length s"
  "(p', s') = pipe_rune s p \<Longrightarrow> length s' \<le> length s"
  "(p', s') = gt_rune s p \<Longrightarrow> length s' \<le> length s"
  using rune_length(1) [of r s p] rune_length(2,3) [of s p] by (metis snd_conv)+

lemma parseEnv_length_le: "parseEnv w s = Inr b \<Longrightarrow> (w', s') = b \<Longrightarrow> length s' \<le> length s"
  using parseEnv_length [of w s w' s'] by simp

text \<open>The classification of a rune in plain mode, after the handling of white space.\<close>

definition enter_rune :: "char \<Rightarrow> pstate \<Rightarrow> pstate" where
  "enter_rune r p = (if inWS p then p\<lparr>inWS := False\<rparr> else if r \<in> set ''|&;()<>'' then end_word p else p)"

function (sequential) parse_loop :: "pmode \<Rightarrow> string list \<Rightarrow> string \<Rightarrow> pstate \<Rightarrow> parse_error + pstate" where
  "parse_loop Plain ls [] p = Inr p"
| "parse_loop Plain ls (r # s) p =
     (if inWS p \<and> isSpace r then parse_loop Plain ls s p
      else if inWS p \<and> r = CHR ''#'' then Inr p
      else if isSpace r then parse_loop Plain ls s ((end_word p)\<lparr>inWS := True\<rparr>)
      else let p = enter_rune r p in
        if r \<in> set ''&;()<'' then (case operator_rune r s p of (p, s') \<Rightarrow> parse_loop Plain ls s' p)
        else if r = CHR ''|'' then (case pipe_rune s p of (p, s') \<Rightarrow> parse_loop Plain ls s' p)
        else if r = CHR ''='' then parse_loop Plain ls s (p\<lparr>wd := word_add (wd p) ''='' TokenEnvset\<rparr>)
        else if r = CHR ''$'' \<and> s \<noteq> [] then
          (case parseEnv (wd p) s of Inl e \<Rightarrow> Inl e
           | Inr (w, s') \<Rightarrow> parse_loop Plain ls s' (p\<lparr>wd := w\<rparr>))
        else if r = CHR ''>'' then (case gt_rune s p of (p, s') \<Rightarrow> parse_loop Plain ls s' p)
        else if r = (CHR 0x27) then parse_loop SingleQuoted ls s p
        else if r = (CHR 0x22) then parse_loop DoubleQuoted ls s p
        else if r = (CHR 0x5C) then
          (case s of r1 # s1 \<Rightarrow> parse_loop Plain ls s1 (literal [r1] p)
           | [] \<Rightarrow> (case ls of [] \<Rightarrow> Inl SrcEOF | l # ls \<Rightarrow> parse_loop Plain ls l p))
        else parse_loop Plain ls s (literal [r] p))"
| "parse_loop SingleQuoted ls [] p =
     (case ls of [] \<Rightarrow> Inl MissingEndQuote | l # ls \<Rightarrow> parse_loop SingleQuoted ls l (literal [(CHR 0x0A)] p))"
| "parse_loop SingleQuoted ls (r # s) p =
     (if r = (CHR 0x27) then parse_loop Plain ls s p else parse_loop SingleQuoted ls s (literal [r] p))"
| "parse_loop DoubleQuoted ls [] p =
     (case ls of [] \<Rightarrow> Inl MissingEndQuote | l # ls \<Rightarrow> parse_loop DoubleQuoted ls l (literal [(CHR 0x0A)] p))"
| "parse_loop DoubleQuoted ls (r # s) p =
     (if r = (CHR 0x22) then parse_loop Plain ls s p
      else if r = CHR ''$'' \<and> s \<noteq> [] then
        (case parseEnv (wd p) s of Inl e \<Rightarrow> Inl e
         | Inr (w, s') \<Rightarrow> parse_loop DoubleQuoted ls s' (p\<lparr>wd := w\<rparr>))
      else if r = (CHR 0x5C) \<and> s = [] then
        (case ls of [] \<Rightarrow> Inl MissingEndQuote | l # ls \<Rightarrow> parse_loop DoubleQuoted ls l p)
      else if r = (CHR 0x5C) \<and> hd s \<in> {CHR ''$'', (CHR 0x22), (CHR 0x5C)} then parse_loop DoubleQuoted ls (tl s) (literal [hd s] p)
      else parse_loop DoubleQuoted ls s (literal [r] p))"
  by pat_completeness auto

termination
  by (relation "measure (\<lambda>(m, ls, s, p). length s + sum_list (map (\<lambda>l. Suc (length l)) ls))";
      (simp_all only: in_measure prod.case wf_measure list.size list.map sum_list.Cons add_Suc_right add_0_right
        add_Suc less_Suc_eq_le add_le_cancel_right length_tl diff_le_self)?;
      (erule rune_length_le | erule (1) parseEnv_length_le)?)

definition Parse :: "string list \<Rightarrow> parse_error + CmdList" where
  "Parse ls = (case ls of [] \<Rightarrow> Inl SrcEOF
     | s # ls \<Rightarrow> (case parse_loop Plain ls s \<lparr>cl = [], cmd = empty_cmd, wd = [], inWS = True\<rparr> of
         Inl e \<Rightarrow> Inl e
       | Inr p \<Rightarrow> let c = (if wd p \<noteq> [] then cmd_add (cmd p) (wd p) else cmd p)
           in Inr (if Cmds c \<noteq> [] then cl p @ [c] else cl p)))"

text \<open>\<open>Slice\<close>: the environment set by a command line and its arguments. A word's text, with the place
  of its first \<open>=\<close> token.\<close>

fun slice_word :: "(string \<Rightarrow> string) \<Rightarrow> Word \<Rightarrow> string \<Rightarrow> nat option \<Rightarrow> string \<times> nat option" where
  "slice_word getenv [] s eq = (s, eq)"
| "slice_word getenv (t # ts) s eq = (case tT t of
     TokenLiteral \<Rightarrow> slice_word getenv ts (s @ tV t) eq
   | TokenEnvget \<Rightarrow> slice_word getenv ts (s @ getenv (tV t)) eq
   | TokenEnvset \<Rightarrow> slice_word getenv ts (s @ tV t) (if eq = None then Some (length s) else eq))"

fun slice_words :: "(string \<Rightarrow> string) \<Rightarrow> Word list \<Rightarrow> (string \<rightharpoonup> string) \<Rightarrow> string list \<Rightarrow> (string \<rightharpoonup> string) \<times> string list" where
  "slice_words getenv [] env args = (env, args)"
| "slice_words getenv (w # ws) env args = (case slice_word getenv w [] None of (s, eq) \<Rightarrow>
     (case eq of
        Some n \<Rightarrow> if args = [] \<and> n \<noteq> 0 then slice_words getenv ws (env(take n s \<mapsto> drop (n + 1) s)) args
                  else slice_words getenv ws env (args @ [s])
      | None \<Rightarrow> slice_words getenv ws env (args @ [s])))"

definition Cmdline_Slice :: "(string \<Rightarrow> string) \<Rightarrow> Cmdline \<Rightarrow> (string \<rightharpoonup> string) \<times> string list" where
  "Cmdline_Slice getenv c = slice_words getenv (Cmds c) Map.empty []"

section \<open>Slices at a boundary: internal/pizza; comments: internal/nocomment\<close>

record Pizza =
  Boundary :: string
  More :: bool
  Slices :: "string list list"

definition pizza_New :: "string \<Rightarrow> Pizza" where
  "pizza_New b = \<lparr>Boundary = b, More = False, Slices = []\<rparr>"

fun slice_loop :: "string list \<Rightarrow> Pizza \<Rightarrow> Pizza" where
  "slice_loop [] p = p"
| "slice_loop (a # args) p =
     (if a = Boundary p
      then if args = [] then p\<lparr>More := True\<rparr> else slice_loop args (p\<lparr>Slices := Slices p @ [[]]\<rparr>)
      else slice_loop args (p\<lparr>Slices := (Slices p)[length (Slices p) - 1 := last (Slices p) @ [a]]\<rparr>))"

definition pizza_Slice :: "Pizza \<Rightarrow> string list \<Rightarrow> Pizza" where
  "pizza_Slice p args = slice_loop args (p\<lparr>More := False, Slices := Slices p @ [[]]\<rparr>)"

definition pizza_Reset :: "Pizza \<Rightarrow> Pizza" where
  "pizza_Reset p = p\<lparr>More := False, Slices := []\<rparr>"

definition blank :: "char \<Rightarrow> bool" where
  "blank c \<longleftrightarrow> c = CHR '' '' \<or> c = (CHR 0x09)"

definition nocomment :: "string \<Rightarrow> string" where
  "nocomment s = (
     if s = [] \<or> hd s = CHR ''#'' then []
     else let t = dropWhile blank s in
       if t = [] \<or> hd t = CHR ''#'' then []
       else let i = length (takeWhile (\<lambda>c. c \<noteq> CHR ''#'') t) in
         if i < length t \<and> 0 < i \<and> blank (t ! (i - 1)) then rev (dropWhile blank (rev (take i t)))
         else t)"

subsection \<open>Quoted arguments\<close>

abbreviation quo :: char where "quo \<equiv> CHR 0x27"

definition lit :: "string \<Rightarrow> Word" where
  "lit s = [\<lparr>tV = s, tT = TokenLiteral\<rparr>]"

definition quote :: "string \<Rightarrow> string" where
  "quote s = quo # s @ [quo]"

text \<open>Each argument in single quotes, after a space.\<close>

definition quote_args :: "string list \<Rightarrow> string" where
  "quote_args args = concat (map (\<lambda>a. CHR '' '' # quote a) args)"

lemma addLiteral_nil: "addLiteral [] s = lit s" and addLiteral_lit: "addLiteral (lit s) t = lit (s @ t)"
  by (simp_all add: addLiteral_def lit_def word_add_def)

lemma single_quoted_lit:
  "quo \<notin> set s \<Longrightarrow> wd p = lit x \<Longrightarrow>
     parse_loop SingleQuoted ls (s @ quo # t) p = parse_loop Plain ls t (p\<lparr>wd := lit (x @ s)\<rparr>)"
proof (induction s arbitrary: p x)
  case Nil
  then have "p\<lparr>wd := lit x\<rparr> = p" by simp
  then show ?case by simp
next
  case (Cons r s)
  have "wd (literal [r] p) = lit (x @ [r])" using Cons.prems by (simp add: literal_def addLiteral_lit)
  from Cons.IH [OF _ this] Cons.prems show ?case by (auto simp: literal_def)
qed

lemma single_quoted:
  assumes "quo \<notin> set s" "s \<noteq> []" "wd p = []"
  shows "parse_loop SingleQuoted ls (s @ quo # t) p = parse_loop Plain ls t (p\<lparr>wd := lit s\<rparr>)"
proof (cases s)
  case (Cons r s')
  have "wd (literal [r] p) = lit [r]" using assms(3) by (simp add: literal_def addLiteral_nil)
  from single_quoted_lit [OF _ this, of s' ls t] assms(1) Cons show ?thesis by (auto simp: literal_def)
qed (use assms in simp)

lemma space_rune: "isSpace (CHR '' '')" "\<not> isSpace quo"
  by (simp_all add: isSpace_def)

text \<open>The words of a state: those of its command line and the pending one.\<close>

definition words_of :: "pstate \<Rightarrow> Word list" where
  "words_of p = Cmds (cmd p) @ (if wd p = [] then [] else [wd p])"

definition between :: "pstate \<Rightarrow> bool" where
  "between p \<longleftrightarrow> (inWS p \<longleftrightarrow> wd p = [])"

lemma parse_quote_args:
  assumes "\<forall>a \<in> set args. quo \<notin> set a \<and> a \<noteq> []" "between p"
  shows "\<exists>p'. parse_loop Plain ls (quote_args args) p = Inr p' \<and> between p' \<and> words_of p' = words_of p @ map lit args \<and>
    cl p' = cl p \<and> Term (cmd p') = Term (cmd p)"
  using assms
proof (induction args arbitrary: p)
  case Nil
  then show ?case by (simp add: quote_args_def)
next
  case (Cons a args)
  define q where "q = (if inWS p then p else (end_word p)\<lparr>inWS := True\<rparr>)"
  have q: "inWS q" "wd q = []" "words_of q = words_of p" "cl q = cl p" "Term (cmd q) = Term (cmd p)"
    using Cons.prems(2) by (auto simp: q_def between_def words_of_def end_word_def cmd_add_def)
  define r where "r = q\<lparr>inWS := False, wd := lit a\<rparr>"
  have r: "between r" "words_of r = words_of p @ [lit a]" "cl r = cl p" "Term (cmd r) = Term (cmd p)"
    using q by (auto simp: r_def between_def words_of_def lit_def)
  have "parse_loop Plain ls (quote_args (a # args)) p = parse_loop Plain ls (quo # a @ quo # quote_args args) q"
    by (simp add: quote_args_def quote_def q_def space_rune)
  also have "\<dots> = parse_loop SingleQuoted ls (a @ quo # quote_args args) (q\<lparr>inWS := False\<rparr>)"
    using q(1) by (simp add: space_rune enter_rune_def Let_def)
  also have "\<dots> = parse_loop Plain ls (quote_args args) r"
    using Cons.prems(1) q(2) by (subst single_quoted) (simp_all add: r_def)
  finally have e: "parse_loop Plain ls (quote_args (a # args)) p = parse_loop Plain ls (quote_args args) r" .
  obtain p' where "parse_loop Plain ls (quote_args args) r = Inr p'" "between p'" "words_of p' = words_of r @ map lit args"
    "cl p' = cl r" "Term (cmd p') = Term (cmd r)"
    using Cons.IH [OF _ r(1)] Cons.prems(1) by auto
  then show ?case using r e by simp
qed

lemma slice_words_lit: "slice_words getenv (map lit args) env acc = (env, acc @ args)"
  by (induction args arbitrary: acc) (simp_all add: lit_def)

lemma Parse_quote_args:
  assumes "args \<noteq> []" "\<forall>a \<in> set args. quo \<notin> set a \<and> a \<noteq> []"
  shows "Parse (quote_args args # ls) = Inr [\<lparr>Cmds = map lit args, Term = []\<rparr>]"
proof -
  let ?p = "\<lparr>cl = [], cmd = empty_cmd, wd = [], inWS = True\<rparr>"
  have "between ?p" "words_of ?p = []" by (simp_all add: between_def words_of_def empty_cmd_def)
  then obtain p' where p': "parse_loop Plain ls (quote_args args) ?p = Inr p'" "words_of p' = map lit args"
    "cl p' = []" "Term (cmd p') = []"
    using parse_quote_args [OF assms(2), of ?p ls] by (auto simp: empty_cmd_def)
  have "(if wd p' \<noteq> [] then cmd_add (cmd p') (wd p') else cmd p') = \<lparr>Cmds = map lit args, Term = []\<rparr>"
    using p'(2,4) by (cases "cmd p'") (auto simp: words_of_def cmd_add_def split: if_splits)
  then show ?thesis using p' assms(1) by (simp add: Parse_def Let_def)
qed

subsection \<open>Properties of the shell parser\<close>

text \<open>C15: Arguments in single quotes come through: for non-empty arguments without a single quote, whatever
  other runes they hold, parsing the quoted line gives one command line whose slices are exactly the arguments and
  no environment setting.\<close>

theorem shell_quote_roundtrip:
  assumes "args \<noteq> []" "\<forall>a \<in> set args. quo \<notin> set a \<and> a \<noteq> []"
  shows "\<exists>c. Parse [quote_args args] = Inr [c] \<and> Cmdline_Slice getenv c = (Map.empty, args)"
  using Parse_quote_args [OF assms, of "[]"] by (simp add: Cmdline_Slice_def slice_words_lit)

lemma shell_quote_roundtrip_witness:
  "\<exists>c. Parse [quote_args [''echo'', ''a b; $c | d'']] = Inr [c] \<and> Cmdline_Slice (\<lambda>_. []) c = (Map.empty, [''echo'', ''a b; $c | d''])"
  by (rule shell_quote_roundtrip) simp_all

text \<open>An empty quoted argument is kept in the middle of a line and lost at its end.\<close>

theorem shell_empty_argument:
  "(\<exists>c. Parse [''echo '' @ quote [] @ '' x''] = Inr [c] \<and> Cmdline_Slice getenv c = (Map.empty, [''echo'', [], ''x''])) \<and>
   (\<exists>c. Parse [''echo '' @ quote []] = Inr [c] \<and> Cmdline_Slice getenv c = (Map.empty, [''echo'']))"
  by (simp add: Parse_def quote_def empty_cmd_def isSpace_def Let_def enter_rune_def literal_def addLiteral_def word_add_def
      end_word_def cmd_add_def Cmdline_Slice_def)

subsection \<open>Slices\<close>

text \<open>The arguments the slices stand for.\<close>

fun unslice :: "string \<Rightarrow> string list list \<Rightarrow> string list" where
  "unslice b [] = []"
| "unslice b [s] = s"
| "unslice b (s # ss) = s @ b # unslice b ss"

lemma unslice_snoc: "ss \<noteq> [] \<Longrightarrow> unslice b (ss @ [s]) = unslice b ss @ b # s"
  by (induction b ss rule: unslice.induct) auto

lemma unslice_last: "unslice b (ss @ [s @ [a]]) = unslice b (ss @ [s]) @ [a]"
  by (cases "ss = []") (simp_all add: unslice_snoc)

lemma slice_loop_unslice:
  "Slices p = ss @ [s] \<Longrightarrow> \<not> More p \<Longrightarrow> (let q = slice_loop args p in
     unslice (Boundary p) (Slices q) @ (if More q then [Boundary p] else []) = unslice (Boundary p) (ss @ [s]) @ args \<and>
     Boundary q = Boundary p)"
proof (induction args arbitrary: p ss s)
  case (Cons a args)
  show ?case
  proof (cases "a = Boundary p")
    case True
    show ?thesis
    proof (cases "args = []")
      case False
      let ?p = "p\<lparr>Slices := Slices p @ [[]]\<rparr>"
      have "unslice (Boundary p) (Slices ?p) = unslice (Boundary p) (ss @ [s]) @ [a]"
        using Cons.prems(1) True by (simp add: unslice_snoc del: append_assoc)
      then show ?thesis using Cons.IH [of ?p "ss @ [s]" "[]"] Cons.prems True False by (simp add: Let_def split: if_splits)
    qed (use Cons.prems True in \<open>simp add: Let_def\<close>)
  next
    case False
    let ?p = "p\<lparr>Slices := (Slices p)[length (Slices p) - 1 := last (Slices p) @ [a]]\<rparr>"
    have "Slices ?p = ss @ [s @ [a]]" using Cons.prems(1) by (simp add: list_update_append)
    then show ?thesis using Cons.IH [of ?p ss "s @ [a]"] Cons.prems(2) False unslice_last [of "Boundary p" ss s a]
      by (simp add: Let_def split: if_splits)
  qed
qed simp

text \<open>Slicing loses nothing: joining the slices at the boundary, with a last boundary when \<open>More\<close> is
  set, gives the arguments back.\<close>

theorem pizza_roundtrip:
  "unslice b (Slices (pizza_Slice (pizza_New b) args)) @ (if More (pizza_Slice (pizza_New b) args) then [b] else []) = args"
  using slice_loop_unslice [of "\<lparr>Boundary = b, More = False, Slices = [[]]\<rparr>" "[]" "[]" args]
  by (simp add: pizza_Slice_def pizza_New_def Let_def split: if_splits)

end
