(* ===== verification/Options.thy ===== *)
theory Options
  imports Go_Prelude
begin

section \<open>Command options: internal/flags, internal/parms, internal/cmdline\<close>

text \<open>
  Boolean flags, named parameters, and the kernel command line. \<open>ByName\<close> and the aliases are partial
  maps; the argument list is walked once, an argument a definition claims being removed (the code shifts
  the slice in place and does not advance its index).
\<close>

text \<open>A flag or parameter definition: a name, or a name with aliases.\<close>

datatype name_def = NameStr string | NameSlice "string list"

subsection \<open>Flags\<close>

record Flags =
  fByName :: "string \<rightharpoonup> bool"
  faliases :: "string \<rightharpoonup> string"

definition flags_define :: "Flags \<Rightarrow> name_def \<Rightarrow> Flags option" where
  "flags_define p d = (case d of
     NameStr t \<Rightarrow> Some (p\<lparr>fByName := (fByName p)(t \<mapsto> False)\<rparr>)
   | NameSlice ts \<Rightarrow> (case ts of [] \<Rightarrow> None
       | t # akas \<Rightarrow> Some (p\<lparr>fByName := (fByName p)(t \<mapsto> False),
           faliases := fold (\<lambda>aka m. m(aka \<mapsto> t)) akas (faliases p)\<rparr>)))"

text \<open>The combined short flags \<open>-abc\<close>: the flags of its runes, none unless all are known.\<close>

fun short_flags :: "(string \<rightharpoonup> bool) \<Rightarrow> string \<Rightarrow> string list \<Rightarrow> string list" where
  "short_flags m [] acc = acc"
| "short_flags m (c # cs) acc = (if m [CHR ''-'', c] = None then [] else short_flags m cs (acc @ [[CHR ''-'', c]]))"

fun flags_Parse :: "Flags \<Rightarrow> string list \<Rightarrow> Flags \<times> string list" where
  "flags_Parse p [] = (p, [])"
| "flags_Parse p (a # args) =
     (case faliases p a of
        Some k \<Rightarrow> flags_Parse (p\<lparr>fByName := (fByName p)(k \<mapsto> True)\<rparr>) args
      | None \<Rightarrow>
          if fByName p a \<noteq> None then flags_Parse (p\<lparr>fByName := (fByName p)(a \<mapsto> True)\<rparr>) args
          else if a \<noteq> [] \<and> hd a = CHR ''-''
          then let fs = short_flags (fByName p) (tl a) [] in
            if fs \<noteq> [] then flags_Parse (p\<lparr>fByName := fold (\<lambda>s m. m(s \<mapsto> True)) fs (fByName p)\<rparr>) args
            else let (p, rest) = flags_Parse p args in (p, a # rest)
          else let (p, rest) = flags_Parse p args in (p, a # rest))"

fun flags_defs :: "Flags \<Rightarrow> name_def list \<Rightarrow> Flags option" where
  "flags_defs p [] = Some p"
| "flags_defs p (d # ds) = do { p \<leftarrow> flags_define p d; flags_defs p ds }"

definition flags_More :: "Flags \<Rightarrow> string list \<Rightarrow> name_def list \<Rightarrow> (Flags \<times> string list) option" where
  "flags_More p args ds = do { p \<leftarrow> flags_defs p ds; Some (flags_Parse p args) }"

definition flags_New :: "string list \<Rightarrow> name_def list \<Rightarrow> (Flags \<times> string list) option" where
  "flags_New args ds = (let p = \<lparr>fByName = Map.empty, faliases = Map.empty\<rparr> in
     if ds \<noteq> [] then flags_More p args ds else Some (p, args))"

definition flags_Reset :: "Flags \<Rightarrow> Flags" where
  "flags_Reset p = p\<lparr>fByName := (\<lambda>k. map_option (\<lambda>_. False) (fByName p k))\<rparr>"

subsection \<open>Parameters\<close>

record Parms =
  pByName :: "string \<rightharpoonup> string"
  paliases :: "string \<rightharpoonup> string"

definition parms_define :: "Parms \<Rightarrow> name_def \<Rightarrow> Parms option" where
  "parms_define p d = (case d of
     NameStr t \<Rightarrow> Some (p\<lparr>pByName := (pByName p)(t \<mapsto> [])\<rparr>)
   | NameSlice ts \<Rightarrow> (case ts of [] \<Rightarrow> None
       | t # akas \<Rightarrow> Some (p\<lparr>pByName := (pByName p)(t \<mapsto> []),
           paliases := fold (\<lambda>aka m. m(aka \<mapsto> t)) akas (paliases p)\<rparr>)))"

text \<open>\<open>Set\<close>: \<open>None\<close> is \<open>ErrNotFound\<close>.\<close>

definition parms_Set :: "Parms \<Rightarrow> string \<Rightarrow> string \<Rightarrow> Parms option" where
  "parms_Set p name v = (case pByName p name of
     None \<Rightarrow> None
   | Some cur \<Rightarrow> Some (p\<lparr>pByName := (pByName p)(name \<mapsto> (if cur \<noteq> [] \<and> v \<noteq> [] then cur @ '' '' @ v else v))\<rparr>))"

text \<open>\<open>strings.Index\<close> of one byte.\<close>

definition index_of :: "char \<Rightarrow> string \<Rightarrow> nat option" where
  "index_of c s = (let i = length (takeWhile (\<lambda>x. x \<noteq> c) s) in if i < length s then Some i else None)"

function (sequential) parms_Parse :: "Parms \<Rightarrow> string list \<Rightarrow> Parms \<times> string list" where
  "parms_Parse p [] = (p, [])"
| "parms_Parse p (a # args) =
     (let keep = (\<lambda>u :: unit. let (p, rest) = parms_Parse p args in (p, a # rest)) in
      case index_of (CHR ''='') a of
        Some (Suc n) \<Rightarrow> (case parms_Set p (take (Suc n) a) (drop (Suc n + 1) a) of
            Some p \<Rightarrow> parms_Parse p args
          | None \<Rightarrow> keep ())
      | _ \<Rightarrow> (case args of
            [] \<Rightarrow> keep ()
          | v # args' \<Rightarrow> (case parms_Set p (case paliases p a of Some k \<Rightarrow> k | None \<Rightarrow> a) v of
                Some p \<Rightarrow> parms_Parse p args'
              | None \<Rightarrow> keep ())))"
  by pat_completeness auto

termination
  by (relation "measure (\<lambda>(p, args). length args)") auto

fun parms_defs :: "Parms \<Rightarrow> name_def list \<Rightarrow> Parms option" where
  "parms_defs p [] = Some p"
| "parms_defs p (d # ds) = do { p \<leftarrow> parms_define p d; parms_defs p ds }"

definition parms_More :: "Parms \<Rightarrow> string list \<Rightarrow> name_def list \<Rightarrow> (Parms \<times> string list) option" where
  "parms_More p args ds = do { p \<leftarrow> parms_defs p ds; Some (parms_Parse p args) }"

definition parms_New :: "string list \<Rightarrow> name_def list \<Rightarrow> (Parms \<times> string list) option" where
  "parms_New args ds = (let p = \<lparr>pByName = Map.empty, paliases = Map.empty\<rparr> in
     if ds \<noteq> [] then parms_More p args ds else Some (p, args))"

definition parms_Reset :: "Parms \<Rightarrow> Parms" where
  "parms_Reset p = p\<lparr>pByName := (\<lambda>k. map_option (\<lambda>_. []) (pByName p k))\<rparr>"

subsection \<open>The kernel command line\<close>

text \<open>\<open>Set\<close> of one \<open>KEY=VALUE\<close> or \<open>KEY\<close> field.\<close>

definition cmdline_Set :: "(string \<rightharpoonup> string) \<Rightarrow> string \<Rightarrow> (string \<rightharpoonup> string)" where
  "cmdline_Set m kv = (case index_of (CHR ''='') kv of
     None \<Rightarrow> m(kv \<mapsto> ''true'')
   | Some eq \<Rightarrow>
       if eq \<le> 1 \<or> eq = length kv - 1 then m(kv \<mapsto> ''true'')
       else if kv ! (eq + 1) = CHR 0x27 \<or> kv ! (eq + 1) = CHR 0x22
       then m(take eq kv \<mapsto> take (length kv - 1 - (eq + 2)) (drop (eq + 2) kv))
       else m(take eq kv \<mapsto> drop (eq + 1) kv))"

subsection \<open>Flags: what is consumed and what is left\<close>

text \<open>The flags an argument stands for; none for an argument that is not a flag.\<close>

definition flag_names :: "(string \<rightharpoonup> string) \<Rightarrow> string set \<Rightarrow> string \<Rightarrow> string list" where
  "flag_names al ns a = (case al a of Some k \<Rightarrow> [k]
     | None \<Rightarrow> if a \<in> ns then [a]
         else if a \<noteq> [] \<and> hd a = CHR ''-'' \<and> (\<forall>c \<in> set (tl a). [CHR ''-'', c] \<in> ns)
           then map (\<lambda>c. [CHR ''-'', c]) (tl a) else [])"

definition set_flags :: "string list \<Rightarrow> (string \<rightharpoonup> bool) \<Rightarrow> (string \<rightharpoonup> bool)" where
  "set_flags fs m = fold (\<lambda>s m. m(s \<mapsto> True)) fs m"

lemma set_flags_apply: "set_flags fs m k = (if k \<in> set fs then Some True else m k)"
  unfolding set_flags_def by (induction fs arbitrary: m) auto

lemma set_flags_append: "set_flags (fs @ gs) m = set_flags gs (set_flags fs m)"
  by (simp add: set_flags_def)

lemma dom_set_flags: "set fs \<subseteq> dom m \<Longrightarrow> dom (set_flags fs m) = dom m"
  by (auto simp: set_flags_apply dom_def split: if_splits)

lemma short_flags_eq:
  "short_flags m cs acc = (if \<forall>c \<in> set cs. [CHR ''-'', c] \<in> dom m then acc @ map (\<lambda>c. [CHR ''-'', c]) cs else [])"
  by (induction cs arbitrary: acc) auto

lemma flag_names_dom: "ran al \<subseteq> ns \<Longrightarrow> set (flag_names al ns a) \<subseteq> ns"
  by (auto simp: flag_names_def ran_def split: option.splits if_splits)

lemma flags_Parse_step:
  "flags_Parse p (a # args) = (case flag_names (faliases p) (dom (fByName p)) a of
     [] \<Rightarrow> (let (p, rest) = flags_Parse p args in (p, a # rest))
   | fs \<Rightarrow> flags_Parse (p\<lparr>fByName := set_flags fs (fByName p)\<rparr>) args)"
proof (cases "faliases p a")
  case (Some k)
  then show ?thesis by (simp add: flag_names_def set_flags_def)
next
  case None
  show ?thesis
  proof (cases "a \<in> dom (fByName p)")
    case True
    then show ?thesis using None by (auto simp: flag_names_def set_flags_def)
  next
    case False
    then have "fByName p a = None" by auto
    then show ?thesis using None False
      by (simp add: flag_names_def set_flags_def short_flags_eq Let_def split: list.splits)
  qed
qed

lemma flags_Parse_filter:
  "ran (faliases p) \<subseteq> dom (fByName p) \<Longrightarrow> flags_Parse p args =
     (p\<lparr>fByName := set_flags (concat (map (flag_names (faliases p) (dom (fByName p))) args)) (fByName p)\<rparr>,
      filter (\<lambda>a. flag_names (faliases p) (dom (fByName p)) a = []) args)"
proof (induction args arbitrary: p)
  case Nil
  then show ?case by (simp add: set_flags_def)
next
  case (Cons a args)
  let ?n = "flag_names (faliases p) (dom (fByName p))"
  show ?case
  proof (cases "?n a")
    case Nil
    then show ?thesis unfolding flags_Parse_step using Cons.IH [OF Cons.prems] by simp
  next
    case (Cons f fs)
    let ?q = "p\<lparr>fByName := set_flags (f # fs) (fByName p)\<rparr>"
    have "set (?n a) \<subseteq> dom (fByName p)" by (rule flag_names_dom [OF Cons.prems])
    then have d: "dom (fByName ?q) = dom (fByName p)" using dom_set_flags [of "f # fs" "fByName p"] local.Cons by simp
    then have "flags_Parse ?q args = (?q\<lparr>fByName := set_flags (concat (map ?n args)) (fByName ?q)\<rparr>, filter (\<lambda>a. ?n a = []) args)"
      using Cons.IH [of ?q] Cons.prems by simp
    then show ?thesis unfolding flags_Parse_step using local.Cons by (simp add: set_flags_append [of "f # fs", simplified])
  qed
qed

lemma ran_fold_alias: "ran (fold (\<lambda>aka m. m(aka \<mapsto> t)) akas m) \<subseteq> insert t (ran m)"
proof (induction akas arbitrary: m)
  case (Cons a akas)
  have r: "ran (m(a \<mapsto> t)) \<subseteq> insert t (ran m)" by (auto simp: ran_def)
  have "ran (fold (\<lambda>aka m. m(aka \<mapsto> t)) (a # akas) m) \<subseteq> insert t (ran (m(a \<mapsto> t)))"
    unfolding fold_simps(2) by (rule Cons.IH)
  then show ?case using r by (meson insert_subset order_trans insert_subsetI subset_insertI subset_insert insertI1)
qed auto

lemma flags_define_inv:
  assumes "flags_define p d = Some q" "ran (faliases p) \<subseteq> dom (fByName p)" "\<forall>k v. fByName p k = Some v \<longrightarrow> \<not> v"
  shows "ran (faliases q) \<subseteq> dom (fByName q) \<and> (\<forall>k v. fByName q k = Some v \<longrightarrow> \<not> v)"
proof (cases d)
  case (NameStr t)
  then have q: "q = p\<lparr>fByName := (fByName p)(t \<mapsto> False)\<rparr>" using assms(1) by (simp add: flags_define_def)
  show ?thesis using assms(2,3) by (auto simp: q)
next
  case (NameSlice ts)
  then obtain t akas where ts: "ts = t # akas" using assms(1) by (cases ts) (simp_all add: flags_define_def)
  then have q: "fByName q = (fByName p)(t \<mapsto> False)" "faliases q = fold (\<lambda>aka m. m(aka \<mapsto> t)) akas (faliases p)"
    using assms(1) NameSlice by (auto simp: flags_define_def)
  have "ran (faliases q) \<subseteq> insert t (ran (faliases p))" unfolding q(2) by (rule ran_fold_alias)
  also have "\<dots> \<subseteq> dom (fByName q)" using assms(2) by (auto simp: q(1))
  finally show ?thesis using assms(3) by (auto simp: q(1) split: if_splits)
qed

lemma flags_defs_inv:
  "flags_defs p ds = Some q \<Longrightarrow> ran (faliases p) \<subseteq> dom (fByName p) \<Longrightarrow> \<forall>k v. fByName p k = Some v \<longrightarrow> \<not> v \<Longrightarrow>
     ran (faliases q) \<subseteq> dom (fByName q) \<and> (\<forall>k v. fByName q k = Some v \<longrightarrow> \<not> v)"
proof (induction ds arbitrary: p)
  case (Cons d ds)
  then obtain p1 where p1: "flags_define p d = Some p1" "flags_defs p1 ds = Some q" by (auto split: Option.bind_splits)
  show ?case using flags_define_inv [OF p1(1) Cons.prems(2,3)] Cons.IH [OF p1(2)] by blast
qed simp

lemma flags_New_spec:
  assumes "flags_New args ds = Some (p, rest)"
  shows "rest = filter (\<lambda>a. flag_names (faliases p) (dom (fByName p)) a = []) args \<and>
    (\<forall>k. k \<in> dom (fByName p) \<longrightarrow> fByName p k = Some (\<exists>a \<in> set args. k \<in> set (flag_names (faliases p) (dom (fByName p)) a)))"
proof (cases "ds = []")
  case True
  then show ?thesis using assms by (auto simp: flags_New_def flag_names_def Let_def)
next
  case False
  then obtain q where q: "flags_defs \<lparr>fByName = Map.empty, faliases = Map.empty\<rparr> ds = Some q" "flags_Parse q args = (p, rest)"
    using assms by (auto simp: flags_New_def flags_More_def Let_def split: Option.bind_splits)
  have i: "ran (faliases q) \<subseteq> dom (fByName q)" "\<forall>k v. fByName q k = Some v \<longrightarrow> \<not> v"
    using flags_defs_inv [OF q(1)] by (simp, blast?)+
  let ?fs = "concat (map (flag_names (faliases q) (dom (fByName q))) args)"
  from flags_Parse_filter [OF i(1), of args] q(2)
  have p: "p = q\<lparr>fByName := set_flags ?fs (fByName q)\<rparr>"
    and rest: "rest = filter (\<lambda>a. flag_names (faliases q) (dom (fByName q)) a = []) args" by simp_all
  have "set ?fs \<subseteq> dom (fByName q)" using flag_names_dom [OF i(1)] by auto
  then have d: "dom (fByName p) = dom (fByName q)" "faliases p = faliases q" using dom_set_flags p by simp_all
  have "fByName p k = Some (\<exists>a \<in> set args. k \<in> set (flag_names (faliases q) (dom (fByName q)) a))" if k: "k \<in> dom (fByName q)" for k
  proof -
    obtain v where "fByName q k = Some v" "\<not> v" using k i(2) by blast
    then show ?thesis by (auto simp: p set_flags_apply)
  qed
  then show ?thesis unfolding d rest by blast
qed

subsection \<open>Parameters\<close>

lemma index_of_append: "c \<notin> set n \<Longrightarrow> index_of c (n @ c # v) = Some (length n)"
proof -
  assume "c \<notin> set n"
  then have "takeWhile (\<lambda>x. x \<noteq> c) (n @ c # v) = n" by (induction n) auto
  then show ?thesis by (simp add: index_of_def)
qed

lemma index_of_none: "c \<notin> set n \<Longrightarrow> index_of c n = None"
proof -
  assume "c \<notin> set n"
  then have t: "takeWhile (\<lambda>x. x \<noteq> c) n = n" by (induction n) auto
  show ?thesis unfolding index_of_def t Let_def by simp
qed

text \<open>A parameter written \<open>NAME=VALUE\<close> or as two arguments.\<close>

definition render_parm :: "bool \<times> string \<times> string \<Rightarrow> string list" where
  "render_parm = (\<lambda>(eq, n, v). if eq then [n @ ''='' @ v] else [n, v])"

definition parm_name_ok :: "Parms \<Rightarrow> string \<Rightarrow> bool" where
  "parm_name_ok p n \<longleftrightarrow> n \<noteq> [] \<and> CHR ''='' \<notin> set n \<and> n \<in> dom (pByName p) \<and> paliases p n = None"

text \<open>The value a parameter has after a list of settings.\<close>

definition join_value :: "string \<Rightarrow> string \<Rightarrow> string" where
  "join_value cur v = (if cur \<noteq> [] \<and> v \<noteq> [] then cur @ '' '' @ v else v)"

definition parm_value :: "(bool \<times> string \<times> string) list \<Rightarrow> string \<Rightarrow> string \<Rightarrow> string" where
  "parm_value kvs n cur = fold (\<lambda>(eq, m, v) cur. if m = n then join_value cur v else cur) kvs cur"

lemma parms_Parse_one:
  assumes "parm_name_ok p n"
  shows "parms_Parse p (render_parm (eq, n, v) @ args) =
    parms_Parse (p\<lparr>pByName := (pByName p)(n \<mapsto> join_value (the (pByName p n)) v)\<rparr>) args"
proof -
  obtain cur where c: "pByName p n = Some cur" using assms by (auto simp: parm_name_ok_def)
  obtain k where k: "length n = Suc k" using assms by (cases n) (auto simp: parm_name_ok_def)
  have n: "index_of (CHR ''='') (n @ ''='' @ v) = Some (Suc k)" "index_of (CHR ''='') n = None"
    using assms k index_of_append [of "CHR ''=''" n v] index_of_none by (simp_all add: parm_name_ok_def)
  have t: "take (Suc k) (n @ ''='' @ v) = n" "drop (Suc k + 1) (n @ ''='' @ v) = v" using k by simp_all
  show ?thesis
  proof (cases eq)
    case True
    have "parms_Parse p ((n @ ''='' @ v) # args) = parms_Parse (p\<lparr>pByName := (pByName p)(n \<mapsto> join_value cur v)\<rparr>) args"
      unfolding parms_Parse.simps Let_def n(1) option.case nat.case t by (simp add: parms_Set_def c join_value_def)
    then show ?thesis using True c by (simp add: render_parm_def)
  next
    case False
    then show ?thesis using n(2) c assms by (simp add: render_parm_def parms_Set_def join_value_def Let_def parm_name_ok_def)
  qed
qed

lemma parms_Parse_rendered:
  "\<forall>(eq, n, v) \<in> set kvs. parm_name_ok p n \<Longrightarrow>
   \<exists>q. parms_Parse p (concat (map render_parm kvs)) = (q, []) \<and> paliases q = paliases p \<and>
     (\<forall>n. pByName q n = map_option (parm_value kvs n) (pByName p n))"
proof (induction kvs arbitrary: p)
  case Nil
  then show ?case by (simp add: parm_value_def option.map_ident)
next
  case (Cons kv kvs)
  obtain eq n v where kv: "kv = (eq, n, v)" by (cases kv)
  have ok: "parm_name_ok p n" using Cons.prems kv by simp
  let ?p = "p\<lparr>pByName := (pByName p)(n \<mapsto> join_value (the (pByName p n)) v)\<rparr>"
  have "\<forall>(eq, n, v) \<in> set kvs. parm_name_ok ?p n" using Cons.prems by (auto simp: parm_name_ok_def)
  from Cons.IH [OF this] obtain q where q: "parms_Parse ?p (concat (map render_parm kvs)) = (q, [])" "paliases q = paliases p"
    "\<forall>n. pByName q n = map_option (parm_value kvs n) (pByName ?p n)" by auto
  have "pByName q m = map_option (parm_value (kv # kvs) m) (pByName p m)" for m
    using q(3) ok by (cases "pByName p m") (auto simp: parm_value_def kv parm_name_ok_def)
  then show ?case using q parms_Parse_one [OF ok, of eq v] by (simp add: kv)
qed

subsection \<open>Properties\<close>

text \<open>After \<open>New\<close> of flags, the arguments left are exactly those that name no flag, in their order, and a
  flag is set exactly when some argument names it, by its name, an alias, or a rune of a combined short option whose runes are all flags.\<close>

theorem flags_New_consumes:
  assumes "flags_New args ds = Some (p, rest)"
  shows "rest = filter (\<lambda>a. flag_names (faliases p) (dom (fByName p)) a = []) args \<and>
    (\<forall>k. k \<in> dom (fByName p) \<longrightarrow> fByName p k = Some (\<exists>a \<in> set args. k \<in> set (flag_names (faliases p) (dom (fByName p)) a)))"
  by (rule flags_New_spec [OF assms])

lemma flags_New_consumes_witness:
  "\<exists>p. flags_New [''-ab'', ''x'', ''-color''] [NameStr ''-a'', NameStr ''-b'', NameSlice [''-c'', ''-color'']] = Some (p, [''x'']) \<and>
     [''x''] = filter (\<lambda>a. flag_names (faliases p) (dom (fByName p)) a = []) [''-ab'', ''x'', ''-color''] \<and> fByName p ''-c'' = Some True"
proof -
  obtain p where p: "flags_New [''-ab'', ''x'', ''-color''] [NameStr ''-a'', NameStr ''-b'', NameSlice [''-c'', ''-color'']] = Some (p, [''x''])"
    "fByName p ''-c'' = Some True"
    by (simp add: flags_New_def flags_More_def flags_define_def Let_def)
  from flags_New_consumes [OF p(1)] p show ?thesis by blast
qed

text \<open>Parameters given as \<open>NAME=VALUE\<close> or \<open>NAME VALUE\<close> are all consumed, and each parameter's value is the
  space-joined list of its non-empty settings since the last empty one.\<close>

theorem parms_Parse_values:
  assumes "\<forall>(eq, n, v) \<in> set kvs. parm_name_ok p n"
  shows "\<exists>q. parms_Parse p (concat (map render_parm kvs)) = (q, []) \<and> paliases q = paliases p \<and>
     (\<forall>n. pByName q n = map_option (parm_value kvs n) (pByName p n))"
  by (rule parms_Parse_rendered [OF assms])

lemma parms_Parse_values_witness:
  "\<exists>q. parms_Parse \<lparr>pByName = [''-a'' \<mapsto> []], paliases = Map.empty\<rparr> [''-a=x'', ''-a'', ''y''] = (q, []) \<and>
     pByName q ''-a'' = Some ''x y''"
  using parms_Parse_values [of "[(True, ''-a'', ''x''), (False, ''-a'', ''y'')]" "\<lparr>pByName = [''-a'' \<mapsto> []], paliases = Map.empty\<rparr>"]
  by (auto simp: parm_name_ok_def render_parm_def parm_value_def join_value_def)

text \<open>An alias is only known in the two-argument form: \<open>ALIAS=VALUE\<close> is left among the arguments and sets
  nothing.\<close>

theorem parms_alias_equals_left:
  assumes "a \<noteq> []" "CHR ''='' \<notin> set a" "pByName p a = None"
  shows "parms_Parse p [a @ ''='' @ v] = (p, [a @ ''='' @ v])"
proof -
  obtain k where k: "length a = Suc k" using assms(1) by (cases a) auto
  have n: "index_of (CHR ''='') (a @ ''='' @ v) = Some (Suc k)"
    using index_of_append [of "CHR ''=''" a v] assms(2) k by simp
  have t: "take (Suc k) (a @ ''='' @ v) = a" using k by simp
  show ?thesis unfolding parms_Parse.simps Let_def n option.case nat.case t by (simp add: parms_Set_def assms(3))
qed

lemma parms_alias_equals_left_witness:
  "parms_Parse \<lparr>pByName = [''-c'' \<mapsto> []], paliases = [''-color'' \<mapsto> ''-c'']\<rparr> [''-color=blue''] =
     (\<lparr>pByName = [''-c'' \<mapsto> []], paliases = [''-color'' \<mapsto> ''-c'']\<rparr>, [''-color=blue''])"
  using parms_alias_equals_left [of "''-color''" "\<lparr>pByName = [''-c'' \<mapsto> []], paliases = [''-color'' \<mapsto> ''-c'']\<rparr>" "''blue''"] by simp

end
