(* ===== verification/Netlink.thy ===== *)
theory Netlink
  imports Go_Prelude
begin

section \<open>Netlink messages: internal/nl\<close>

text \<open>
  Attributes and messages as the kernel's netlink protocol lays them out, on a little-endian machine. A \<open>Read\<close> of a
  value fills the front of the buffer it is given; it is a function to the bytes written, the error, and the buffer
  afterwards, with \<open>None\<close> for an index out of range.
\<close>

subsection \<open>Alignment and integers in memory\<close>

definition nl_Align :: "nat \<Rightarrow> nat \<Rightarrow> nat" where
  "nl_Align to i = nat ((int i + int to - 1) AND NOT (int to - 1))"

definition NLMSG :: nat where "NLMSG = 4"
definition NLATTR :: nat where "NLATTR = 4"
definition PAGE :: nat where "PAGE = 4 * 2 ^ 10"
definition SizeofRtAttr :: nat where "SizeofRtAttr = 4"
definition SizeofHdr :: nat where "SizeofHdr = 16"

text \<open>The \<open>n\<close> bytes of an integer in network byte order.\<close>

definition be_bytes :: "nat \<Rightarrow> 'a::len word \<Rightarrow> u8 list" where
  "be_bytes n w = map (\<lambda>i. ucast (drop_bit (8 * i) w)) (rev [0..<n])"

subsection \<open>Attributes\<close>

datatype attr = Attr (Type: u16) (Value: val)
and val = NilAttr | BytesAttr "u8 list" | Int8Attr u8 | Int16Attr u16 | Int32Attr u32 | Int64Attr u64
  | KstringAttr "u8 list" | Uint8Attr u8 | Uint16Attr u16 | Uint32Attr u32 | Uint64Attr u64
  | Be16Attr u16 | Be32Attr u32 | Be64Attr u64 | Attrs "attr list"

datatype nl_error = EOVERFLOW | EOther

text \<open>What a plain value writes.\<close>

fun val_bytes :: "val \<Rightarrow> u8 list" where
  "val_bytes NilAttr = []"
| "val_bytes (BytesAttr v) = v"
| "val_bytes (Int8Attr v) = [v]"
| "val_bytes (Int16Attr v) = le_bytes 2 v"
| "val_bytes (Int32Attr v) = le_bytes 4 v"
| "val_bytes (Int64Attr v) = le_bytes 8 v"
| "val_bytes (KstringAttr v) = v @ [0]"
| "val_bytes (Uint8Attr v) = [v]"
| "val_bytes (Uint16Attr v) = le_bytes 2 v"
| "val_bytes (Uint32Attr v) = le_bytes 4 v"
| "val_bytes (Uint64Attr v) = le_bytes 8 v"
| "val_bytes (Be16Attr v) = be_bytes 2 v"
| "val_bytes (Be32Attr v) = be_bytes 4 v"
| "val_bytes (Be64Attr v) = be_bytes 8 v"
| "val_bytes (Attrs as) = []"

definition plain_Read :: "u8 list \<Rightarrow> u8 list \<Rightarrow> nat \<times> nl_error option \<times> u8 list" where
  "plain_Read e b = (if length b < length e then (0, Some EOVERFLOW, b) else (length e, None, e @ drop (length e) b))"

text \<open>An attribute writes its value behind its header, then the header; the loop of \<open>Attrs\<close> slices the buffer
  at the bytes written so far.\<close>

fun attr_Read :: "attr \<Rightarrow> u8 list \<Rightarrow> (nat \<times> nl_error option \<times> u8 list) option"
  and val_Read :: "val \<Rightarrow> u8 list \<Rightarrow> (nat \<times> nl_error option \<times> u8 list) option"
  and attrs_Read :: "attr list \<Rightarrow> u8 list \<Rightarrow> (nat \<times> nl_error option \<times> u8 list) option" where
  "attr_Read (Attr t v) b = (if length b < SizeofRtAttr then None
     else do {
       (n, err, c) \<leftarrow> val_Read v (drop SizeofRtAttr b);
       case err of Some e \<Rightarrow> Some (0, Some e, take SizeofRtAttr b @ c)
       | None \<Rightarrow> Some (nl_Align NLATTR (SizeofRtAttr + n), None,
           le_bytes 2 (of_nat (SizeofRtAttr + n) :: u16) @ le_bytes 2 t @ c) })"
| "val_Read v b = (case v of Attrs as \<Rightarrow> attrs_Read as b | _ \<Rightarrow> Some (plain_Read (val_bytes v) b))"
| "attrs_Read [] b = Some (0, None, b)"
| "attrs_Read (a # as) b = do {
     (n, err, c) \<leftarrow> attr_Read a b;
     case err of Some e \<Rightarrow> Some (n, Some e, c)
     | None \<Rightarrow> if as = [] then Some (n, None, c)
         else if length c < n then None
         else do {
           (m, err, d) \<leftarrow> attrs_Read as (drop n c);
           Some (if err = None then n + m else m, err, take n c @ d) } }"

fun ReadAllAttrs :: "u8 list \<Rightarrow> attr list \<Rightarrow> (nat \<times> nl_error option \<times> u8 list) option" where
  "ReadAllAttrs b [] = Some (0, None, b)"
| "ReadAllAttrs b (a # as) = do {
     (n, err, c) \<leftarrow> attr_Read a b;
     case err of Some e \<Rightarrow> Some (0, Some e, c)
     | None \<Rightarrow> if as = [] then Some (n, None, c)
         else if length c < n then None
         else do {
           (m, err, d) \<leftarrow> ReadAllAttrs (drop n c) as;
           Some (n + m, err, take n c @ d) } }"

subsection \<open>Parsing\<close>

lemma nl_Align_4: "nl_Align 4 i = (i + 3) div 4 * 4"
proof -
  have "(x AND NOT (mask 2)) = push_bit 2 (drop_bit 2 x)" for x :: int
    by (rule bit_eqI) (auto simp: bit_and_int_iff bit_not_int_iff bit_mask_iff bit_push_bit_iff_int bit_drop_bit_eq simp del: One_nat_def Suc_eq_plus1 add_2_eq_Suc add_2_eq_Suc')
  then have "(int i + 3) AND NOT 3 = (int i + 3) div 4 * 4"
    by (simp add: mask_eq_exp_minus_1 push_bit_eq_mult drop_bit_eq_div)
  then have "(int i + 3) AND NOT 3 = int ((i + 3) div 4 * 4)" by (simp add: zdiv_int)
  then show ?thesis by (simp add: nl_Align_def add.commute nat_mult_distrib)
qed

lemma nl_Align_ge: "i \<le> nl_Align 4 i" "nl_Align 4 i < i + 4" "4 dvd nl_Align 4 i"
  unfolding nl_Align_4 by presburger+

text \<open>\<open>ForEachAttr\<close>: the types and values it calls its function with.\<close>

function forEachAttr :: "u8 list \<Rightarrow> nat \<Rightarrow> (u16 \<times> u8 list) list" where
  "forEachAttr b i = (
     if i + SizeofRtAttr \<le> length b
     then let l = unat (get_u16 b i); n = i + l in
       if l < SizeofRtAttr \<or> length b < n then []
       else (get_u16 b (i + 2), drop (i + SizeofRtAttr) (take n b)) # forEachAttr b (nl_Align NLATTR n)
     else [])"
  by pat_completeness auto
termination
proof (relation "measure (\<lambda>(b, i). length b + 4 - i)")
  fix b :: "u8 list" and i l n :: nat
  assume *: "i + SizeofRtAttr \<le> length b" "l = unat (get_u16 b i)" "n = i + l" "\<not> (l < SizeofRtAttr \<or> length b < n)"
  then have "i + 4 \<le> n" by (simp add: SizeofRtAttr_def)
  then have "i < nl_Align 4 n" using nl_Align_ge(1) [of n] by linarith
  then show "((b, nl_Align NLATTR n), b, i) \<in> measure (\<lambda>(b, i). length b + 4 - i)"
    using *(1) by (simp add: NLATTR_def SizeofRtAttr_def)
qed simp

declare forEachAttr.simps [simp del]

definition ForEachAttr :: "u8 list \<Rightarrow> (u16 \<times> u8 list) list" where
  "ForEachAttr b = forEachAttr b 0"

definition IndexAttrByType :: "u8 list list \<Rightarrow> u8 list \<Rightarrow> u8 list list" where
  "IndexAttrByType a b = (if b = [] then map (\<lambda>_. []) a
     else fold (\<lambda>(t, v) a. if t < of_nat (length a) then a[unat t := v] else a) (ForEachAttr b) a)"

definition nl_Uint8 :: "u8 list \<Rightarrow> u8" where
  "nl_Uint8 b = (if 1 \<le> length b then b ! 0 else 0)"

definition nl_Uint16 :: "u8 list \<Rightarrow> u16" where
  "nl_Uint16 b = (if 2 \<le> length b then get_u16 b 0 else 0)"

definition nl_Uint32 :: "u8 list \<Rightarrow> u32" where
  "nl_Uint32 b = (if 4 \<le> length b then get_u32 b 0 else 0)"

definition nl_Uint64 :: "u8 list \<Rightarrow> u64" where
  "nl_Uint64 b = (if 8 \<le> length b then load (take 8 b) else 0)"

definition Kstring :: "u8 list \<Rightarrow> u8 list" where
  "Kstring b = (if 1 \<le> length b then butlast b else [])"

subsection \<open>Messages\<close>

record Hdr =
  hLen :: u32
  hType :: u16
  hFlags :: u16
  hSeq :: u32
  hPid :: u32

definition hdr_bytes :: "Hdr \<Rightarrow> u8 list" where
  "hdr_bytes h = le_bytes 4 (hLen h) @ le_bytes 2 (hType h) @ le_bytes 2 (hFlags h) @ le_bytes 4 (hSeq h) @ le_bytes 4 (hPid h)"

text \<open>\<open>HdrPtr\<close>, dereferenced: \<open>None\<close> for the nil pointer.\<close>

definition HdrPtr :: "u8 list \<Rightarrow> Hdr option" where
  "HdrPtr b = (if length b < SizeofHdr then None
     else Some \<lparr>hLen = get_u32 b 0, hType = get_u16 b 4, hFlags = get_u16 b 6, hSeq = get_u32 b 8, hPid = get_u32 b 12\<rparr>)"

definition hdr_Read :: "Hdr \<Rightarrow> u8 list \<Rightarrow> (nat \<times> nl_error option \<times> u8 list) option" where
  "hdr_Read h b = (if length b < SizeofHdr then None else Some (SizeofHdr, None, hdr_bytes h @ drop SizeofHdr b))"

text \<open>\<open>Pop\<close>: the message, the remainder and the error.\<close>

definition Pop :: "u8 list \<Rightarrow> u8 list \<times> u8 list \<times> nl_error option" where
  "Pop b = (case HdrPtr b of None \<Rightarrow> ([], [], None)
     | Some h \<Rightarrow> let n = unat (hLen h) in
         if length b < n then ([], [], Some EOVERFLOW)
         else let m = nl_Align NLMSG n in (take n b, if length b < m then [] else drop m b, None))"

text \<open>\<open>NewMessage\<close>; the body is a reader.\<close>

definition NewMessage :: "Hdr \<Rightarrow> (u8 list \<Rightarrow> (nat \<times> nl_error option \<times> u8 list) option) \<Rightarrow> attr list \<Rightarrow> (nl_error + u8 list) option" where
  "NewMessage h body attrs = do {
     let b = replicate PAGE 0;
     (nmsg, err, c) \<leftarrow> body (drop SizeofHdr b);
     let b = take SizeofHdr b @ c;
     case err of Some e \<Rightarrow> Some (Inl e)
     | None \<Rightarrow> do {
         let n = nl_Align NLMSG (SizeofHdr + nmsg);
         panic_unless (n \<le> length b);
         (na, err, c) \<leftarrow> ReadAllAttrs (drop n b) attrs;
         let b = take n b @ c;
         case err of Some e \<Rightarrow> Some (Inl e)
         | None \<Rightarrow> do {
             let n = n + na;
             (x, err, b) \<leftarrow> hdr_Read (h\<lparr>hLen := of_nat n\<rparr>) b;
             panic_unless (n \<le> length b);
             Some (Inr (take n b)) } } }"

subsection \<open>Reading back what was written\<close>

lemma nl_Align_self: "4 dvd i \<Longrightarrow> nl_Align 4 i = i"
  by (auto simp: nl_Align_4 elim!: dvdE)

lemma nl_Align_shift: "4 dvd k \<Longrightarrow> nl_Align 4 (k + i) = k + nl_Align 4 i"
  unfolding nl_Align_4 by (auto simp: add.assoc elim!: dvdE)

lemma forEachAttr_shift: "4 dvd k \<Longrightarrow> k \<le> length b \<Longrightarrow> forEachAttr b (k + i) = forEachAttr (drop k b) i"
proof (induction "drop k b" i rule: forEachAttr.induct)
  case (1 i)
  let ?l = "unat (get_u16 b (k + i))"
  have IH: "k + i + SizeofRtAttr \<le> length b \<Longrightarrow> \<not> (?l < SizeofRtAttr \<or> length b < k + i + ?l) \<Longrightarrow>
      forEachAttr b (nl_Align NLATTR (k + i + ?l)) = forEachAttr (drop k b) (nl_Align NLATTR (i + ?l))"
    using "1.hyps" [OF _ refl refl] "1.prems" by (auto simp: get_u16_drop NLATTR_def nl_Align_shift add.assoc less_diff_conv2)
  have c: "i + SizeofRtAttr \<le> length (drop k b) \<longleftrightarrow> k + i + SizeofRtAttr \<le> length b"
    "length (drop k b) < i + ?l \<longleftrightarrow> length b < k + i + ?l" using "1.prems"(2) by auto
  have v: "get_u16 (drop k b) (i + 2) = get_u16 b (k + i + 2)" "get_u16 (drop k b) i = get_u16 b (k + i)"
    "drop (i + SizeofRtAttr) (take (i + ?l) (drop k b)) = drop (k + i + SizeofRtAttr) (take (k + i + ?l) b)"
    by (simp_all add: get_u16_drop take_drop add.assoc add.commute add.left_commute)
  show ?case unfolding forEachAttr.simps [of b "k + i"] forEachAttr.simps [of "drop k b" i] Let_def c v
    using IH by (simp only: c v if_False if_True simp_thms split: if_splits) auto
qed

lemma ForEachAttr_Nil [simp]: "ForEachAttr [] = []"
  by (simp add: ForEachAttr_def forEachAttr.simps SizeofRtAttr_def)

lemma ForEachAttr_attr:
  assumes "SizeofRtAttr + length v < 65536" "length pad = nl_Align NLATTR (SizeofRtAttr + length v) - (SizeofRtAttr + length v)"
  shows "ForEachAttr (le_bytes 2 (of_nat (SizeofRtAttr + length v) :: u16) @ le_bytes 2 t @ v @ pad @ rest)
    = (t, v) # ForEachAttr rest"
proof -
  let ?b = "le_bytes 2 (of_nat (SizeofRtAttr + length v) :: u16) @ le_bytes 2 t @ v @ pad @ rest"
  have l: "unat (get_u16 ?b 0) = 4 + length v" using assms(1) by (simp add: unat_of_nat SizeofRtAttr_def del: of_nat_add)
  have t: "get_u16 ?b (Suc (Suc 0)) = t"
    using get_u16_drop [of 2 ?b 0, symmetric] get_u16_le [of t "v @ pad @ rest"] by (simp add: numeral_2_eq_2)
  let ?k = "nl_Align 4 (4 + length v)"
  have k: "?k = 4 + length v + length pad" using assms(2) nl_Align_ge(1) [of "4 + length v"] by (simp add: SizeofRtAttr_def NLATTR_def)
  have "forEachAttr ?b ?k = ForEachAttr rest"
    using forEachAttr_shift [of ?k ?b 0] k nl_Align_ge(3) [of "4 + length v"] by (simp add: ForEachAttr_def)
  then show ?thesis using l t k
    unfolding ForEachAttr_def by (subst forEachAttr.simps) (simp add: SizeofRtAttr_def NLATTR_def Let_def del: get_u16_le)
qed

text \<open>What a parsed attribute must be for the attribute written: its type, and the bytes of its value or the
  attributes nested in it.\<close>

fun attr_ok :: "attr \<Rightarrow> u16 \<times> u8 list \<Rightarrow> bool"
  and val_ok :: "val \<Rightarrow> u8 list \<Rightarrow> bool"
  and attrs_ok :: "attr list \<Rightarrow> (u16 \<times> u8 list) list \<Rightarrow> bool" where
  "attr_ok (Attr t v) x = (fst x = t \<and> val_ok v (snd x))"
| "val_ok v b = (case v of Attrs as \<Rightarrow> attrs_ok as (ForEachAttr b) | _ \<Rightarrow> b = val_bytes v)"
| "attrs_ok [] l = (l = [])"
| "attrs_ok (a # as) l = (case l of [] \<Rightarrow> False | x # l \<Rightarrow> attr_ok a x \<and> attrs_ok as l)"

lemma plain_Read_ok: "plain_Read e b = (n, None, c) \<Longrightarrow> n \<le> length b \<and> length c = length b \<and> take n c = e"
  by (auto simp: plain_Read_def split: if_splits)

declare val_Read.simps [simp del] val_ok.simps [simp del]

lemma attr_Read_ok:
  assumes v: "\<And>n c. val_Read v (drop 4 b) = Some (n, None, c) \<Longrightarrow> n \<le> length (drop 4 b) \<and> length c = length (drop 4 b) \<and> val_ok v (take n c)"
    and b: "4 dvd length b" "length b < 65536" and r: "attr_Read (Attr t v) b = Some (n, None, c)"
  shows "4 dvd n \<and> n \<le> length b \<and> length c = length b \<and>
     (\<exists>x. attr_ok (Attr t v) x \<and> (\<forall>rest. ForEachAttr (take n c @ rest) = x # ForEachAttr rest))"
proof -
  obtain m d where m: "val_Read v (drop 4 b) = Some (m, None, d)" "n = nl_Align 4 (4 + m)" "4 \<le> length b"
    "c = le_bytes 2 (of_nat (4 + m) :: u16) @ le_bytes 2 t @ d"
    using r by (auto simp: SizeofRtAttr_def NLATTR_def bind_eq_Some_conv split: if_splits option.splits)
  have d: "m \<le> length b - 4" "length d = length b - 4" "val_ok v (take m d)" using v [OF m(1)] by auto
  have n: "4 + m \<le> n" "n < 4 + m + 4" "4 dvd n" using nl_Align_ge [of "4 + m"] m(2) by auto
  then have "n \<le> length b" using d(1) b(1) m(3) by (auto elim!: dvdE)
  moreover have "take n c = le_bytes 2 (of_nat (4 + m) :: u16) @ le_bytes 2 t @ take m d @ take (n - (4 + m)) (drop m d)"
    using n m(4) by (simp add: take_add [symmetric])
  moreover have "ForEachAttr (le_bytes 2 (of_nat (4 + m) :: u16) @ le_bytes 2 t @ take m d @ take (n - (4 + m)) (drop m d) @ rest)
      = (t, take m d) # ForEachAttr rest" for rest
    using ForEachAttr_attr [of "take m d" "take (n - (4 + m)) (drop m d)" t rest] d n m(2,3) b \<open>n \<le> length b\<close>
    by (simp add: SizeofRtAttr_def NLATTR_def min_absorb2)
  ultimately show ?thesis using d(2,3) m(3,4) n(3) by (auto intro!: exI [of _ "(t, take m d)"])
qed

lemma Read_ok:
  "attr_Read a b = Some r1 \<Longrightarrow> 4 dvd length b \<Longrightarrow> length b < 65536 \<Longrightarrow> r1 = (n, None, c) \<Longrightarrow>
     4 dvd n \<and> n \<le> length b \<and> length c = length b \<and>
     (\<exists>x. attr_ok a x \<and> (\<forall>rest. ForEachAttr (take n c @ rest) = x # ForEachAttr rest))"
  "val_Read v b = Some r1 \<Longrightarrow> 4 dvd length b \<Longrightarrow> length b < 65536 \<Longrightarrow> r1 = (n, None, c) \<Longrightarrow>
     n \<le> length b \<and> length c = length b \<and> val_ok v (take n c)"
  "attrs_Read as b = Some r1 \<Longrightarrow> 4 dvd length b \<Longrightarrow> length b < 65536 \<Longrightarrow> r1 = (n, None, c) \<Longrightarrow>
     4 dvd n \<and> n \<le> length b \<and> length c = length b \<and> attrs_ok as (ForEachAttr (take n c))"
proof (induction a b and v b and as b arbitrary: r1 n c and r1 n c and r1 n c rule: attr_Read_val_Read_attrs_Read.induct)
  case (1 t v b)
  show ?case
  proof (rule attr_Read_ok)
    show "attr_Read (Attr t v) b = Some (n, None, c)" using "1.prems" by simp
    then have "4 \<le> length b" by (auto simp: SizeofRtAttr_def split: if_splits)
    then show "m \<le> length (drop 4 b) \<and> length d = length (drop 4 b) \<and> val_ok v (take m d)"
      if "val_Read v (drop 4 b) = Some (m, None, d)" for m d
      using "1.IH" [of "(m, None, d)" m d] that "1.prems"(2,3) by (simp add: SizeofRtAttr_def dvd_diff_nat)
  qed (use "1.prems" in simp_all)
next
  case (2 v b)
  show ?case
  proof (cases "\<exists>as. v = Attrs as")
    case True
    then obtain as where v: "v = Attrs as" by blast
    show ?thesis using "2.IH" [OF v, of r1 n c] "2.prems" by (simp add: v val_Read.simps val_ok.simps)
  next
    case False
    then have "plain_Read (val_bytes v) b = (n, None, c)" "val_ok v (take n c) \<longleftrightarrow> take n c = val_bytes v"
      using "2.prems"(1,4) by (auto simp: val_Read.simps val_ok.simps split: val.splits)
    then show ?thesis using plain_Read_ok by simp
  qed
next
  case (3 b)
  then show ?case by auto
next
  case (4 a as b)
  obtain m d where m: "attr_Read a b = Some (m, None, d)"
    using "4.prems" by (auto simp: bind_eq_Some_conv split: option.splits prod.splits)
  note A = "4.IH"(1) [OF m "4.prems"(2,3) refl]
  then obtain x where x: "attr_ok a x" "\<And>rest. ForEachAttr (take m d @ rest) = x # ForEachAttr rest" by auto
  show ?case
  proof (cases "as = []")
    case True
    then have "n = m" "c = d" using "4.prems" m by auto
    then show ?thesis using A x(1) x(2) [of "[]"] True by simp
  next
    case False
    then obtain k e where k: "attrs_Read as (drop m d) = Some (k, None, e)" "n = m + k" "c = take m d @ e"
      using "4.prems" m A by (auto simp: bind_eq_Some_conv split: if_splits option.splits)
    have B: "4 dvd k \<and> k \<le> length (drop m d) \<and> length e = length (drop m d) \<and> attrs_ok as (ForEachAttr (take k e))"
      by (rule "4.IH"(2) [OF m refl refl refl False _ k(1)]) (use A "4.prems"(2,3) in \<open>auto simp: dvd_diff_nat\<close>)
    then show ?thesis using A x k by (auto simp: le_diff_conv2)
  qed
qed

lemma ReadAllAttrs_eq: "ReadAllAttrs b as = Some (n, None, c) \<Longrightarrow> attrs_Read as b = Some (n, None, c)"
proof (induction b as arbitrary: n c rule: ReadAllAttrs.induct)
  case (2 b a as)
  obtain m d where m: "attr_Read a b = Some (m, None, d)"
    using "2.prems" by (auto simp: bind_eq_Some_conv split: option.splits prod.splits)
  show ?case
  proof (cases "as = []")
    case True
    then show ?thesis using "2.prems" m by simp
  next
    case False
    then obtain k e where k: "ReadAllAttrs (drop m d) as = Some (k, None, e)" "n = m + k" "c = take m d @ e" "\<not> length d < m"
      using "2.prems" m by (auto simp: bind_eq_Some_conv split: if_splits option.splits)
    then show ?thesis using "2.IH" [OF m refl refl refl False k(4) k(1)] m False by simp
  qed
qed simp

text \<open>Attributes written to a buffer of aligned length below 65536 bytes parse back to their types and values, nested
  ones recursively.\<close>

theorem ReadAllAttrs_parses:
  assumes "4 dvd length b" "length b < 65536" "ReadAllAttrs b as = Some (n, None, c)"
  shows "n \<le> length c \<and> attrs_ok as (ForEachAttr (take n c))"
  using Read_ok(3) [OF ReadAllAttrs_eq [OF assms(3)] assms(1,2) refl] by simp

subsection \<open>Messages popped from a buffer\<close>

lemma length_hdr_bytes [simp]: "length (hdr_bytes h) = SizeofHdr"
  by (simp add: hdr_bytes_def SizeofHdr_def)

lemma HdrPtr_hdr_bytes [simp]: "HdrPtr (hdr_bytes h @ r) = Some h"
proof -
  have "hdr_bytes h @ r = le_bytes 4 (hLen h) @ le_bytes 2 (hType h) @ le_bytes 2 (hFlags h) @ le_bytes 4 (hSeq h) @ le_bytes 4 (hPid h) @ r"
    by (simp add: hdr_bytes_def)
  then have "get_u32 (hdr_bytes h @ r) 0 = hLen h" "get_u16 (hdr_bytes h @ r) 4 = hType h"
    "get_u16 (hdr_bytes h @ r) 6 = hFlags h" "get_u32 (hdr_bytes h @ r) 8 = hSeq h" "get_u32 (hdr_bytes h @ r) 12 = hPid h"
    using get_at(1) [of "le_bytes 4 (hLen h)" 4] get_at(1) [of "le_bytes 4 (hLen h) @ le_bytes 2 (hType h)" 6]
      get_at(2) [of "le_bytes 4 (hLen h) @ le_bytes 2 (hType h) @ le_bytes 2 (hFlags h)" 8]
      get_at(2) [of "le_bytes 4 (hLen h) @ le_bytes 2 (hType h) @ le_bytes 2 (hFlags h) @ le_bytes 4 (hSeq h)" 12]
    by simp_all
  then show ?thesis by (simp add: HdrPtr_def SizeofHdr_def)
qed

lemma HdrPtr_append: "HdrPtr m = Some h \<Longrightarrow> HdrPtr (m @ r) = Some h"
  by (auto simp: HdrPtr_def SizeofHdr_def get_u16_def get_u32_def split: if_splits)

lemma Pop_message:
  assumes "HdrPtr msg = Some h" "unat (hLen h) = length msg" "4 dvd length msg"
  shows "Pop (msg @ rem) = (msg, rem, None)"
  using HdrPtr_append [OF assms(1), of rem] assms(2,3) by (simp add: Pop_def Let_def NLMSG_def nl_Align_self)

text \<open>What \<open>io.Reader\<close> asks of the body: it reports no more bytes than the buffer has, and leaves its length.\<close>

definition reader :: "(u8 list \<Rightarrow> (nat \<times> nl_error option \<times> u8 list) option) \<Rightarrow> bool" where
  "reader body \<longleftrightarrow> (\<forall>b n e c. body b = Some (n, e, c) \<longrightarrow> n \<le> length b \<and> length c = length b)"

lemma NewMessage_facts:
  assumes "reader body" "NewMessage h body attrs = Some (Inr msg)"
  shows "Pop (msg @ rem) = (msg, rem, None) \<and> HdrPtr msg = Some (h\<lparr>hLen := of_nat (length msg)\<rparr>) \<and>
     (\<exists>n c. body (replicate (PAGE - SizeofHdr) 0) = Some (n, None, c) \<and> take n (drop SizeofHdr msg) = take n c \<and>
       attrs_ok attrs (ForEachAttr (drop (nl_Align NLMSG (SizeofHdr + n)) msg)))"
proof -
  obtain n c where B: "body (replicate (PAGE - SizeofHdr) 0) = Some (n, None, c)"
    using assms(2) by (auto simp: NewMessage_def bind_eq_Some_conv Let_def split: option.splits)
  let ?n = "nl_Align NLMSG (SizeofHdr + n)" and ?b = "replicate SizeofHdr 0 @ c"
  have c: "n \<le> PAGE - SizeofHdr" "length c = PAGE - SizeofHdr" using assms(1) B unfolding reader_def by fastforce+
  have P: "length ?b = 4096" "SizeofHdr = 16" "PAGE = 4096" using c by (simp_all add: PAGE_def SizeofHdr_def)
  have n: "16 + n \<le> ?n" "4 dvd ?n" using nl_Align_ge [of "16 + n"] by (simp_all add: P NLMSG_def)
  obtain na d where A: "ReadAllAttrs (drop ?n ?b) attrs = Some (na, None, d)" "?n \<le> length ?b"
    and msg: "msg = take (?n + na) (hdr_bytes (h\<lparr>hLen := of_nat (?n + na)\<rparr>) @ drop SizeofHdr (take ?n ?b @ d))"
    using assms(2) B
    by (auto simp: NewMessage_def bind_eq_Some_conv panic_simps hdr_Read_def PAGE_def SizeofHdr_def min_def Let_def split: option.splits if_splits)
  have L: "length (drop ?n ?b) = 4096 - ?n" using P(1) by (simp only: length_drop)
  have "4 dvd length (drop ?n ?b)" "length (drop ?n ?b) < 65536" unfolding L using n(2) by (simp_all add: dvd_diff_nat)
  note Read_ok(3) [OF ReadAllAttrs_eq [OF A(1)] this refl, unfolded L]
  then have R: "4 dvd na" "na \<le> 4096 - ?n" "length d = 4096 - ?n" "attrs_ok attrs (ForEachAttr (take na d))" by auto
  let ?h = "h\<lparr>hLen := of_nat (?n + na)\<rparr>"
  have m: "msg = hdr_bytes ?h @ take (?n - 16) c @ take na d"
    using msg n P A(2) by (simp add: take_drop)
  have "?n \<le> 4096" using A(2) P(1) by simp
  then have l: "length msg = ?n + na" using m n R(2,3) c P(2,3) by simp
  have "?n + na < 2 ^ 32" using R(2) \<open>?n \<le> 4096\<close> by simp
  then have u: "unat (hLen ?h) = length msg" using l by (simp add: unat_of_nat take_bit_nat_eq_self del: of_nat_add)
  have "Pop (msg @ rem) = (msg, rem, None)"
    using Pop_message [OF _ u] l n R(1) m HdrPtr_hdr_bytes [of ?h "take (?n - 16) c @ take na d"] by (simp only: dvd_add)
  moreover have "HdrPtr msg = Some (h\<lparr>hLen := of_nat (length msg)\<rparr>)"
    using m l by simp
  moreover have "drop ?n msg = take na d" using m n P c A(2) by (simp add: min_def)
  moreover have "take n (drop SizeofHdr msg) = take n c" using m n c P(2,3) by (simp add: min_def)
  ultimately show ?thesis using B R(4) by auto
qed

text \<open>C24: A message built from a header, a body and attributes is popped whole from in front of any remainder, with its
  header completed by its length, its body bytes, and its attributes.\<close>

theorem NewMessage_Pop:
  assumes "reader body" "NewMessage h body attrs = Some (Inr msg)"
  shows "Pop (msg @ rem) = (msg, rem, None) \<and> HdrPtr msg = Some (h\<lparr>hLen := of_nat (length msg)\<rparr>) \<and>
     (\<exists>n c. body (replicate (PAGE - SizeofHdr) 0) = Some (n, None, c) \<and> take n (drop SizeofHdr msg) = take n c \<and>
       attrs_ok attrs (ForEachAttr (drop (nl_Align NLMSG (SizeofHdr + n)) msg)))"
  using assms by (rule NewMessage_facts)


text \<open>A message of two attributes, the second nesting a third.\<close>

lemma be_bytes_2: "be_bytes 2 w = [ucast (drop_bit 8 w), ucast w]"
  by (simp add: be_bytes_def numeral_2_eq_2)

lemma replicate_2: "replicate 2 x = [x, x]"
  by (simp add: numeral_2_eq_2)

definition two_attrs :: "attr list" where
  "two_attrs = [Attr 3 (KstringAttr [101, 116, 104]), Attr 18 (Attrs [Attr 1 (Be16Attr 0x0102)])]"

definition no_body :: "u8 list \<Rightarrow> (nat \<times> nl_error option \<times> u8 list) option" where
  "no_body b = Some (0, None, b)"

lemmas nl_eval = two_attrs_def no_body_def PAGE_def SizeofHdr_def SizeofRtAttr_def NLATTR_def NLMSG_def nl_Align_4 val_Read.simps
  plain_Read_def le_bytes_2 le_bytes_4 be_bytes_2

lemma two_attrs_bytes: "ReadAllAttrs (replicate 24 0) two_attrs
   = Some (20, None, [8, 0, 3, 0, 101, 116, 104, 0, 12, 0, 18, 0, 6, 0, 1, 0, 1, 2] @ replicate 6 0)"
  by (simp add: nl_eval)


theorem ReadAllAttrs_parses_witness:
  "attrs_ok two_attrs (ForEachAttr (take 20 ([8, 0, 3, 0, 101, 116, 104, 0, 12, 0, 18, 0, 6, 0, 1, 0, 1, 2] @ replicate 6 0)))"
  using ReadAllAttrs_parses [OF _ _ two_attrs_bytes] by simp

theorem NewMessage_Pop_witness:
  "Pop (hdr_bytes \<lparr>hLen = 36, hType = 16, hFlags = 1, hSeq = 7, hPid = 0\<rparr> @ [8, 0, 3, 0, 101, 116, 104, 0, 12, 0, 18, 0, 6, 0, 1, 0, 1, 2, 0, 0] @ [1, 2])
   = (hdr_bytes \<lparr>hLen = 36, hType = 16, hFlags = 1, hSeq = 7, hPid = 0\<rparr> @ [8, 0, 3, 0, 101, 116, 104, 0, 12, 0, 18, 0, 6, 0, 1, 0, 1, 2, 0, 0], [1, 2], None)"
proof -
  let ?h = "\<lparr>hLen = 0, hType = 16, hFlags = 1, hSeq = 7, hPid = 0\<rparr>"
  have "NewMessage ?h no_body two_attrs = Some (Inr (hdr_bytes (?h\<lparr>hLen := 36\<rparr>) @ [8, 0, 3, 0, 101, 116, 104, 0, 12, 0, 18, 0, 6, 0, 1, 0, 1, 2, 0, 0]))"
    by (simp add: NewMessage_def nl_eval hdr_Read_def replicate_2)
  moreover have "reader no_body" by (simp add: reader_def no_body_def)
  ultimately show ?thesis
    using NewMessage_Pop [of no_body ?h two_attrs _ "[1, 2]", THEN conjunct1] by fastforce
qed

end
