(* ===== verification/Rtnl.thy ===== *)
theory Rtnl
  imports Netlink
begin

section \<open>Receiving netlink messages, and the route netlink values: internal/nl, internal/nl/rtnl\<close>

text \<open>
  The receiver of packed messages with its request loop, the loop of \<open>ip monitor\<close> over a recorded file, the interface
  maps made from a dump of links, big-endian integers and the next hops of a multipath route.
\<close>

subsection \<open>The receiver\<close>

datatype rx_error = RxPop nl_error | SockErr | ENOMSG | Epid u32 | Eseq u32 | Elen u32 | Errno u64

text \<open>The channel is the list of the buffers the socket still receives before it closes it.\<close>

record SockReceiver =
  rxb :: "u8 list"
  RxCh :: "u8 list list"
  dontwait :: bool
  sockErr :: "rx_error option"
  sockPid :: u32

definition NLMSG_ERROR :: u16 where "NLMSG_ERROR = 2"
definition NLMSG_DONE :: u16 where "NLMSG_DONE = 3"
definition SizeofNlmsgerr :: nat where "SizeofNlmsgerr = 4 + SizeofHdr"

fun recv_loop :: "bool \<Rightarrow> rx_error option \<Rightarrow> u8 list \<Rightarrow> u8 list list \<Rightarrow> (u8 list \<times> rx_error option) \<times> u8 list \<times> u8 list list" where
  "recv_loop w e b [] = (if length b < SizeofHdr then if w then (([], None), b, []) else (([], e), [], [])
     else case Pop b of (msg, rem, err) \<Rightarrow> ((msg, map_option RxPop err), rem, []))"
| "recv_loop w e b (c # ch) = (if length b < SizeofHdr then recv_loop w e c ch
     else case Pop b of (msg, rem, err) \<Rightarrow> ((msg, map_option RxPop err), rem, c # ch))"

definition Recv :: "SockReceiver \<Rightarrow> (u8 list \<times> rx_error option) \<times> SockReceiver" where
  "Recv sr = (case recv_loop (dontwait sr) (sockErr sr) (rxb sr) (RxCh sr) of
     (r, b, ch) \<Rightarrow> (r, sr\<lparr>rxb := b, RxCh := ch\<rparr>))"

definition rx_bytes :: "SockReceiver \<Rightarrow> nat" where
  "rx_bytes sr = length (rxb sr) + sum_list (map length (RxCh sr))"

lemma Pop_length: "Pop b = (msg, rem, err) \<Longrightarrow> length msg + length rem \<le> length b"
  using nl_Align_ge(1) [of "unat (hLen (the (HdrPtr b)))"]
  by (auto simp: Pop_def Let_def NLMSG_def split: option.splits if_splits)

lemma recv_loop_bytes: "recv_loop w e b ch = ((msg, err), b', ch') \<Longrightarrow>
   length msg + length b' + sum_list (map length ch') \<le> length b + sum_list (map length ch)"
  by (induction w e b ch rule: recv_loop.induct) (auto dest!: Pop_length split: if_splits prod.splits)

lemma Recv_bytes: "Recv sr = ((msg, err), sr') \<Longrightarrow> length msg + rx_bytes sr' \<le> rx_bytes sr"
  using recv_loop_bytes [of "dontwait sr" "sockErr sr" "rxb sr" "RxCh sr" msg err]
  by (auto simp: Recv_def rx_bytes_def split: prod.splits)

text \<open>The loop of \<open>UntilDone\<close>: its result, the messages \<open>do\<close> is called with, and the receiver afterwards.\<close>

function until_done :: "u32 \<Rightarrow> SockReceiver \<Rightarrow> rx_error option \<times> u8 list list \<times> SockReceiver" where
  "until_done seq sr = (case Recv sr of ((b, err), sr') \<Rightarrow>
     (case err of Some e \<Rightarrow> (Some e, [], sr')
     | None \<Rightarrow> (case HdrPtr b of None \<Rightarrow> (Some ENOMSG, [], sr')
       | Some h \<Rightarrow>
           if unat (hLen h) \<noteq> length b then (Some (Elen (hLen h)), [], sr')
           else if sockPid sr' \<noteq> hPid h then (Some (Epid (hPid h)), [], sr')
           else if seq \<noteq> hSeq h then (Some (Eseq (hSeq h)), [], sr')
           else if hType h = NLMSG_DONE then (None, [], sr')
           else if hType h = NLMSG_ERROR then
             if length b < SizeofHdr + SizeofNlmsgerr \<or> get_u32 b SizeofHdr = 0 then (None, [], sr')
             else (Some (Errno (scast (- get_u32 b SizeofHdr))), [], sr')
           else case until_done seq sr' of (r, ms, sr'') \<Rightarrow> (r, b # ms, sr''))))"
  by pat_completeness auto
termination
proof (relation "measure (\<lambda>(s, sr). rx_bytes sr)")
  fix seq :: u32 and sr sr' :: SockReceiver and x b err h
  assume "(x, sr') = Recv sr" "(b, err) = x" "HdrPtr b = Some h"
  then have *: "Recv sr = ((b, err), sr')" "length b \<noteq> 0" by (auto simp: HdrPtr_def SizeofHdr_def split: if_splits)
  then show "((seq, sr'), seq, sr) \<in> measure (\<lambda>(s, sr). rx_bytes sr)" using Recv_bytes [OF *(1)] *(2) by (auto simp: neq_Nil_conv)
qed simp

declare until_done.simps [simp del]

definition Seq :: "u32 \<Rightarrow> u32" where
  "Seq seq = seq + 1"

text \<open>\<open>UntilDone\<close>: \<open>None\<close> for a request without a header. Sending is an argument.\<close>

definition UntilDone :: "(u8 list \<Rightarrow> rx_error option) \<Rightarrow> u32 \<Rightarrow> u8 list \<Rightarrow> SockReceiver \<Rightarrow>
    (rx_error option \<times> u8 list list \<times> SockReceiver) option" where
  "UntilDone send s req sr = do {
     h \<leftarrow> HdrPtr req;
     let req = hdr_bytes (h\<lparr>hSeq := Seq s\<rparr>) @ drop SizeofHdr req;
     Some (case send req of Some e \<Rightarrow> (Some e, [], sr) | None \<Rightarrow> until_done (Seq s) sr) }"

subsection \<open>The loop of ip monitor over a file\<close>

partial_function (option) monitor_file :: "u8 list \<Rightarrow> (u8 list list \<times> nl_error option) option" where
  "monitor_file b = (if SizeofHdr < length b then
     (case Pop b of (msg, rem, err) \<Rightarrow>
        (case err of Some e \<Rightarrow> Some ([msg], Some e)
         | None \<Rightarrow> do { (ms, e) \<leftarrow> monitor_file rem; Some (msg # ms, e) }))
     else Some ([], None))"

subsection \<open>Interface maps\<close>

definition SizeofIfInfoMsg :: nat where "SizeofIfInfoMsg = 16"
definition N_IFLA :: nat where "N_IFLA = 45"
definition IFLA_IFNAME :: nat where "IFLA_IFNAME = 3"
definition IFLA_MASTER :: nat where "IFLA_MASTER = 10"
definition IFLA_GROUP :: nat where "IFLA_GROUP = 27"
definition RTM_NEWLINK :: u16 where "RTM_NEWLINK = 16"

definition ifla_Write :: "u8 list list \<Rightarrow> u8 list \<Rightarrow> nat \<times> u8 list list" where
  "ifla_Write ifla b = (let i = nl_Align NLMSG (SizeofHdr + SizeofIfInfoMsg) in
     if length b \<le> i then (0, IndexAttrByType ifla []) else (length b - i, IndexAttrByType ifla (drop i b)))"

record IfInfoMsg =
  iFamily :: u8
  iType :: u16
  iIndex :: u32
  iFlags :: u32
  iChange :: u32

definition IfInfoMsg_bytes :: "IfInfoMsg \<Rightarrow> u8 list" where
  "IfInfoMsg_bytes m = [iFamily m, 0] @ le_bytes 2 (iType m) @ le_bytes 4 (iIndex m) @ le_bytes 4 (iFlags m) @ le_bytes 4 (iChange m)"

definition IfInfoMsg_Read :: "IfInfoMsg \<Rightarrow> u8 list \<Rightarrow> (nat \<times> nl_error option \<times> u8 list) option" where
  "IfInfoMsg_Read m b = (if length b < SizeofIfInfoMsg then None
     else Some (SizeofIfInfoMsg, None, IfInfoMsg_bytes m @ drop SizeofIfInfoMsg b))"

definition IfInfoMsgPtr :: "u8 list \<Rightarrow> IfInfoMsg option" where
  "IfInfoMsgPtr b = (if length b < SizeofHdr + SizeofIfInfoMsg then None
     else let i = SizeofHdr in Some \<lparr>iFamily = b ! i, iType = get_u16 b (i + 2), iIndex = get_u32 b (i + 4),
       iFlags = get_u32 b (i + 8), iChange = get_u32 b (i + 12)\<rparr>)"

record IfMaps =
  NameByIndex :: "u32 \<rightharpoonup> u8 list"
  IndexByName :: "u8 list \<rightharpoonup> u32"
  IndicesByGid :: "u32 \<Rightarrow> u32 list"
  Master :: "u32 \<rightharpoonup> u32"

definition no_ifs :: IfMaps where
  "no_ifs = \<lparr>NameByIndex = Map.empty, IndexByName = Map.empty, IndicesByGid = (\<lambda>_. []), Master = Map.empty\<rparr>"

definition add_link :: "u8 list \<Rightarrow> IfMaps \<Rightarrow> IfMaps option" where
  "add_link b m = do {
     h \<leftarrow> HdrPtr b;
     if hType h \<noteq> RTM_NEWLINK then Some m
     else do {
       let ifla = snd (ifla_Write (replicate N_IFLA []) b);
       msg \<leftarrow> IfInfoMsgPtr b;
       let i = iIndex msg;
       let name = Kstring (ifla ! IFLA_IFNAME);
       let gid = nl_Uint32 (ifla ! IFLA_GROUP);
       let m = m\<lparr>NameByIndex := (NameByIndex m)(i \<mapsto> name), IndexByName := (IndexByName m)(name \<mapsto> i),
         IndicesByGid := (IndicesByGid m)(gid := IndicesByGid m gid @ [i])\<rparr>;
       Some (if ifla ! IFLA_MASTER \<noteq> [] then m\<lparr>Master := (Master m)(i \<mapsto> nl_Uint32 (ifla ! IFLA_MASTER))\<rparr> else m) } }"

fun add_links :: "u8 list list \<Rightarrow> IfMaps \<Rightarrow> IfMaps option" where
  "add_links [] m = Some m"
| "add_links (b # bs) m = do { m \<leftarrow> add_link b m; add_links bs m }"

subsection \<open>Integers in network byte order\<close>

definition Be16_Load :: "u8 list \<Rightarrow> u16" where
  "Be16_Load be = ucast (push_bit 8 (be ! 0)) OR ucast (be ! 1)"

definition Be16_Store :: "u16 \<Rightarrow> u8 list" where
  "Be16_Store v = [ucast (drop_bit 8 v), ucast v]"

definition Be32_Load :: "u8 list \<Rightarrow> u32" where
  "Be32_Load be = ucast (push_bit 24 (be ! 0)) OR ucast (push_bit 16 (be ! 1)) OR ucast (push_bit 8 (be ! 2)) OR ucast (be ! 3)"

definition Be32_Store :: "u32 \<Rightarrow> u8 list" where
  "Be32_Store v = [ucast (drop_bit 24 v), ucast (drop_bit 16 v), ucast (drop_bit 8 v), ucast v]"

definition Be64_Load :: "u8 list \<Rightarrow> u64" where
  "Be64_Load be = ucast (push_bit 56 (be ! 0)) OR ucast (push_bit 48 (be ! 1)) OR ucast (push_bit 40 (be ! 2)) OR ucast (push_bit 32 (be ! 3))
     OR ucast (push_bit 24 (be ! 4)) OR ucast (push_bit 16 (be ! 5)) OR ucast (push_bit 8 (be ! 6)) OR ucast (be ! 7)"

definition Be64_Store :: "u64 \<Rightarrow> u8 list" where
  "Be64_Store v = [ucast (drop_bit 56 v), ucast (drop_bit 48 v), ucast (drop_bit 40 v), ucast (drop_bit 32 v),
     ucast (drop_bit 24 v), ucast (drop_bit 16 v), ucast (drop_bit 8 v), ucast v]"

subsection \<open>Next hops of a multipath route\<close>

definition RTNH :: nat where "RTNH = 4"
definition SizeofRtnh :: nat where "SizeofRtnh = 2 + 1 + 1 + 8"

record Rtnh =
  rlength :: u16
  rFlags :: u8
  rHops :: u8
  rIfindex :: u64

text \<open>The struct in memory: an \<open>int\<close> has eight bytes and is aligned to eight, so four bytes of padding, whose content
  the language leaves open (the argument \<open>pad\<close>), stand before it.\<close>

definition rtnh_bytes :: "u8 list \<Rightarrow> Rtnh \<Rightarrow> u8 list" where
  "rtnh_bytes pad h = le_bytes 2 (rlength h) @ [rFlags h, rHops h] @ pad @ le_bytes 8 (rIfindex h)"

definition RtnhAttrs_Read :: "u8 list \<Rightarrow> Rtnh \<times> attr list \<Rightarrow> u8 list \<Rightarrow> (nat \<times> nl_error option \<times> u8 list) option" where
  "RtnhAttrs_Read pad v b = (if length b < SizeofRtnh then None else do {
     (n, err, c) \<leftarrow> attrs_Read (snd v) (drop SizeofRtnh b);
     let b = take SizeofRtnh b @ c;
     case err of Some e \<Rightarrow> Some (0, Some e, b)
     | None \<Rightarrow> do {
         let n = nl_Align RTNH (SizeofRtnh + n);
         panic_unless (16 \<le> length b);
         Some (n, None, rtnh_bytes pad ((fst v)\<lparr>rlength := of_nat n\<rparr>) @ drop 16 b) } })"

fun RtnhAttrsList_Read :: "u8 list \<Rightarrow> (Rtnh \<times> attr list) list \<Rightarrow> u8 list \<Rightarrow> (nat \<times> nl_error option \<times> u8 list) option" where
  "RtnhAttrsList_Read pad [] b = Some (0, None, b)"
| "RtnhAttrsList_Read pad (x # xs) b = do {
     (n, err, c) \<leftarrow> RtnhAttrs_Read pad x b;
     if err \<noteq> None then Some (0, None, c)
     else if xs = [] then Some (n, None, c)
     else if length c < n then None
     else do { (m, err, d) \<leftarrow> RtnhAttrsList_Read pad xs (drop n c); Some (n + m, err, take n c @ d) } }"

subsection \<open>A request is answered\<close>

text \<open>A message the receiver accepts: its header, length and alignment, the receiver's port and the sequence number.\<close>

definition reply :: "u32 \<Rightarrow> u32 \<Rightarrow> u8 list \<Rightarrow> bool" where
  "reply pid seq m \<longleftrightarrow> (\<exists>h. HdrPtr m = Some h \<and> unat (hLen h) = length m \<and> 4 dvd length m \<and> hPid h = pid \<and> hSeq h = seq)"

definition msg_type :: "u8 list \<Rightarrow> u16" where
  "msg_type m = hType (the (HdrPtr m))"

text \<open>The receiver holds the messages \<open>ms\<close>, packed in its buffer and in those of the channel.\<close>

definition packed :: "SockReceiver \<Rightarrow> u8 list list \<Rightarrow> bool" where
  "packed sr ms \<longleftrightarrow> (\<exists>bs bss. rxb sr = concat bs \<and> RxCh sr = map concat bss \<and> ms = bs @ concat bss)"

lemma reply_Pop: "reply pid seq m \<Longrightarrow> Pop (m @ rem) = (m, rem, None)" "reply pid seq m \<Longrightarrow> SizeofHdr \<le> length m"
  using Pop_message by (auto simp: reply_def HdrPtr_def split: if_splits)

lemma recv_loop_packed:
  assumes "reply pid seq m"
  shows "b = concat bs \<Longrightarrow> ch = map concat bss \<Longrightarrow> bs @ concat bss = m # ms \<Longrightarrow>
    \<exists>bs' bss'. recv_loop w e b ch = ((m, None), concat bs', map concat bss') \<and> bs' @ concat bss' = ms"
proof (induction w e b ch arbitrary: bs bss rule: recv_loop.induct)
  case (1 w e b)
  then obtain bs' where "bs = m # bs'" by (cases bs) auto
  then show ?case using reply_Pop [OF assms] 1
    by (intro exI [of _ bs'] exI [of _ "[]"]) auto
next
  case (2 w e b c ch)
  obtain d bss' where bss: "bss = d # bss'" "c = concat d" "ch = map concat bss'" using "2.prems"(2) by (cases bss) auto
  show ?case
  proof (cases bs)
    case Nil
    then show ?thesis using "2.IH" [OF _ bss(2,3)] "2.prems" bss(1) by (simp add: SizeofHdr_def)
  next
    case (Cons x bs')
    then show ?thesis using reply_Pop(1) [OF assms, of "concat bs'"] reply_Pop(2) [OF assms] 2(2-) bss
      by (intro exI [of _ bs'] exI [of _ bss]) auto
  qed
qed

lemma Recv_packed:
  assumes "packed sr (m # ms)" "reply pid seq m"
  obtains sr' where "Recv sr = ((m, None), sr')" "packed sr' ms" "sockPid sr' = sockPid sr"
proof -
  obtain bs bss where b: "rxb sr = concat bs" "RxCh sr = map concat bss" "bs @ concat bss = m # ms"
    using assms(1) unfolding packed_def by metis
  obtain bs' bss' where r: "recv_loop (dontwait sr) (sockErr sr) (rxb sr) (RxCh sr) = ((m, None), concat bs', map concat bss')" "bs' @ concat bss' = ms"
    using recv_loop_packed [OF assms(2) b] by blast
  show ?thesis by (rule that [of "sr\<lparr>rxb := concat bs', RxCh := map concat bss'\<rparr>"]) (use r in \<open>auto simp: Recv_def packed_def\<close>)
qed

text \<open>C25: When the buffers received hold messages for the receiver with the sequence number of the request, ended by one of
  type done, the request ends without an error, the handler is called with exactly the messages before the end, in
  order, and what follows stays in the receiver.\<close>

theorem until_done_replies:
  assumes "\<And>m. m \<in> set ms \<Longrightarrow> reply (sockPid sr) seq m \<and> msg_type m \<noteq> NLMSG_DONE \<and> msg_type m \<noteq> NLMSG_ERROR"
    and "reply (sockPid sr) seq d" "msg_type d = NLMSG_DONE" "packed sr (ms @ d # rest)"
  shows "\<exists>sr'. until_done seq sr = (None, ms, sr') \<and> packed sr' rest"
  using assms
proof (induction ms arbitrary: sr)
  case Nil
  obtain sr' where "Recv sr = ((d, None), sr')" "packed sr' rest" "sockPid sr' = sockPid sr"
    using Recv_packed [of sr d rest] Nil by auto
  then show ?case using Nil.prems(2,3) by (subst until_done.simps) (auto simp: reply_def msg_type_def)
next
  case (Cons m ms)
  have m: "reply (sockPid sr) seq m" "msg_type m \<noteq> NLMSG_DONE" "msg_type m \<noteq> NLMSG_ERROR" using Cons.prems(1) [of m] by auto
  obtain sr' where r: "Recv sr = ((m, None), sr')" "packed sr' (ms @ d # rest)" "sockPid sr' = sockPid sr"
    using Recv_packed [of sr m "ms @ d # rest"] Cons.prems(4) m(1) by auto
  obtain sr'' where "until_done seq sr' = (None, ms, sr'')" "packed sr'' rest"
    using Cons.IH [of sr'] Cons.prems r(2,3) by auto
  then show ?case using m r by (subst until_done.simps) (auto simp: reply_def msg_type_def)
qed

subsection \<open>A file whose header says zero\<close>

text \<open>C26: A record whose header gives a length of 0 makes the loop over a file run forever.\<close>

theorem monitor_file_endless:
  assumes "HdrPtr b = Some h" "hLen h = 0" "SizeofHdr < length b"
  shows "monitor_file b = None"
proof -
  have z: "Pop b = ([], b, None)" using assms by (simp add: Pop_def nl_Align_4 NLMSG_def)
  have "x \<noteq> b" if "monitor_file x = Some r" for x r
  proof (rule monitor_file.raw_induct [OF _ that, of "\<lambda>x r. x \<noteq> b"])
    fix f x r
    assume IH: "\<And>x r. f x = Some r \<Longrightarrow> x \<noteq> b" and x: "(if SizeofHdr < length x then
       (case Pop x of (msg, rem, err) \<Rightarrow> (case err of None \<Rightarrow> f rem \<bind> (\<lambda>(ms, e). Some (msg # ms, e)) | Some e \<Rightarrow> Some ([msg], Some e)))
       else Some ([], None)) = Some r"
    show "x \<noteq> b"
    proof
      assume "x = b"
      then have "f b = Some (tl (fst r), snd r)" using x z assms(3) by (auto simp: Option.bind_eq_Some_conv)
      then show False using IH by blast
    qed
  qed
  then show ?thesis by (cases "monitor_file b") auto
qed

lemma monitor_file_header_only: "length b = SizeofHdr \<Longrightarrow> monitor_file b = Some ([], None)"
  by (subst monitor_file.simps) simp

subsection \<open>Byte order\<close>

text \<open>Loading a stored big-endian integer gives back only its lowest byte, at every width: the shifts are made in a
  byte, before the conversion.\<close>

theorem Be_Load_low:
  "Be16_Load (Be16_Store v) = v AND 0xff \<and> Be32_Load (Be32_Store w) = w AND 0xff \<and> Be64_Load (Be64_Store x) = x AND 0xff"
proof -
  have z: "push_bit 8 (a :: u8) = 0" "push_bit 16 a = 0" "push_bit 24 a = 0" "push_bit 32 a = 0" "push_bit 40 a = 0" "push_bit 48 a = 0" "push_bit 56 a = 0" for a
    by (rule bit_word_eqI; simp add: bit_simps)+
  have m: "(0xff :: u16) = mask 8" "(0xff :: u32) = mask 8" "(0xff :: u64) = mask 8" by (simp_all add: mask_eq_exp_minus_1)
  have 1: "Be16_Load (Be16_Store v) = v AND 0xff" unfolding m by (rule bit_word_eqI) (auto simp: Be16_Load_def Be16_Store_def z bit_simps)
  have 2: "Be32_Load (Be32_Store w) = w AND 0xff" unfolding m by (rule bit_word_eqI) (auto simp: Be32_Load_def Be32_Store_def z bit_simps)
  have 3: "Be64_Load (Be64_Store x) = x AND 0xff" unfolding m by (rule bit_word_eqI) (auto simp: Be64_Load_def Be64_Store_def z bit_simps)
  show ?thesis using 1 2 3 by simp
qed


subsection \<open>A next hop loses its attributes\<close>

lemma length_rtnh_bytes: "length pad = 4 \<Longrightarrow> length (rtnh_bytes pad h) = 16"
  by (simp add: rtnh_bytes_def)

lemma le_bytes_8: "le_bytes 8 w = le_bytes 4 w @ le_bytes 4 (drop_bit 32 w)"
  by (simp add: eval_nat_numeral)

text \<open>C27: The struct of a next hop is four bytes longer than the space kept for it, so for an interface index below 2 to the 32 its
  zero upper half overwrites the header of the first attribute: no attribute can be read back. And where the kernel
  looks for the interface index there is padding.\<close>

theorem RtnhAttrs_Read_loses:
  assumes "RtnhAttrs_Read pad (h, as) b = Some (n, None, c)" "length pad = 4" "rIfindex h < 2 ^ 32"
  shows "ForEachAttr (drop SizeofRtnh (take n c)) = [] \<and> take 4 (drop 4 c) = pad"
proof -
  let ?h = "h\<lparr>rlength := of_nat n\<rparr>"
  obtain d where c: "c = rtnh_bytes pad ?h @ d"
    using assms(1) by (auto simp: RtnhAttrs_Read_def Let_def bind_eq_Some_conv split: if_splits option.splits)
  have z: "drop_bit 32 (rIfindex h) = 0"
    using assms(3) by (simp add: word_unat_eq_iff unat_drop_bit_eq drop_bit_nat_def word_less_nat_alt del: drop_bit_eq_div)
  let ?r = "replicate 4 0 @ d"
  have "rtnh_bytes pad ?h @ d = (le_bytes 2 (rlength ?h) @ [rFlags h, rHops h]) @ pad @ le_bytes 4 (rIfindex h) @ ?r"
    by (simp add: rtnh_bytes_def le_bytes_8 z) (simp add: le_bytes_4 eval_nat_numeral)
  then have c: "c = (le_bytes 2 (rlength ?h) @ [rFlags h, rHops h]) @ pad @ le_bytes 4 (rIfindex h) @ ?r" using c by simp
  have "get_u16 (take k ?r) 0 = 0" if "4 \<le> k" for k
    using that by (auto simp: get_u16_def eval_nat_numeral take_Cons' split: nat.splits)
  then have F: "ForEachAttr (take k ?r) = []" for k
    unfolding ForEachAttr_def by (subst forEachAttr.simps) (auto simp: SizeofRtAttr_def Let_def)
  have "drop SizeofRtnh (take n c) = take (n - 12) ?r" using assms(2) unfolding c drop_take SizeofRtnh_def
    by (simp add: le_bytes_2)
  moreover have "take 4 (drop 4 c) = pad" using assms(2) unfolding c by simp
  ultimately show ?thesis using F [of "n - 12"] by simp
qed

subsection \<open>A link in a dump\<close>

lemma IfInfoMsgPtr_bytes:
  assumes "length p = SizeofHdr"
  shows "IfInfoMsgPtr (p @ IfInfoMsg_bytes m @ r) = Some m"
proof -
  let ?b = "p @ [iFamily m, 0] @ le_bytes 2 (iType m) @ le_bytes 4 (iIndex m) @ le_bytes 4 (iFlags m) @ le_bytes 4 (iChange m) @ r"
  have e: "p @ IfInfoMsg_bytes m @ r = ?b" by (simp add: IfInfoMsg_bytes_def)
  have p: "length p = 16" using assms by (simp add: SizeofHdr_def)
  have "get_u16 ?b 18 = iType m" "get_u32 ?b 20 = iIndex m" "get_u32 ?b 24 = iFlags m" "get_u32 ?b 28 = iChange m" "?b ! 16 = iFamily m"
    using get_at(1) [of "p @ [iFamily m, 0]" 18] get_at(2) [of "p @ [iFamily m, 0] @ le_bytes 2 (iType m)" 20]
      get_at(2) [of "p @ [iFamily m, 0] @ le_bytes 2 (iType m) @ le_bytes 4 (iIndex m)" 24]
      get_at(2) [of "p @ [iFamily m, 0] @ le_bytes 2 (iType m) @ le_bytes 4 (iIndex m) @ le_bytes 4 (iFlags m)" 28] p
    by (simp_all add: nth_append)
  then show ?thesis unfolding e by (simp add: IfInfoMsgPtr_def SizeofHdr_def SizeofIfInfoMsg_def p)
qed

lemma length_IfInfoMsg_bytes [simp]: "length (IfInfoMsg_bytes m) = SizeofIfInfoMsg"
  by (simp add: IfInfoMsg_bytes_def SizeofIfInfoMsg_def)

lemma IfInfoMsg_reader: "reader (IfInfoMsg_Read i)"
  by (auto simp: reader_def IfInfoMsg_Read_def split: if_splits)

lemma link_attrs_ok: "attrs_ok [Attr t (KstringAttr name), Attr u (Uint32Attr gid)] l \<longleftrightarrow> l = [(t, name @ [0]), (u, le_bytes 4 gid)]"
  by (auto simp: val_ok.simps split: list.splits)

text \<open>A link message built with a name and a group updates the maps with its index, name and group, and no other
  interface.\<close>

theorem add_link_message:
  assumes N: "NewMessage h (IfInfoMsg_Read i) [Attr (of_nat IFLA_IFNAME) (KstringAttr name), Attr (of_nat IFLA_GROUP) (Uint32Attr gid)] = Some (Inr msg)"
    and t: "hType h = RTM_NEWLINK"
  shows "\<exists>m'. add_link msg m = Some m' \<and> NameByIndex m' = (NameByIndex m)(iIndex i \<mapsto> name) \<and>
     IndexByName m' = (IndexByName m)(name \<mapsto> iIndex i) \<and> IndicesByGid m' gid = IndicesByGid m gid @ [iIndex i] \<and> Master m' = Master m"
proof -
  obtain n c where P: "HdrPtr msg = Some (h\<lparr>hLen := of_nat (length msg)\<rparr>)"
    "IfInfoMsg_Read i (replicate (PAGE - SizeofHdr) 0) = Some (n, None, c)" "take n (drop SizeofHdr msg) = take n c"
    "ForEachAttr (drop (nl_Align NLMSG (SizeofHdr + n)) msg) = [(of_nat IFLA_IFNAME, name @ [0]), (of_nat IFLA_GROUP, le_bytes 4 gid)]"
    using NewMessage_facts [OF IfInfoMsg_reader N, of "[]"] unfolding link_attrs_ok by blast
  have n: "n = 16" "take n c = IfInfoMsg_bytes i"
    using P(2) by (auto simp: IfInfoMsg_Read_def PAGE_def SizeofHdr_def SizeofIfInfoMsg_def split: if_splits)
  let ?d = "drop (nl_Align NLMSG (SizeofHdr + n)) msg"
  have "?d \<noteq> []" using P(4) by auto
  then have l: "32 < length msg" by (simp add: n NLMSG_def SizeofHdr_def nl_Align_self)
  have "msg = take 16 msg @ IfInfoMsg_bytes i @ drop 32 msg"
    using P(3) n by (metis SizeofHdr_def append_take_drop_id drop_drop numeral_Bit0)
  then have I: "IfInfoMsgPtr msg = Some i" using IfInfoMsgPtr_bytes [of "take 16 msg" i "drop 32 msg"] l by (simp add: SizeofHdr_def)
  let ?a = "(replicate N_IFLA [])[IFLA_IFNAME := name @ [0], IFLA_GROUP := le_bytes 4 gid]"
  have W: "snd (ifla_Write (replicate N_IFLA []) msg) = ?a"
    using P(4) l \<open>?d \<noteq> []\<close> n
    by (simp add: ifla_Write_def Let_def SizeofIfInfoMsg_def SizeofHdr_def NLMSG_def nl_Align_self IndexAttrByType_def
        IFLA_IFNAME_def IFLA_GROUP_def N_IFLA_def)
  have "?a ! IFLA_IFNAME = name @ [0]" "?a ! IFLA_GROUP = le_bytes 4 gid" "?a ! IFLA_MASTER = []"
    by (simp_all add: IFLA_IFNAME_def IFLA_GROUP_def IFLA_MASTER_def N_IFLA_def)
  then show ?thesis using P(1) I W t get_u32_le [of gid "[]"]
    by (simp add: add_link_def Let_def Kstring_def nl_Uint32_def)
qed


subsection \<open>The theorems at concrete inputs\<close>

lemmas hdr_eval = hdr_bytes_def le_bytes_2 le_bytes_4 SizeofHdr_def

lemma reply_hdr: "unat (hLen h) = SizeofHdr + length x \<Longrightarrow> 4 dvd length x \<Longrightarrow> reply (hPid h) (hSeq h) (hdr_bytes h @ x)"
  by (simp add: reply_def SizeofHdr_def)

definition link_hdr :: Hdr where "link_hdr = \<lparr>hLen = 20, hType = 16, hFlags = 2, hSeq = 7, hPid = 9\<rparr>"
definition done_hdr :: Hdr where "done_hdr = \<lparr>hLen = 16, hType = 3, hFlags = 2, hSeq = 7, hPid = 9\<rparr>"

theorem until_done_replies_witness:
  "\<exists>sr'. until_done 7 \<lparr>rxb = [], RxCh = [hdr_bytes link_hdr @ [1, 2, 3, 4] @ hdr_bytes done_hdr],
       dontwait = False, sockErr = None, sockPid = 9\<rparr>
     = (None, [hdr_bytes link_hdr @ [1, 2, 3, 4]], sr') \<and> packed sr' []"
proof -
  let ?m = "hdr_bytes link_hdr @ [1, 2, 3, 4]" and ?d = "hdr_bytes done_hdr"
  let ?sr = "\<lparr>rxb = [], RxCh = [?m @ ?d], dontwait = False, sockErr = None, sockPid = 9\<rparr>"
  have "4 dvd Suc (Suc (Suc (Suc 0)))" by presburger
  then have r: "reply 9 7 ?m" "reply 9 7 ?d"
    using reply_hdr [of link_hdr "[1, 2, 3, 4]"] reply_hdr [of done_hdr "[]"] by (simp_all add: link_hdr_def done_hdr_def SizeofHdr_def)
  have t: "msg_type ?m = 16" "msg_type ?d = 3"
    using HdrPtr_hdr_bytes [of done_hdr "[]"] by (simp_all add: msg_type_def link_hdr_def done_hdr_def)
  have p: "packed ?sr [?m, ?d]"
    unfolding packed_def by (rule exI [of _ "[]"], rule exI [of _ "[[?m, ?d]]"]) simp
  show ?thesis
    using until_done_replies [of "[?m]" ?sr 7 ?d "[]"] r t p by (simp add: NLMSG_DONE_def NLMSG_ERROR_def)
qed

theorem monitor_file_endless_witness: "monitor_file (replicate 20 0) = None"
  by (rule monitor_file_endless [where h = "\<lparr>hLen = 0, hType = 0, hFlags = 0, hSeq = 0, hPid = 0\<rparr>"])
     (simp_all add: HdrPtr_def SizeofHdr_def get_u16_def get_u32_def numeral_eq_Suc)

lemma replicate_four: "replicate 4 x = [x, x, x, x]"
  by (simp add: numeral_eq_Suc)

definition rtnh_run :: "(nat \<times> nl_error option \<times> u8 list) option" where
  "rtnh_run = RtnhAttrs_Read (replicate 4 0) (\<lparr>rlength = 0, rFlags = 1, rHops = 2, rIfindex = 3\<rparr>, [Attr 5 (BytesAttr [10, 0, 0, 1])]) (replicate 24 0)"

lemma rtnh_run: "rtnh_run = Some (20, None, [20, 0, 1, 2, 0, 0, 0, 0, 3, 0, 0, 0, 0, 0, 0, 0, 10, 0, 0, 1] @ replicate 4 0)"
  by (simp add: rtnh_run_def RtnhAttrs_Read_def nl_eval SizeofRtnh_def RTNH_def rtnh_bytes_def le_bytes_8 replicate_four)

theorem RtnhAttrs_Read_loses_witness:
  "ForEachAttr (drop SizeofRtnh (take 20 ([20, 0, 1, 2, 0, 0, 0, 0, 3, 0, 0, 0, 0, 0, 0, 0, 10, 0, 0, 1] @ replicate 4 0))) = []"
  using RtnhAttrs_Read_loses [OF rtnh_run [unfolded rtnh_run_def], THEN conjunct1] by simp

definition eth_info :: IfInfoMsg where
  "eth_info = \<lparr>iFamily = 0, iType = 1, iIndex = 4, iFlags = 1, iChange = 0\<rparr>"

lemma eth_message: "NewMessage link_hdr (IfInfoMsg_Read eth_info)
    [Attr (of_nat IFLA_IFNAME) (KstringAttr [101, 116, 104]), Attr (of_nat IFLA_GROUP) (Uint32Attr 0)]
  = Some (Inr (hdr_bytes (link_hdr\<lparr>hLen := 48\<rparr>) @ IfInfoMsg_bytes eth_info
      @ [8, 0, 3, 0, 101, 116, 104, 0, 8, 0, 27, 0, 0, 0, 0, 0]))"
  by (simp add: NewMessage_def nl_eval hdr_Read_def replicate_2 IfInfoMsg_Read_def SizeofIfInfoMsg_def IFLA_IFNAME_def IFLA_GROUP_def)

theorem add_link_message_witness:
  "\<exists>m'. add_link (hdr_bytes (link_hdr\<lparr>hLen := 48\<rparr>) @ IfInfoMsg_bytes eth_info
      @ [8, 0, 3, 0, 101, 116, 104, 0, 8, 0, 27, 0, 0, 0, 0, 0]) no_ifs = Some m' \<and> NameByIndex m' 4 = Some [101, 116, 104]"
  using add_link_message [OF eth_message, of no_ifs] by (auto simp: link_hdr_def RTM_NEWLINK_def eth_info_def)

end
