(* ===== verification/If_Address.thy ===== *)
theory If_Address
  imports Ip4_Prefix Pool
begin

section \<open>Interface addresses and FIB indices: vnet/ip/interface.go, fib.go, ip.go\<close>

text \<open>
  The addresses of interfaces live in a typed pool and are linked, per interface, in a list through their \<open>next\<close> and
  \<open>prev\<close> indices; a map finds an address in a FIB. A step that dereferences an index out of range is \<open>None\<close>, and so is a
  loop that does not end.
\<close>

type_synonym IfAddr = u32
type_synonym FibIndex = u32
type_synonym Si = u32

definition IfAddrNil :: IfAddr where "IfAddrNil = NOT 0"

subsection \<open>Generic prefixes\<close>

text \<open>An address is a list of 16 bytes.\<close>

record ip_Prefix =
  pAddress :: "u8 list"
  pLen :: u32

definition byte_mask :: "nat \<Rightarrow> u8" where
  "byte_mask n = (if n < 8 then push_bit (8 - n) (push_bit n 1 - 1) else 0xff)"

fun NewPrefix_loop :: "u8 list \<Rightarrow> nat \<Rightarrow> nat \<Rightarrow> u8 list \<Rightarrow> u8 list option" where
  "NewPrefix_loop a i n d = (if n = 0 then Some d else do {
     x \<leftarrow> slice_get a i;
     d \<leftarrow> slice_set d i (x AND byte_mask n);
     NewPrefix_loop a (i + 1) (n - 8) d })"

definition NewPrefix :: "u32 \<Rightarrow> u8 list \<Rightarrow> ip_Prefix option" where
  "NewPrefix l a = do {
     d \<leftarrow> NewPrefix_loop a 0 (unat l) (replicate 16 0);
     Some \<lparr>pAddress = d, pLen = l\<rparr> }"

fun more_loop :: "u8 list \<Rightarrow> u8 list \<Rightarrow> nat \<Rightarrow> nat \<Rightarrow> bool \<Rightarrow> bool option" where
  "more_loop p q i n ok = (if n = 0 then Some ok else do {
     x \<leftarrow> slice_get p i;
     y \<leftarrow> slice_get q i;
     let ok = (x AND byte_mask n = y AND byte_mask n);
     if \<not> ok then Some ok else more_loop p q (i + 1) (n - 8) ok })"

definition IsMoreSpecific :: "ip_Prefix \<Rightarrow> ip_Prefix \<Rightarrow> bool option" where
  "IsMoreSpecific p q = (if pLen p \<le> pLen q then Some False else more_loop (pAddress p) (pAddress q) 0 (unat (pLen q)) False)"

declare NewPrefix_loop.simps [simp del] more_loop.simps [simp del]

subsection \<open>FIB indices\<close>

record fibMain =
  fibIndexBySi :: "FibIndex list"
  nameByIndex :: "string list"
  fibIndexById :: "u32 \<rightharpoonup> FibIndex"

definition fibIndexForSi :: "fibMain \<Rightarrow> Si \<Rightarrow> bool \<Rightarrow> (FibIndex \<times> fibMain) option" where
  "fibIndexForSi f si validate = do {
     let f = (if validate then f\<lparr>fibIndexBySi := vec_validate 0 (unat si) (fibIndexBySi f)\<rparr> else f);
     i \<leftarrow> slice_get (fibIndexBySi f) (unat si);
     Some (i, f) }"

definition FibIndexForSi :: "fibMain \<Rightarrow> Si \<Rightarrow> FibIndex option" where
  "FibIndexForSi f si = map_option fst (fibIndexForSi f si False)"

definition ValidateFibIndexForSi :: "fibMain \<Rightarrow> Si \<Rightarrow> (FibIndex \<times> fibMain) option" where
  "ValidateFibIndexForSi f si = fibIndexForSi f si True"

definition SetFibIndexForSi :: "fibMain \<Rightarrow> Si \<Rightarrow> FibIndex \<Rightarrow> fibMain" where
  "SetFibIndexForSi f si fi = f\<lparr>fibIndexBySi := (vec_validate 0 (unat si) (fibIndexBySi f))[unat si := fi]\<rparr>"

definition FibIndexForId :: "fibMain \<Rightarrow> u32 \<Rightarrow> FibIndex \<times> bool" where
  "FibIndexForId f i = (case fibIndexById f i of Some x \<Rightarrow> (x, True) | None \<Rightarrow> (0, False))"

definition SetFibIndexForId :: "fibMain \<Rightarrow> u32 \<Rightarrow> FibIndex \<Rightarrow> fibMain" where
  "SetFibIndexForId f i x = f\<lparr>fibIndexById := (fibIndexById f)(i \<mapsto> x)\<rparr>"

definition SetFibNameForIndex :: "fibMain \<Rightarrow> string \<Rightarrow> FibIndex \<Rightarrow> fibMain" where
  "SetFibNameForIndex f name i = f\<lparr>nameByIndex := (vec_validate [] (unat i) (nameByIndex f))[unat i := name]\<rparr>"

subsection \<open>Interface addresses\<close>

record IfAddress =
  iaPrefix :: ip_Prefix
  iaSi :: Si
  NeighborProbeAdj :: Adj
  ianext :: IfAddr
  iaprev :: IfAddr

record ifAddressMain =
  ifFib :: fibMain
  ifAddrs :: "IfAddress tpool"
  addrMap :: "u8 list \<times> FibIndex \<rightharpoonup> IfAddr"
  headBySwIf :: "IfAddr list"

definition zero_ifa :: IfAddress where
  "zero_ifa = \<lparr>iaPrefix = \<lparr>pAddress = replicate 16 0, pLen = 0\<rparr>, iaSi = 0, NeighborProbeAdj = 0, ianext = 0, iaprev = 0\<rparr>"

text \<open>\<open>copy\<close> fills the front of the 16 bytes of the key.\<close>

definition makeIfAddrMapKey :: "u8 list \<Rightarrow> FibIndex \<Rightarrow> u8 list \<times> FibIndex" where
  "makeIfAddrMapKey a i = (take 16 a @ replicate (16 - length a) 0, i)"

definition GetIfAddr :: "ifAddressMain \<Rightarrow> IfAddr \<Rightarrow> IfAddress option" where
  "GetIfAddr m i = slice_get (data (ifAddrs m)) (unat i)"

definition set_ifa :: "ifAddressMain \<Rightarrow> IfAddr \<Rightarrow> (IfAddress \<Rightarrow> IfAddress) \<Rightarrow> ifAddressMain option" where
  "set_ifa m i f = do {
     a \<leftarrow> GetIfAddr m i;
     Some (m\<lparr>ifAddrs := (ifAddrs m)\<lparr>arr := (arr (ifAddrs m))[unat i := f a]\<rparr>\<rparr>) }"

definition GetIfAddress :: "ifAddressMain \<Rightarrow> u8 list \<Rightarrow> FibIndex \<Rightarrow> IfAddress option option" where
  "GetIfAddress m a i = (case addrMap m (makeIfAddrMapKey a i) of None \<Rightarrow> Some None | Some i \<Rightarrow> map_option Some (GetIfAddr m i))"

definition IfFirstAddr :: "ifAddressMain \<Rightarrow> Si \<Rightarrow> IfAddr option" where
  "IfFirstAddr m i = slice_get (headBySwIf m) (unat i)"

definition IfFirstAddress :: "ifAddressMain \<Rightarrow> Si \<Rightarrow> IfAddress option option" where
  "IfFirstAddress m i = do {
     ia \<leftarrow> IfFirstAddr m i;
     if ia \<noteq> IfAddrNil then map_option Some (GetIfAddr m ia) else Some None }"

definition IfAddrForPrefix :: "ifAddressMain \<Rightarrow> ip_Prefix \<Rightarrow> Si \<Rightarrow> (IfAddr \<times> bool) option" where
  "IfAddrForPrefix m p si = do {
     fi \<leftarrow> FibIndexForSi (ifFib m) si;
     Some (case addrMap m (makeIfAddrMapKey (pAddress p) fi) of Some ai \<Rightarrow> (ai, True) | None \<Rightarrow> (0, False)) }"

text \<open>\<open>ForeachIfAddress\<close>, from the index \<open>i\<close>; the function given works on a state and may stop the loop with an error.\<close>

partial_function (option) foreach_ifa ::
    "ifAddressMain \<Rightarrow> (IfAddr \<Rightarrow> IfAddress \<Rightarrow> 's \<Rightarrow> 'e option \<times> 's) \<Rightarrow> IfAddr \<Rightarrow> 's \<Rightarrow> ('e option \<times> 's) option" where
  "foreach_ifa m f i s = (if i = IfAddrNil then Some (None, s) else do {
     ia \<leftarrow> GetIfAddr m i;
     case f i ia s of (Some e, s) \<Rightarrow> Some (Some e, s) | (None, s) \<Rightarrow> foreach_ifa m f (ianext ia) s })"

definition ForeachIfAddress :: "ifAddressMain \<Rightarrow> Si \<Rightarrow> (IfAddr \<Rightarrow> IfAddress \<Rightarrow> 's \<Rightarrow> 'e option \<times> 's) \<Rightarrow> 's \<Rightarrow> ('e option \<times> 's) option" where
  "ForeachIfAddress m si f s = do {
     i \<leftarrow> slice_get (headBySwIf m) (unat si);
     foreach_ifa m f i s }"

partial_function (option) free_addrs :: "Si \<Rightarrow> IfAddr \<Rightarrow> ifAddressMain \<Rightarrow> ifAddressMain option" where
  "free_addrs si ai m = (if ai = IfAddrNil then Some m else do {
     a \<leftarrow> GetIfAddr m ai;
     fi \<leftarrow> FibIndexForSi (ifFib m) si;
     let m = m\<lparr>addrMap := (addrMap m)(makeIfAddrMapKey (pAddress (iaPrefix a)) fi := None),
       ifAddrs := snd (PutIndex (ifAddrs m) (unat ai))\<rparr>;
     free_addrs si (ianext a) m })"

definition swIfAddDel :: "ifAddressMain \<Rightarrow> Si \<Rightarrow> bool \<Rightarrow> ifAddressMain option" where
  "swIfAddDel m si isDel = (if isDel then do {
       ai \<leftarrow> slice_get (headBySwIf m) (unat si);
       m \<leftarrow> free_addrs si ai m;
       Some (m\<lparr>headBySwIf := (headBySwIf m)[unat si := IfAddrNil]\<rparr>) }
     else Some (m\<lparr>headBySwIf := vec_validate IfAddrNil (unat si) (headBySwIf m)\<rparr>))"

text \<open>Deleting and adding an address: the index, whether it existed, whether there is an error. The address is a pointer
  into the pool, so its links are read when they are used.\<close>

definition del_addr :: "ifAddressMain \<Rightarrow> Si \<Rightarrow> u8 list \<times> FibIndex \<Rightarrow> IfAddr \<Rightarrow> ifAddressMain option" where
  "del_addr m si k ai = do {
     a \<leftarrow> GetIfAddr m ai;
     m \<leftarrow> (if iaprev a \<noteq> IfAddrNil then set_ifa m (iaprev a) (\<lambda>p. p\<lparr>ianext := ianext a\<rparr>)
       else do {
         h \<leftarrow> slice_set (headBySwIf m) (unat si) IfAddrNil;
         Some (m\<lparr>headBySwIf := h\<rparr>) });
     a \<leftarrow> GetIfAddr m ai;
     m \<leftarrow> (if ianext a \<noteq> IfAddrNil then set_ifa m (ianext a) (\<lambda>n. n\<lparr>iaprev := iaprev a\<rparr>) else Some m);
     Some (m\<lparr>addrMap := (addrMap m)(k := None), ifAddrs := snd (PutIndex (ifAddrs m) (unat ai))\<rparr>) }"

definition add_addr :: "(nat \<Rightarrow> nat) \<Rightarrow> ifAddressMain \<Rightarrow> Si \<Rightarrow> ip_Prefix \<Rightarrow> u8 list \<times> FibIndex \<Rightarrow> (IfAddr \<times> ifAddressMain) option" where
  "add_addr nc m si p k = do {
     (i, q) \<leftarrow> GetIndex nc zero_ifa (ifAddrs m);
     let ai = of_nat i;
     let m = m\<lparr>ifAddrs := q, addrMap := (addrMap m)(k \<mapsto> ai)\<rparr>;
     m \<leftarrow> set_ifa m ai (\<lambda>a. a\<lparr>iaPrefix := p, iaSi := si, NeighborProbeAdj := AdjNil\<rparr>);
     pi \<leftarrow> slice_get (headBySwIf m) (unat si);
     m \<leftarrow> set_ifa m ai (\<lambda>a. a\<lparr>ianext := IfAddrNil, iaprev := pi\<rparr>);
     m \<leftarrow> (if pi \<noteq> IfAddrNil then do {
         m \<leftarrow> set_ifa m ai (\<lambda>a. a\<lparr>ianext := pi, iaprev := IfAddrNil\<rparr>);
         set_ifa m pi (\<lambda>p. p\<lparr>iaprev := ai\<rparr>) }
       else Some m);
     h \<leftarrow> slice_set (headBySwIf m) (unat si) ai;
     Some (ai, m\<lparr>headBySwIf := h\<rparr>) }"

definition AddDelInterfaceAddress :: "(nat \<Rightarrow> nat) \<Rightarrow> ifAddressMain \<Rightarrow> Si \<Rightarrow> ip_Prefix \<Rightarrow> bool \<Rightarrow>
    ((IfAddr \<times> bool \<times> bool) \<times> ifAddressMain) option" where
  "AddDelInterfaceAddress nc m si p isDel = do {
     fi \<leftarrow> FibIndexForSi (ifFib m) si;
     let k = makeIfAddrMapKey (pAddress p) fi;
     case addrMap m k of
       Some ai \<Rightarrow>
         if isDel then do { m \<leftarrow> del_addr m si k ai; Some ((IfAddrNil, True, False), m) }
         else do { a \<leftarrow> GetIfAddr m ai; Some ((ai, True, False), m) }
     | None \<Rightarrow>
         if isDel then Some ((0, False, True), m)
         else do { (ai, m) \<leftarrow> add_addr nc m si p k; Some ((ai, False, False), m) } }"

subsection \<open>The lists are doubly linked\<close>

text \<open>A segment of linked addresses: entered from \<open>p\<close> at \<open>h\<close>, it ends with the address \<open>q\<close>, whose next is \<open>e\<close>.\<close>

fun dseg :: "IfAddress list \<Rightarrow> IfAddr \<Rightarrow> IfAddr \<Rightarrow> IfAddr list \<Rightarrow> IfAddr \<Rightarrow> IfAddr \<Rightarrow> bool" where
  "dseg d p h [] q e = (h = e \<and> q = p)"
| "dseg d p h (x # xs) q e = (h = x \<and> x \<noteq> IfAddrNil \<and> unat x < length d \<and> iaprev (d ! unat x) = p \<and>
     dseg d x (ianext (d ! unat x)) xs q e)"

lemma dseg_append: "dseg d p h (xs @ ys) q e \<longleftrightarrow> (\<exists>r k. dseg d p h xs r k \<and> dseg d r k ys q e)"
  by (induction xs arbitrary: p h) auto

lemma dseg_cong:
  "dseg d p h xs q e \<Longrightarrow> length d \<le> length d' \<Longrightarrow> (\<And>x. x \<in> set xs \<Longrightarrow> ianext (d' ! unat x) = ianext (d ! unat x) \<and> iaprev (d' ! unat x) = iaprev (d ! unat x))
     \<Longrightarrow> dseg d' p h xs q e"
  by (induction xs arbitrary: p h) auto

lemma unat_inj: "unat (x :: 'a::len word) = unat y \<longleftrightarrow> x = y"
  by (simp add: word_unat_eq_iff)

lemma dseg_upd: "dseg d p h xs q e \<Longrightarrow> i \<notin> set xs \<Longrightarrow> dseg (d[unat i := a]) p h xs q e"
  by (elim dseg_cong) (simp, metis nth_list_update_neq unat_inj)

lemma dseg_set_prev:
  "dseg d p h (x # xs) q e \<Longrightarrow> x \<notin> set xs \<Longrightarrow> dseg (d[unat x := (d ! unat x)\<lparr>iaprev := r\<rparr>]) r h (x # xs) q e"
  by (auto intro!: dseg_upd)

lemma dseg_set_next:
  "dseg d p h (xs @ [x]) q e \<Longrightarrow> x \<notin> set xs \<Longrightarrow> dseg (d[unat x := (d ! unat x)\<lparr>ianext := f\<rparr>]) p h (xs @ [x]) x f"
  by (auto simp: dseg_append intro!: dseg_upd)

lemma dseg_bounds: "dseg d p h xs q e \<Longrightarrow> x \<in> set xs \<Longrightarrow> unat x < length d \<and> x \<noteq> IfAddrNil"
  by (induction xs arbitrary: p h) auto

text \<open>The list of an interface, and the invariant: the lists of the interfaces are disjoint and made of allocated
  addresses of that interface.\<close>

definition if_list :: "ifAddressMain \<Rightarrow> nat \<Rightarrow> IfAddr list \<Rightarrow> bool" where
  "if_list m si xs \<longleftrightarrow> (\<exists>q. dseg (data (ifAddrs m)) IfAddrNil (headBySwIf m ! si) xs q IfAddrNil) \<and> distinct xs"

definition if_inv :: "ifAddressMain \<Rightarrow> (nat \<Rightarrow> IfAddr list) \<Rightarrow> bool" where
  "if_inv m ls \<longleftrightarrow> pool_inv (ifAddrs m) \<and> maxLen (pool (ifAddrs m)) = 0 \<and>
     (\<forall>si < length (headBySwIf m). if_list m si (ls si) \<and> unat ` set (ls si) \<subseteq> pool_used (ifAddrs m)) \<and>
     (\<forall>si sj. si < length (headBySwIf m) \<and> sj < length (headBySwIf m) \<and> si \<noteq> sj \<longrightarrow> set (ls si) \<inter> set (ls sj) = {})"

lemma length_data: "pool_inv p \<Longrightarrow> length (data p) = plen p"
  by (simp add: data_def pool_inv_def)

lemma data_nth: "i < plen p \<Longrightarrow> data p ! i = arr p ! i"
  by (simp add: data_def)

text \<open>What a list holds is what the loop over it visits.\<close>

fun visit :: "IfAddress list \<Rightarrow> (IfAddr \<Rightarrow> IfAddress \<Rightarrow> 's \<Rightarrow> 'e option \<times> 's) \<Rightarrow> IfAddr list \<Rightarrow> 's \<Rightarrow> 'e option \<times> 's" where
  "visit d f [] s = (None, s)"
| "visit d f (x # xs) s = (case f x (d ! unat x) s of (Some e, s) \<Rightarrow> (Some e, s) | (None, s) \<Rightarrow> visit d f xs s)"

lemma foreach_dseg:
  "dseg (data (ifAddrs m)) p h xs q IfAddrNil \<Longrightarrow> foreach_ifa m f h s = Some (visit (data (ifAddrs m)) f xs s)"
proof (induction xs arbitrary: p h s)
  case Nil
  then show ?case by (subst foreach_ifa.simps) auto
next
  case (Cons x xs)
  then show ?case by (subst foreach_ifa.simps) (auto simp: GetIfAddr_def split: option.splits prod.splits)
qed

theorem Foreach_visits:
  assumes "if_inv m ls" "unat si < length (headBySwIf m)"
  shows "ForeachIfAddress m si f s = Some (visit (data (ifAddrs m)) f (ls (unat si)) s)"
proof -
  obtain q where "dseg (data (ifAddrs m)) IfAddrNil (headBySwIf m ! unat si) (ls (unat si)) q IfAddrNil"
    using assms by (auto simp: if_inv_def if_list_def)
  from foreach_dseg [OF this] show ?thesis using assms(2) by (simp add: ForeachIfAddress_def)
qed

subsection \<open>Adding and deleting\<close>

definition upd_ifa :: "ifAddressMain \<Rightarrow> IfAddr \<Rightarrow> (IfAddress \<Rightarrow> IfAddress) \<Rightarrow> ifAddressMain" where
  "upd_ifa m i f = m\<lparr>ifAddrs := (ifAddrs m)\<lparr>arr := (arr (ifAddrs m))[unat i := f (arr (ifAddrs m) ! unat i)]\<rparr>\<rparr>"

lemma data_upd [simp]: "data (p\<lparr>arr := (arr p)[i := a]\<rparr>) = (data p)[i := a]"
  by (simp add: data_def take_update_swap)

lemma upd_ifa_simps [simp]:
  "headBySwIf (upd_ifa m i f) = headBySwIf m" "addrMap (upd_ifa m i f) = addrMap m" "ifFib (upd_ifa m i f) = ifFib m"
  "pool_inv (ifAddrs (upd_ifa m i f)) = pool_inv (ifAddrs m)" "pool_used (ifAddrs (upd_ifa m i f)) = pool_used (ifAddrs m)"
  "plen (ifAddrs (upd_ifa m i f)) = plen (ifAddrs m)" "pool (ifAddrs (upd_ifa m i f)) = pool (ifAddrs m)"
  by (simp_all add: upd_ifa_def pool_inv_def pool_used_def)

lemma data_upd_ifa: "unat i < plen (ifAddrs m) \<Longrightarrow> data (ifAddrs (upd_ifa m i f)) = (data (ifAddrs m))[unat i := f (data (ifAddrs m) ! unat i)]"
  by (simp add: upd_ifa_def data_nth)

lemma GetIfAddr_in: "pool_inv (ifAddrs m) \<Longrightarrow> unat i < plen (ifAddrs m) \<Longrightarrow> GetIfAddr m i = Some (data (ifAddrs m) ! unat i)"
  by (simp add: GetIfAddr_def length_data)

lemma set_ifa_in: "pool_inv (ifAddrs m) \<Longrightarrow> unat i < plen (ifAddrs m) \<Longrightarrow> set_ifa m i f = Some (upd_ifa m i f)"
  by (simp add: set_ifa_def GetIfAddr_in upd_ifa_def data_nth)

lemma used_plen: "i \<in> pool_used p \<Longrightarrow> i < plen p"
  by (simp add: pool_used_def)

lemma if_invD:
  assumes "if_inv m ls" "si < length (headBySwIf m)"
  shows "\<exists>q. dseg (data (ifAddrs m)) IfAddrNil (headBySwIf m ! si) (ls si) q IfAddrNil" "distinct (ls si)"
    "x \<in> set (ls si) \<Longrightarrow> unat x \<in> pool_used (ifAddrs m)" "x \<in> set (ls si) \<Longrightarrow> unat x < plen (ifAddrs m)"
    "sj < length (headBySwIf m) \<Longrightarrow> si \<noteq> sj \<Longrightarrow> x \<in> set (ls si) \<Longrightarrow> x \<notin> set (ls sj)"
proof -
  have l: "if_list m si (ls si)" "unat ` set (ls si) \<subseteq> pool_used (ifAddrs m)" using assms by (auto simp: if_inv_def)
  then show "\<exists>q. dseg (data (ifAddrs m)) IfAddrNil (headBySwIf m ! si) (ls si) q IfAddrNil" "distinct (ls si)"
    "x \<in> set (ls si) \<Longrightarrow> unat x \<in> pool_used (ifAddrs m)" "x \<in> set (ls si) \<Longrightarrow> unat x < plen (ifAddrs m)"
    by (auto simp: if_list_def pool_used_def)
  have "set (ls si) \<inter> set (ls sj) = {}" if "sj < length (headBySwIf m)" "si \<noteq> sj"
    using assms that unfolding if_inv_def by blast
  then show "sj < length (headBySwIf m) \<Longrightarrow> si \<noteq> sj \<Longrightarrow> x \<in> set (ls si) \<Longrightarrow> x \<notin> set (ls sj)" by blast
qed

lemma if_inv_pool: "if_inv m ls \<Longrightarrow> pool_inv (ifAddrs m) \<and> maxLen (pool (ifAddrs m)) = 0"
  by (simp add: if_inv_def)

text \<open>Writing an address that is on no other list, and the head of its own.\<close>

lemma if_inv_change:
  assumes "if_inv m ls" and "pool_inv (ifAddrs m')" "maxLen (pool (ifAddrs m')) = 0"
    and h: "headBySwIf m' = (headBySwIf m)[si := h]" "si < length (headBySwIf m)"
    and other: "\<And>sj x. sj < length (headBySwIf m) \<Longrightarrow> sj \<noteq> si \<Longrightarrow> x \<in> set (ls sj) \<Longrightarrow>
        ianext (data (ifAddrs m') ! unat x) = ianext (data (ifAddrs m) ! unat x) \<and>
        iaprev (data (ifAddrs m') ! unat x) = iaprev (data (ifAddrs m) ! unat x) \<and> x \<notin> set xs \<and> unat x \<in> pool_used (ifAddrs m')"
    and len: "plen (ifAddrs m) \<le> plen (ifAddrs m')"
    and xs: "\<exists>q. dseg (data (ifAddrs m')) IfAddrNil h xs q IfAddrNil" "distinct xs" "unat ` set xs \<subseteq> pool_used (ifAddrs m')"
  shows "if_inv m' (ls(si := xs))"
proof -
  have "if_list m' sj ((ls(si := xs)) sj) \<and> unat ` set ((ls(si := xs)) sj) \<subseteq> pool_used (ifAddrs m')"
    if sj: "sj < length (headBySwIf m)" for sj
  proof (cases "sj = si")
    case True
    then show ?thesis using xs h by (simp add: if_list_def)
  next
    case False
    obtain q where "dseg (data (ifAddrs m)) IfAddrNil (headBySwIf m ! sj) (ls sj) q IfAddrNil" "distinct (ls sj)"
      using if_invD(1,2) [OF assms(1) sj] by blast
    moreover have "length (data (ifAddrs m)) \<le> length (data (ifAddrs m'))"
      using len assms(2) if_inv_pool [OF assms(1)] by (simp add: length_data)
    ultimately show ?thesis using False other [OF sj False] h
      by (auto simp: if_list_def intro!: exI [of _ q] elim!: dseg_cong)
  qed
  moreover have "set ((ls(si := xs)) sj) \<inter> set ((ls(si := xs)) sk) = {}"
    if "sj < length (headBySwIf m)" "sk < length (headBySwIf m)" "sj \<noteq> sk" for sj sk
    using that other assms(1) by (auto simp: if_inv_def)
  ultimately show ?thesis using assms(2,3) h by (simp add: if_inv_def)
qed

lemma add_addr_ok:
  assumes inv: "if_inv m ls" and si: "unat si < length (headBySwIf m)" and cap: "plen (ifAddrs m) < 2 ^ 32 - 1" "\<forall>l. l \<le> nc l"
  shows "\<exists>ai m'. add_addr nc m si p k = Some (ai, m') \<and> if_inv m' (ls(unat si := ai # ls (unat si))) \<and>
    unat ai \<notin> pool_used (ifAddrs m) \<and> iaPrefix (data (ifAddrs m') ! unat ai) = p \<and> iaSi (data (ifAddrs m') ! unat ai) = si \<and>
    addrMap m' = (addrMap m)(k \<mapsto> ai) \<and> ifFib m' = ifFib m \<and> length (headBySwIf m') = length (headBySwIf m)"
proof -
  obtain i q where q: "GetIndex nc zero_ifa (ifAddrs m) = Some (i, q)" "i \<notin> pool_used (ifAddrs m)"
    "pool_used q = insert i (pool_used (ifAddrs m))" "pool_inv q" "plen (ifAddrs m) \<le> plen q" "plen q \<le> Suc (plen (ifAddrs m))"
    "i < plen q" "maxLen (pool q) = 0" "\<forall>j < plen (ifAddrs m). arr q ! j = arr (ifAddrs m) ! j"
    using GetIndex_fresh [of "ifAddrs m" nc zero_ifa] if_inv_pool [OF inv] cap by auto
  define ai :: IfAddr where "ai = of_nat i"
  have i: "i < 2 ^ 32 - 1" using q(6,7) cap(1) by simp
  then have ai: "unat ai = i" by (simp add: ai_def unat_of_nat take_bit_nat_eq_self)
  have "unat IfAddrNil = 2 ^ 32 - 1" by (simp add: IfAddrNil_def unat_minus_1_32)
  then have nil: "ai \<noteq> IfAddrNil" using ai i by auto
  have fresh: "ai \<notin> set (ls sj)" if "sj < length (headBySwIf m)" for sj using if_invD(3) [OF inv that] q(2) ai by blast
  let ?m0 = "m\<lparr>ifAddrs := q, addrMap := (addrMap m)(k \<mapsto> ai)\<rparr>"
  let ?pi = "headBySwIf m ! unat si"
  define new where "new h a = a\<lparr>iaPrefix := p, iaSi := si, NeighborProbeAdj := AdjNil, ianext := h, iaprev := IfAddrNil\<rparr>" for h a
  obtain r where seg: "dseg (data (ifAddrs m)) IfAddrNil ?pi (ls (unat si)) r IfAddrNil" using if_invD(1) [OF inv si] by blast
  have dq: "data q ! unat x = data (ifAddrs m) ! unat x" if "unat x < plen (ifAddrs m)" for x :: IfAddr
    using that q(5,9) by (simp add: data_nth)
  have seg: "dseg (data q) IfAddrNil ?pi (ls (unat si)) r IfAddrNil"
    by (rule dseg_cong [OF seg]) (use q(4,5) if_inv_pool [OF inv] dq if_invD(4) [OF inv si] in \<open>auto simp: length_data\<close>)
  show ?thesis
  proof (cases "ls (unat si)")
    case Nil
    then have h: "?pi = IfAddrNil" using seg by simp
    let ?f = "\<lambda>a. a\<lparr>iaPrefix := p, iaSi := si, NeighborProbeAdj := AdjNil\<rparr>" and ?g = "\<lambda>a. a\<lparr>ianext := IfAddrNil, iaprev := ?pi\<rparr>"
    let ?m = "upd_ifa (upd_ifa ?m0 ai ?f) ai ?g"
    let ?m' = "?m\<lparr>headBySwIf := (headBySwIf m)[unat si := ai]\<rparr>"
    have r: "add_addr nc m si p k = Some (ai, ?m')"
      using q(4,7) si ai h by (simp add: add_addr_def q(1) ai_def [symmetric] Let_def set_ifa_in)
    have d: "data (ifAddrs ?m') = (data q)[i := ?g (?f (data q ! i))]"
      using ai q(4,7) by (simp add: data_upd_ifa length_data)
    have "if_inv ?m' (ls(unat si := [ai]))"
      by (rule if_inv_change [OF inv, where h = ai])
        (use q ai nil si fresh d dq if_invD(3,4) [OF inv] h in \<open>auto simp: length_data nth_list_update\<close>)
    then show ?thesis using r Nil q(2,4,7) ai d by (auto simp: length_data)
  next
    case (Cons y ys)
    then have h: "?pi = y" "y \<noteq> IfAddrNil" "unat y < plen (ifAddrs m)" "y \<noteq> ai" "unat y \<noteq> i"
      using seg fresh [OF si] if_invD(4) [OF inv si, of y] ai by (auto simp: unat_inj [symmetric])
    let ?f = "\<lambda>a. a\<lparr>iaPrefix := p, iaSi := si, NeighborProbeAdj := AdjNil\<rparr>" and ?g = "\<lambda>a. a\<lparr>ianext := IfAddrNil, iaprev := y\<rparr>"
      and ?k = "\<lambda>a. a\<lparr>ianext := y, iaprev := IfAddrNil\<rparr>" and ?l = "\<lambda>a. a\<lparr>iaprev := ai\<rparr>"
    let ?m = "upd_ifa (upd_ifa (upd_ifa (upd_ifa ?m0 ai ?f) ai ?g) ai ?k) y ?l"
    let ?m' = "?m\<lparr>headBySwIf := (headBySwIf m)[unat si := ai]\<rparr>"
    have r: "add_addr nc m si p k = Some (ai, ?m')"
      using q(4,5,7) si ai h by (simp add: add_addr_def q(1) ai_def [symmetric] Let_def set_ifa_in)
    have d: "data (ifAddrs ?m') = (data q)[i := ?k (?f (data q ! i)), unat y := ?l (data q ! unat y)]"
      using ai q(4,5,7) h by (simp add: data_upd_ifa length_data nth_list_update)
    have ys: "y \<notin> set ys" "ai \<notin> set ys" using if_invD(2) [OF inv si] fresh [OF si] Cons by auto
    have "dseg ((data q)[unat y := ?l (data q ! unat y)]) ai y (y # ys) r IfAddrNil"
      using dseg_set_prev [of "data q" IfAddrNil y y ys r IfAddrNil ai] seg Cons h ys by simp
    then have "dseg ((data q)[unat y := ?l (data q ! unat y), unat ai := ?k (?f (data q ! i))]) ai y (y # ys) r IfAddrNil"
      by (rule dseg_upd) (use ys h in auto)
    then have "dseg (data (ifAddrs ?m')) ai y (y # ys) r IfAddrNil"
      by (simp only: d ai list_update_swap [OF h(5) [symmetric]])
    moreover have e: "data (ifAddrs ?m') ! unat ai = ?k (?f (data q ! i))" "unat ai < length (data (ifAddrs ?m'))"
      using d h ai q(4,7) by (simp_all add: length_data)
    ultimately have s': "dseg (data (ifAddrs ?m')) IfAddrNil ai (ai # y # ys) r IfAddrNil"
      using nil by (subst dseg.simps(2)) simp
    have I: "if_inv ?m' (ls(unat si := ai # ls (unat si)))"
    proof (rule if_inv_change [OF inv, where h = ai])
      fix sj x assume x: "sj < length (headBySwIf m)" "sj \<noteq> unat si" "x \<in> set (ls sj)"
      then have "x \<noteq> ai" "x \<notin> set (ls (unat si))" "unat x < plen (ifAddrs m)" "unat x \<in> pool_used (ifAddrs m)"
        using fresh if_invD(3,4,5) [OF inv x(1)] si by auto
      moreover from this have "unat x \<noteq> i" "unat x \<noteq> unat y" using ai Cons by (auto simp: unat_inj [symmetric])
      ultimately show "ianext (data (ifAddrs ?m') ! unat x) = ianext (data (ifAddrs m) ! unat x) \<and>
          iaprev (data (ifAddrs ?m') ! unat x) = iaprev (data (ifAddrs m) ! unat x) \<and>
          x \<notin> set (ai # ls (unat si)) \<and> unat x \<in> pool_used (ifAddrs ?m')"
        unfolding d using dq q(3) by simp
    qed (use q ai si s' Cons fresh if_invD(2,3) [OF inv si] in \<open>auto simp: length_data\<close>)
    have "iaPrefix (data (ifAddrs ?m') ! unat ai) = p" "iaSi (data (ifAddrs ?m') ! unat ai) = si" unfolding e by simp_all
    then show ?thesis by (intro exI [of _ ai] exI [of _ ?m'] conjI r I) (use q(2) ai in simp_all)
  qed
qed

lemma PutIndex_upd: "i \<in> pool_used p \<Longrightarrow> pool_inv p \<Longrightarrow> data (snd (PutIndex p i)) = data p"
  using PutIndex_live(4,5) [of p i] by (simp add: data_def)

lemma PutIndex_del:
  fixes am :: "u8 list \<times> FibIndex \<rightharpoonup> IfAddr"
  assumes "pool_inv (ifAddrs m)" "unat ai \<in> pool_used (ifAddrs m)"
  defines "m' \<equiv> m\<lparr>addrMap := am, ifAddrs := snd (PutIndex (ifAddrs m) (unat ai))\<rparr>"
  shows "pool_inv (ifAddrs m')" "pool_used (ifAddrs m') = pool_used (ifAddrs m) - {unat ai}" "plen (ifAddrs m') = plen (ifAddrs m)"
    "data (ifAddrs m') = data (ifAddrs m)" "maxLen (pool (ifAddrs m')) = maxLen (pool (ifAddrs m))"
    "headBySwIf m' = headBySwIf m" "addrMap m' = am"
  using PutIndex_live [OF assms(1,2)] PutIndex_upd [OF assms(2,1)] by (simp_all add: m'_def)

lemma del_addr_head:
  assumes inv: "if_inv m ls" and si: "unat si < length (headBySwIf m)" and l: "ls (unat si) = ai # ys"
  shows "\<exists>m'. del_addr m si k ai = Some m' \<and> if_inv m' (ls(unat si := [])) \<and> addrMap m' = (addrMap m)(k := None)"
proof -
  let ?d = "data (ifAddrs m)"
  have P: "pool_inv (ifAddrs m)" "maxLen (pool (ifAddrs m)) = 0" using if_inv_pool [OF inv] by auto
  obtain r where seg: "dseg ?d IfAddrNil ai (ai # ys) r IfAddrNil" using if_invD(1) [OF inv si] l by auto
  have u: "unat ai \<in> pool_used (ifAddrs m)" "unat ai < plen (ifAddrs m)" using if_invD(3,4) [OF inv si] l by auto
  have prev: "iaprev (?d ! unat ai) = IfAddrNil" using seg by simp
  let ?m1 = "m\<lparr>headBySwIf := (headBySwIf m)[unat si := IfAddrNil]\<rparr>"
  let ?n = "ianext (?d ! unat ai)"
  let ?m2 = "if ?n \<noteq> IfAddrNil then upd_ifa ?m1 ?n (\<lambda>n. n\<lparr>iaprev := IfAddrNil\<rparr>) else ?m1"
  have n: "?n \<noteq> IfAddrNil \<Longrightarrow> unat ?n < plen (ifAddrs m) \<and> ?n \<in> set (ls (unat si))"
    using seg P(1) l by (cases ys) (auto simp: length_data)
  let ?m' = "?m2\<lparr>addrMap := (addrMap m)(k := None), ifAddrs := snd (PutIndex (ifAddrs ?m2) (unat ai))\<rparr>"
  have r: "del_addr m si k ai = Some ?m'"
    using prev u n P si by (simp add: del_addr_def GetIfAddr_in set_ifa_in)
  have m2: "pool_inv (ifAddrs ?m2)" "unat ai \<in> pool_used (ifAddrs ?m2)" "plen (ifAddrs ?m2) = plen (ifAddrs m)"
    "pool_used (ifAddrs ?m2) = pool_used (ifAddrs m)" "maxLen (pool (ifAddrs ?m2)) = 0" "headBySwIf ?m2 = (headBySwIf m)[unat si := IfAddrNil]"
    using P u by auto
  have d: "ianext (data (ifAddrs ?m2) ! unat x) = ianext (?d ! unat x)" "x \<noteq> ?n \<Longrightarrow> iaprev (data (ifAddrs ?m2) ! unat x) = iaprev (?d ! unat x)" for x :: IfAddr
    using n P by (auto simp: data_upd_ifa nth_list_update length_data unat_inj)
  note p = PutIndex_del [OF m2(1,2), of "(addrMap m)(k := None)"]
  have "if_inv ?m' (ls(unat si := []))"
  proof (rule if_inv_change [OF inv, where h = IfAddrNil])
    fix sj x assume x: "sj < length (headBySwIf m)" "sj \<noteq> unat si" "x \<in> set (ls sj)"
    then have "x \<notin> set (ls (unat si))" "unat x \<in> pool_used (ifAddrs m)" using if_invD(3,5) [OF inv x(1)] si by auto
    then show "ianext (data (ifAddrs ?m') ! unat x) = ianext (?d ! unat x) \<and> iaprev (data (ifAddrs ?m') ! unat x) = iaprev (?d ! unat x)
        \<and> x \<notin> set [] \<and> unat x \<in> pool_used (ifAddrs ?m')"
      unfolding p(2,4) m2(4) using d [of x] seg n l by (cases "?n = IfAddrNil") (auto simp: unat_inj)
  qed (use p m2 si in auto)
  then show ?thesis using r p(7) by blast
qed

lemma del_addr_inner:
  assumes inv: "if_inv m ls" and si: "unat si < length (headBySwIf m)" and l: "ls (unat si) = xs @ [x, ai] @ ys"
  shows "\<exists>m'. del_addr m si k ai = Some m' \<and> if_inv m' (ls(unat si := xs @ [x] @ ys)) \<and> addrMap m' = (addrMap m)(k := None)"
proof -
  let ?d = "data (ifAddrs m)" and ?h = "headBySwIf m ! unat si"
  have P: "pool_inv (ifAddrs m)" "maxLen (pool (ifAddrs m)) = 0" using if_inv_pool [OF inv] by auto
  obtain r where seg0: "dseg ?d IfAddrNil ?h (xs @ [x, ai] @ ys) r IfAddrNil" and dist: "distinct (xs @ [x, ai] @ ys)"
    using if_invD(1,2) [OF inv si] l by auto
  have b: "unat y < plen (ifAddrs m) \<and> y \<noteq> IfAddrNil \<and> unat y \<in> pool_used (ifAddrs m)" if "y \<in> set (xs @ [x, ai] @ ys)" for y
    using dseg_bounds [OF seg0 that] if_invD(3) [OF inv si, of y] that l P(1) by (auto simp: length_data)
  let ?n = "ianext (?d ! unat ai)"
  have prev: "iaprev (?d ! unat ai) = x" "dseg ?d IfAddrNil ?h (xs @ [x]) x ai" and tl: "dseg ?d ai ?n ys r IfAddrNil"
    using seg0 by (auto simp: dseg_append)
  let ?f = "\<lambda>p. p\<lparr>ianext := ?n\<rparr>" and ?g = "\<lambda>n. n\<lparr>iaprev := x\<rparr>"
  let ?m1 = "upd_ifa m x ?f"
  let ?m2 = "if ?n \<noteq> IfAddrNil then upd_ifa ?m1 ?n ?g else ?m1"
  let ?m' = "?m2\<lparr>addrMap := (addrMap m)(k := None), ifAddrs := snd (PutIndex (ifAddrs ?m2) (unat ai))\<rparr>"
  have n: "?n \<noteq> IfAddrNil \<Longrightarrow> ?n \<in> set ys" using tl by (cases ys) auto
  have d1: "data (ifAddrs ?m1) = ?d[unat x := ?f (?d ! unat x)]" using b [of x] by (simp add: data_upd_ifa)
  have ai1: "data (ifAddrs ?m1) ! unat ai = ?d ! unat ai" using dist unfolding d1 by (auto simp: unat_inj)
  have r: "del_addr m si k ai = Some ?m'"
    using prev(1) b [of x] b [of ai] b [of ?n] n P ai1 by (simp add: del_addr_def GetIfAddr_in set_ifa_in)
  have m2: "pool_inv (ifAddrs ?m2)" "unat ai \<in> pool_used (ifAddrs ?m2)" "plen (ifAddrs ?m2) = plen (ifAddrs m)"
    "pool_used (ifAddrs ?m2) = pool_used (ifAddrs m)" "maxLen (pool (ifAddrs ?m2)) = 0" "headBySwIf ?m2 = headBySwIf m"
    using P b [of ai] by auto
  have "dseg (data (ifAddrs ?m1)) IfAddrNil ?h (xs @ [x]) x ?n"
    using dseg_set_next [OF prev(2)] dist unfolding d1 by simp
  moreover have t1: "dseg (data (ifAddrs ?m1)) ai ?n ys r IfAddrNil" unfolding d1 by (rule dseg_upd [OF tl]) (use dist in auto)
  ultimately have "\<exists>r. dseg (data (ifAddrs ?m2)) IfAddrNil ?h (xs @ [x] @ ys) r IfAddrNil"
  proof (cases ys)
    case (Cons y zs)
    then have y: "y = ?n" "?n \<noteq> IfAddrNil" using tl by auto
    have d2: "data (ifAddrs ?m2) = (data (ifAddrs ?m1))[unat y := ?g (data (ifAddrs ?m1) ! unat y)]"
      using y b [of y] Cons by (simp add: data_upd_ifa)
    have "dseg (data (ifAddrs ?m2)) x ?n ys r IfAddrNil"
      unfolding d2 Cons by (rule dseg_set_prev [OF t1 [unfolded Cons]]) (use dist Cons in auto)
    moreover have "dseg (data (ifAddrs ?m2)) IfAddrNil ?h (xs @ [x]) x ?n"
      unfolding d2 by (rule dseg_upd) (use dist Cons \<open>dseg (data (ifAddrs ?m1)) IfAddrNil ?h (xs @ [x]) x ?n\<close> in auto)
    ultimately show ?thesis using dseg_append [of _ _ _ "xs @ [x]" ys] by (metis append.assoc)
  qed (use tl in auto)
  note s' = this
  note p = PutIndex_del [OF m2(1,2), of "(addrMap m)(k := None)"]
  have "if_inv ?m' (ls(unat si := xs @ [x] @ ys))"
  proof (rule if_inv_change [OF inv, where h = ?h])
    fix sj y assume y: "sj < length (headBySwIf m)" "sj \<noteq> unat si" "y \<in> set (ls sj)"
    then have o: "y \<notin> set (ls (unat si))" "unat y \<in> pool_used (ifAddrs m)" using if_invD(3,5) [OF inv y(1)] si by auto
    then have ne: "y \<noteq> x" "y \<noteq> ai" "?n \<noteq> IfAddrNil \<Longrightarrow> y \<noteq> ?n" using l n by auto
    have "data (ifAddrs ?m2) ! unat y = ?d ! unat y"
      using ne b [of x] b [of ?n] n by (auto simp: data_upd_ifa unat_inj)
    then show "ianext (data (ifAddrs ?m') ! unat y) = ianext (?d ! unat y) \<and> iaprev (data (ifAddrs ?m') ! unat y) = iaprev (?d ! unat y)
        \<and> y \<notin> set (xs @ [x] @ ys) \<and> unat y \<in> pool_used (ifAddrs ?m')"
      unfolding p(2,4) m2(4) using o ne l by (simp add: unat_inj)
  next
    show "unat ` set (xs @ [x] @ ys) \<subseteq> pool_used (ifAddrs ?m')"
      unfolding p(2) m2(4) using b dist by (auto simp: unat_inj)
  qed (use p m2 si s' dist P in auto)
  then show ?thesis using r p(7) by blast
qed

text \<open>The address of a prefix on an interface.\<close>

definition if_key :: "ifAddressMain \<Rightarrow> Si \<Rightarrow> ip_Prefix \<Rightarrow> u8 list \<times> FibIndex" where
  "if_key m si p = makeIfAddrMapKey (pAddress p) (the (FibIndexForSi (ifFib m) si))"

definition known_si :: "ifAddressMain \<Rightarrow> Si \<Rightarrow> bool" where
  "known_si m si \<longleftrightarrow> unat si < length (headBySwIf m) \<and> unat si < length (fibIndexBySi (ifFib m))"

lemma FibIndexForSi_known: "known_si m si \<Longrightarrow> FibIndexForSi (ifFib m) si = Some (fibIndexBySi (ifFib m) ! unat si)"
  by (simp add: known_si_def FibIndexForSi_def fibIndexForSi_def Let_def)

text \<open>C28: Adding a new address puts it in front of the list of its interface and into the map, and changes no other list;
  all lists stay doubly linked, disjoint and made of allocated addresses.\<close>

theorem add_interface_address:
  assumes "if_inv m ls" "known_si m si" "plen (ifAddrs m) < 2 ^ 32 - 1" "\<forall>l. l \<le> nc l" "addrMap m (if_key m si p) = None"
  shows "\<exists>ai m'. AddDelInterfaceAddress nc m si p False = Some ((ai, False, False), m') \<and>
     if_inv m' (ls(unat si := ai # ls (unat si))) \<and> addrMap m' = (addrMap m)(if_key m si p \<mapsto> ai) \<and>
     (\<exists>a. GetIfAddress m' (pAddress p) (the (FibIndexForSi (ifFib m) si)) = Some (Some a) \<and> iaPrefix a = p \<and> iaSi a = si)"
proof -
  have si: "unat si < length (headBySwIf m)" using assms(2) by (simp add: known_si_def)
  obtain ai m' where a: "add_addr nc m si p (if_key m si p) = Some (ai, m')" "if_inv m' (ls(unat si := ai # ls (unat si)))"
    "iaPrefix (data (ifAddrs m') ! unat ai) = p" "iaSi (data (ifAddrs m') ! unat ai) = si" "addrMap m' = (addrMap m)(if_key m si p \<mapsto> ai)"
    and h: "unat si < length (headBySwIf m')"
    using add_addr_ok [OF assms(1) si assms(3,4), of p "if_key m si p"] si by metis
  have "unat ai < plen (ifAddrs m')" using if_invD(4) [OF a(2) h, of ai] by simp
  then have g: "GetIfAddr m' ai = Some (data (ifAddrs m') ! unat ai)" using if_inv_pool [OF a(2)] by (simp add: GetIfAddr_in)
  have "AddDelInterfaceAddress nc m si p False = Some ((ai, False, False), m')"
    using a(1) assms(5) FibIndexForSi_known [OF assms(2)] by (simp add: AddDelInterfaceAddress_def if_key_def Let_def)
  moreover have "GetIfAddress m' (pAddress p) (the (FibIndexForSi (ifFib m) si)) = Some (Some (data (ifAddrs m') ! unat ai))"
    using a(5) g by (simp add: GetIfAddress_def if_key_def)
  ultimately show ?thesis by (intro exI [of _ ai] exI [of _ m'] conjI a(2,5) exI [of _ "data (ifAddrs m') ! unat ai"]) (use a(3,4) in simp_all)
qed

text \<open>C29: Deleting an address that is not the first of its interface unlinks exactly it. Deleting the first one empties the
  list of the interface, whatever else was on it, although the map still knows the other addresses.\<close>

theorem delete_interface_address:
  assumes "if_inv m ls" "known_si m si" "addrMap m (if_key m si p) = Some ai" "ai \<in> set (ls (unat si))"
  shows "\<exists>m'. AddDelInterfaceAddress nc m si p True = Some ((IfAddrNil, True, False), m') \<and>
     if_inv m' (ls(unat si := if hd (ls (unat si)) = ai then [] else remove1 ai (ls (unat si)))) \<and>
     addrMap m' = (addrMap m)(if_key m si p := None)"
proof -
  have si: "unat si < length (headBySwIf m)" using assms(2) by (simp add: known_si_def)
  obtain xs ys where l: "ls (unat si) = xs @ ai # ys" "ai \<notin> set xs" using split_list_first [OF assms(4)] by blast
  have "\<exists>m'. del_addr m si (if_key m si p) ai = Some m' \<and> if_inv m' (ls(unat si := if hd (ls (unat si)) = ai then [] else remove1 ai (ls (unat si)))) \<and>
      addrMap m' = (addrMap m)(if_key m si p := None)"
  proof (cases xs rule: rev_cases)
    case Nil
    then show ?thesis using del_addr_head [OF assms(1) si] l by auto
  next
    case (snoc zs z)
    then have "hd (ls (unat si)) \<noteq> ai" "remove1 ai (ls (unat si)) = zs @ [z] @ ys"
      using l by (cases zs; auto simp: remove1_append)+
    then show ?thesis using del_addr_inner [OF assms(1) si, of zs z ai ys] l snoc by auto
  qed
  then show ?thesis using assms(3) FibIndexForSi_known [OF assms(2)]
    by (auto simp: AddDelInterfaceAddress_def if_key_def Let_def)
qed

subsection \<open>Prefixes\<close>

text \<open>Bit \<open>i\<close> of an address, from the front, and agreement on the first \<open>n\<close> bits.\<close>

definition addr_bit :: "u8 list \<Rightarrow> nat \<Rightarrow> bool" where
  "addr_bit a i = bit (a ! (i div 8)) (7 - i mod 8)"

definition same_front :: "nat \<Rightarrow> u8 list \<Rightarrow> u8 list \<Rightarrow> bool" where
  "same_front n a b \<longleftrightarrow> (\<forall>i < n. addr_bit a i = addr_bit b i)"

lemma byte_mask_bit:
  assumes "k < 8" "0 < n"
  shows "bit (byte_mask n) k \<longleftrightarrow> 8 - k \<le> n"
proof -
  have m: "push_bit j 1 - 1 = (mask j :: u8)" for j by (simp add: mask_eq_exp_minus_1 push_bit_of_1)
  have f: "(0xff :: u8) = mask 8" by (simp add: mask_eq_exp_minus_1)
  show ?thesis using assms unfolding byte_mask_def m f by (auto simp: bit_simps)
qed

lemma masked_eq:
  assumes "0 < n"
  shows "x AND byte_mask n = y AND byte_mask n \<longleftrightarrow> (\<forall>i < min 8 n. bit x (7 - i) = bit y (7 - i))"
proof -
  have "x AND byte_mask n = y AND byte_mask n \<longleftrightarrow> (\<forall>k < 8. 8 - k \<le> n \<longrightarrow> bit x k = bit y k)"
    using byte_mask_bit [OF _ assms] by (auto simp: bit_eq_iff bit_simps)
  also have "\<dots> \<longleftrightarrow> (\<forall>i < min 8 n. bit x (7 - i) = bit y (7 - i))"
  proof
    assume *: "\<forall>i < min 8 n. bit x (7 - i) = bit y (7 - i)"
    have "bit x k = bit y k" if "k < 8" "8 - k \<le> n" for k
    proof -
      have "7 - k < min 8 n" "7 - (7 - k) = k" using that by auto
      then show ?thesis using * by metis
    qed
    then show "\<forall>k < 8. 8 - k \<le> n \<longrightarrow> bit x k = bit y k" by blast
  qed auto
  finally show ?thesis .
qed

lemma all_split: "(\<forall>j < n. P j) \<longleftrightarrow> (\<forall>j < min 8 n. P j) \<and> (\<forall>j < n - 8. P (8 + j))" for n :: nat
  by (auto simp: less_diff_conv) (metis add.commute less_diff_conv linorder_not_less le_add_diff_inverse min_less_iff_conj)

lemma more_loop_eq:
  "i + (n + 7) div 8 \<le> length p \<Longrightarrow> i + (n + 7) div 8 \<le> length q \<Longrightarrow>
    more_loop p q i n ok = Some (if n = 0 then ok else \<forall>j < n. addr_bit p (8 * i + j) = addr_bit q (8 * i + j))"
proof (induction p q i n ok rule: more_loop.induct)
  case (1 p q i n ok)
  show ?case
  proof (cases "n = 0")
    case True
    then show ?thesis by (simp add: more_loop.simps)
  next
    case False
    have "Suc ((n - 8 + 7) div 8) \<le> (n + 7) div 8" using False by presburger
    then have len: "i < length p" "i < length q" "i + 1 + (n - 8 + 7) div 8 \<le> length p" "i + 1 + (n - 8 + 7) div 8 \<le> length q"
      using "1.prems" by linarith+
    let ?ok = "p ! i AND byte_mask n = q ! i AND byte_mask n"
    have here: "?ok \<longleftrightarrow> (\<forall>j < min 8 n. addr_bit p (8 * i + j) = addr_bit q (8 * i + j))"
      using False by (simp add: masked_eq addr_bit_def)
    have split: "(\<forall>j < n. addr_bit p (8 * i + j) = addr_bit q (8 * i + j)) \<longleftrightarrow>
        ?ok \<and> (\<forall>j < n - 8. addr_bit p (8 * (i + 1) + j) = addr_bit q (8 * (i + 1) + j))"
      unfolding here by (subst all_split) (simp add: algebra_simps)
    have "?ok \<Longrightarrow> more_loop p q (i + 1) (n - 8) ?ok =
        Some (if n - 8 = 0 then ?ok else \<forall>j < n - 8. addr_bit p (8 * (i + 1) + j) = addr_bit q (8 * (i + 1) + j))"
      by (rule "1.IH" [OF False _ _ refl]) (use len in auto)
    then have "?ok \<Longrightarrow> more_loop p q (i + 1) (n - 8) True =
        Some (\<forall>j < n - 8. addr_bit p (8 * (i + 1) + j) = addr_bit q (8 * (i + 1) + j))"
      by (cases "n - 8 = 0") simp_all
    moreover have "more_loop p q i n ok = (if ?ok then more_loop p q (i + 1) (n - 8) True else Some False)"
      using False len by (subst more_loop.simps) (simp add: Let_def)
    ultimately show ?thesis using False split by (cases ?ok) auto
  qed
qed

text \<open>A prefix is found more specific than another exactly when it is longer and agrees with it on the bits of the other,
  except that nothing is found more specific than the default prefix.\<close>

theorem IsMoreSpecific_iff:
  assumes "length (pAddress p) = 16" "length (pAddress q) = 16" "pLen q \<le> 128"
  shows "IsMoreSpecific p q = Some (pLen q < pLen p \<and> pLen q \<noteq> 0 \<and> same_front (unat (pLen q)) (pAddress p) (pAddress q))"
proof -
  have "unat (pLen q) \<le> 128" using assms(3) by (simp add: word_le_nat_alt)
  then have "(unat (pLen q) + 7) div 8 \<le> 16" by simp
  then show ?thesis using more_loop_eq [of 0 "unat (pLen q)" "pAddress p" "pAddress q" False] assms(1,2)
    by (auto simp: IsMoreSpecific_def same_front_def unat_eq_0 not_le)
qed

subsection \<open>The theorems at concrete inputs\<close>

definition two_prefix :: "u8 \<Rightarrow> ip_Prefix" where
  "two_prefix x = \<lparr>pAddress = [10, 0, 0, x] @ replicate 12 0, pLen = 24\<rparr>"

definition one_if :: ifAddressMain where
  "one_if = \<lparr>ifFib = \<lparr>fibIndexBySi = [0], nameByIndex = [], fibIndexById = Map.empty\<rparr>, ifAddrs = new_pool,
     addrMap = Map.empty, headBySwIf = [IfAddrNil]\<rparr>"

definition two_addrs :: ifAddressMain where
  "two_addrs = one_if\<lparr>
     ifAddrs := new_pool\<lparr>arr := [\<lparr>iaPrefix = two_prefix 1, iaSi = 0, NeighborProbeAdj = AdjNil, ianext = IfAddrNil, iaprev = 1\<rparr>,
        \<lparr>iaPrefix = two_prefix 2, iaSi = 0, NeighborProbeAdj = AdjNil, ianext = 0, iaprev = IfAddrNil\<rparr>], plen := 2\<rparr>,
     addrMap := [if_key one_if 0 (two_prefix 1) \<mapsto> 0, if_key one_if 0 (two_prefix 2) \<mapsto> 1], headBySwIf := [1]\<rparr>"

lemma one_if_inv: "if_inv one_if (\<lambda>_. [])" "known_si one_if 0"
  using new_pool_inv by (auto simp: if_inv_def if_list_def one_if_def known_si_def new_pool_def)

lemma two_keys: "if_key two_addrs 0 p = if_key one_if 0 p" "if_key one_if 0 (two_prefix 1) \<noteq> if_key one_if 0 (two_prefix 2)"
  by (simp_all add: two_addrs_def if_key_def makeIfAddrMapKey_def two_prefix_def)

lemma two_addrs_inv: "if_inv two_addrs (\<lambda>_. [1, 0])" "known_si two_addrs 0"
  by (auto simp: if_inv_def if_list_def two_addrs_def one_if_def known_si_def new_pool_def data_def pool_inv_def pool_used_def
      IfAddrNil_def less_Suc_eq)

theorem add_interface_address_witness:
  "\<exists>ai m'. AddDelInterfaceAddress (\<lambda>l. l) one_if 0 (two_prefix 1) False = Some ((ai, False, False), m') \<and>
     if_inv m' ((\<lambda>_. [])(0 := [ai]))"
  using add_interface_address [OF one_if_inv, of "\<lambda>l. l" "two_prefix 1"]
  by (auto simp: one_if_def new_pool_def)

theorem delete_interface_address_witness:
  "\<exists>m'. AddDelInterfaceAddress (\<lambda>l. l) two_addrs 0 (two_prefix 2) True = Some ((IfAddrNil, True, False), m') \<and>
     if_inv m' ((\<lambda>_. [1, 0])(0 := [])) \<and> addrMap m' (if_key two_addrs 0 (two_prefix 1)) = Some 0"
proof -
  have "addrMap two_addrs (if_key two_addrs 0 (two_prefix 2)) = Some 1" "addrMap two_addrs (if_key two_addrs 0 (two_prefix 1)) = Some 0"
    using two_keys by (auto simp: two_addrs_def)
  then show ?thesis
    using delete_interface_address [OF two_addrs_inv, of "two_prefix 2" 1 "\<lambda>l. l"] two_keys by auto
qed

theorem IsMoreSpecific_iff_witness:
  "IsMoreSpecific (two_prefix 1) \<lparr>pAddress = replicate 16 0, pLen = 0\<rparr> = Some False"
  using IsMoreSpecific_iff [of "two_prefix 1" "\<lparr>pAddress = replicate 16 0, pLen = 0\<rparr>"] by (simp add: two_prefix_def)

end
