(* ===== verification/Eeprom.thy ===== *)
theory Eeprom
  imports Go_Prelude "HOL-Library.Sublist"
begin

section \<open>The board's EEPROM: internal/eeprom\<close>

text \<open>
  The EEPROM is an array of bytes with 16-bit addresses, behind a bus that neither fails nor loses writes: \<open>getByte\<close>
  and \<open>setByte\<close> are a read and a write of it. It holds a header, a length and a sequence of fields of a type, a length
  and a value. A slice of a slice may reach past its length up to the capacity: \<open>slice\<close> keeps what lies behind.
\<close>

type_synonym prom = "u16 \<Rightarrow> u8"

subsection \<open>Fields\<close>

record fields =
  ONIEData :: "u8 list"
  ONIEDataVersion :: u8
  ProductName :: "u8 list"
  PlatformName :: "u8 list"
  Manufacturer :: "u8 list"
  Vendor :: "u8 list"
  PartNumber :: "u8 list"
  SerialNumber :: "u8 list"
  DeviceVersion :: u8
  ManufactureDate :: "u8 list"
  CountryCode :: "u8 list"
  DiagVersion :: "u8 list"
  ServiceTag :: "u8 list"
  VendorExtension :: "u8 list"
  ONIEVersion :: "u8 list"
  BaseEthernetAddress :: "u8 list"
  NEthernetAddress :: u64
  CRC32 :: u64
  ChassisType :: u8
  BoardType :: u8
  SubType :: u8
  PcbaPartNumber :: "u8 list"
  Tor1MainPcbaSerialNumber :: "u8 list"
  Tor1CpuPcbaSerialNumber :: "u8 list"
  Tor1FanPcbaSerialNumber :: "u8 list"

record Device =
  prom :: prom
  Fields :: fields
  rawData :: "u8 list"

definition ONIEId :: "u8 list" where
  "ONIEId = str ''TlvInfo'' @ [0]"

definition ONIEVer :: u8 where "ONIEVer = 1"
definition lengthOffset :: nat where "lengthOffset = 9"

definition getByte :: "Device \<Rightarrow> nat \<Rightarrow> u8" where
  "getByte d i = prom d (of_nat i)"

definition setByte :: "u16 \<Rightarrow> u8 \<Rightarrow> Device \<Rightarrow> Device" where
  "setByte a v d = d\<lparr>prom := (prom d)(a := v)\<rparr>"

definition getUint16 :: "Device \<Rightarrow> nat \<Rightarrow> nat" where
  "getUint16 d i = unat (getByte d i) * 256 + unat (getByte d (i + 1))"

subsection \<open>Reading the fields\<close>

text \<open>The values inside a vendor extension, from index \<open>j\<close>.\<close>

definition ext_field :: "u8 \<Rightarrow> slice \<Rightarrow> fields \<Rightarrow> fields option" where
  "ext_field t ev f = (
     if t = 0x50 then map_option (\<lambda>x. f\<lparr>ChassisType := x\<rparr>) (sindex ev 0)
     else if t = 0x51 then map_option (\<lambda>x. f\<lparr>BoardType := x\<rparr>) (sindex ev 0)
     else if t = 0x52 then map_option (\<lambda>x. f\<lparr>SubType := x\<rparr>) (sindex ev 0)
     else if t = 0x53 then Some (f\<lparr>PcbaPartNumber := sbytes ev\<rparr>)
     else if t = 0x54 then do {
       s \<leftarrow> reslice ev 0 3;
       if sbytes s = str ''cpu'' then Some (f\<lparr>Tor1CpuPcbaSerialNumber := sbytes ev\<rparr>)
       else if sbytes s = str ''fan'' then Some (f\<lparr>Tor1FanPcbaSerialNumber := sbytes ev\<rparr>)
       else do {
         s \<leftarrow> reslice ev 0 4;
         if sbytes s = str ''main'' then Some (f\<lparr>Tor1MainPcbaSerialNumber := sbytes ev\<rparr>) else Some f } }
     else Some f)"

function ext_loop :: "slice \<Rightarrow> nat \<Rightarrow> fields \<Rightarrow> fields option" where
  "ext_loop v j f = (if j < slen v then do {
     etlv \<leftarrow> sindex v j;
     etlen \<leftarrow> map_option unat (sindex v (j + 1));
     ev \<leftarrow> reslice v (j + 2) (j + 2 + etlen);
     f \<leftarrow> ext_field etlv ev f;
     ext_loop v (j + (2 + etlen)) f }
   else Some f)"
  by pat_completeness auto
termination by (relation "measure (\<lambda>(v, j, f). slen v - j)") auto

declare ext_loop.simps [simp del]

text \<open>\<open>copy\<close> into an array keeps its length.\<close>

definition copy_into :: "u8 list \<Rightarrow> u8 list \<Rightarrow> u8 list" where
  "copy_into d s = take (length d) s @ drop (length s) d"

definition be_number :: "slice \<Rightarrow> nat \<Rightarrow> u64 option" where
  "be_number v n = foldl (\<lambda>r i. do { r \<leftarrow> r; x \<leftarrow> sindex v i; Some (push_bit 8 r OR ucast x) }) (Some 0) [0..<n]"

definition get_field :: "u8 \<Rightarrow> slice \<Rightarrow> fields \<Rightarrow> fields option" where
  "get_field tlv v f = (
     if tlv = 0x21 then Some (f\<lparr>ProductName := sbytes v\<rparr>)
     else if tlv = 0x22 then Some (f\<lparr>PartNumber := sbytes v\<rparr>)
     else if tlv = 0x23 then Some (f\<lparr>SerialNumber := sbytes v\<rparr>)
     else if tlv = 0x24 then Some (f\<lparr>BaseEthernetAddress := copy_into (BaseEthernetAddress f) (sbytes v)\<rparr>)
     else if tlv = 0x2a then map_option (\<lambda>x. f\<lparr>NEthernetAddress := x\<rparr>) (be_number v 2)
     else if tlv = 0x25 then Some (f\<lparr>ManufactureDate := sbytes v\<rparr>)
     else if tlv = 0x26 then map_option (\<lambda>x. f\<lparr>DeviceVersion := x\<rparr>) (sindex v 0)
     else if tlv = 0x27 then Some f
     else if tlv = 0x28 then Some (f\<lparr>PlatformName := sbytes v\<rparr>)
     else if tlv = 0x29 then Some (f\<lparr>ONIEVersion := sbytes v\<rparr>)
     else if tlv = 0x2b then Some (f\<lparr>Manufacturer := sbytes v\<rparr>)
     else if tlv = 0x2c then Some (f\<lparr>CountryCode := sbytes v\<rparr>)
     else if tlv = 0x2d then Some (f\<lparr>Vendor := sbytes v\<rparr>)
     else if tlv = 0x2e then Some (f\<lparr>DiagVersion := sbytes v\<rparr>)
     else if tlv = 0x2f then Some (f\<lparr>ServiceTag := sbytes v\<rparr>)
     else if tlv = 0xfd then do {
       f \<leftarrow> (if DeviceVersion f \<noteq> 0 \<and> DeviceVersion f \<noteq> 0xff then ext_loop v 4 f else Some f);
       Some (f\<lparr>VendorExtension := sbytes v\<rparr>) }
     else if tlv = 0xfe then map_option (\<lambda>x. f\<lparr>CRC32 := x\<rparr>) (be_number v 4)
     else Some f)"

text \<open>The loop over the raw data up to the length read; a field may start before it and end behind it.\<close>

function field_loop :: "slice \<Rightarrow> nat \<Rightarrow> nat \<Rightarrow> fields \<Rightarrow> fields option" where
  "field_loop raw dataLen i f = (if i < dataLen then do {
     tlv \<leftarrow> sindex raw i;
     tlen \<leftarrow> map_option unat (sindex raw (i + 1));
     v \<leftarrow> reslice raw (i + 2) (i + 2 + tlen);
     f \<leftarrow> get_field tlv v f;
     field_loop raw dataLen (i + (2 + tlen)) f }
   else Some f)"
  by pat_completeness auto
termination by (relation "measure (\<lambda>(r, n, i, f). n - i)") auto

declare field_loop.simps [simp del]

text \<open>\<open>extra\<close> is the capacity the appended raw data has behind its length. A panic is recovered by \<open>GetInfo\<close>, which
  leaves what was done; the fields stored before it are not modelled.\<close>

definition getInfo :: "nat \<Rightarrow> Device \<Rightarrow> Device option" where
  "getInfo extra d = do {
     let f = (Fields d)\<lparr>ONIEData := map (getByte d) [0..<8], ONIEDataVersion := getByte d 8\<rparr>;
     let dataLen = getUint16 d 9;
     let raw = rawData d @ map (\<lambda>j. getByte d (11 + j)) [0..<dataLen];
     f \<leftarrow> field_loop (Slice (raw @ replicate extra 0) (length raw)) dataLen 0 f;
     Some (d\<lparr>Fields := f, rawData := raw\<rparr>) }"

subsection \<open>Writing\<close>

text \<open>The comparison with the identifier, which reads the bytes into the fields as far as they agree.\<close>

fun check_id :: "Device \<Rightarrow> nat list \<Rightarrow> bool \<times> Device" where
  "check_id d [] = (True, d)"
| "check_id d (i # is) = (let d = d\<lparr>Fields := (Fields d)\<lparr>ONIEData := (ONIEData (Fields d))[i := getByte d i]\<rparr>\<rparr> in
     if getByte d i \<noteq> ONIEId ! i then (False, d) else check_id d is)"

definition DumpProm :: "Device \<Rightarrow> (bool \<times> u8 list) \<times> Device" where
  "DumpProm d = (let (ok, d) = check_id d [0..<8] in
     if \<not> ok then ((False, rawData d), d)
     else ((True, map (getByte d) [0..<getUint16 d lengthOffset + 11]), d))"

definition crc_bit :: "u32 \<Rightarrow> u32" where
  "crc_bit c = (if c AND 1 = 1 then drop_bit 1 c XOR 0xEDB88320 else drop_bit 1 c)"

definition ChecksumIEEE :: "u8 list \<Rightarrow> u32" where
  "ChecksumIEEE bs = NOT (foldl (\<lambda>c b. (crc_bit ^^ 8) (c XOR ucast b)) (NOT 0) bs)"

definition CalcCrc :: "Device \<Rightarrow> string \<times> Device" where
  "CalcCrc d = (let (ok, d) = check_id d [0..<8] in
     if \<not> ok then (''Invalid: EEPROM not in ONIE format'', d)
     else let ((_, raw), d) = DumpProm d; l = (of_nat (length raw) :: u16);
         checksum = ChecksumIEEE (take (unat (l - 4)) raw);
         d = setByte (l - 4) (ucast (drop_bit 24 checksum)) d;
         d = setByte (l - 3) (ucast (drop_bit 16 checksum)) d;
         d = setByte (l - 2) (ucast (drop_bit 8 checksum)) d;
         d = setByte (l - 1) (ucast checksum) d
       in (''crc update complete'', d))"

text \<open>\<open>strconv.ParseUint\<close> in base 16 with 64 bits: the value, and whether there is no error.\<close>

definition hex_digit :: "char \<Rightarrow> nat option" where
  "hex_digit c = (if c \<in> set ''0123456789'' then Some (of_char c - 48)
     else if c \<in> set ''abcdef'' then Some (of_char c - 87)
     else if c \<in> set ''ABCDEF'' then Some (of_char c - 55) else None)"

fun hex_loop :: "nat \<Rightarrow> string \<Rightarrow> nat \<times> bool" where
  "hex_loop n [] = (n, True)"
| "hex_loop n (c # cs) = (case hex_digit c of None \<Rightarrow> (0, False)
     | Some k \<Rightarrow> if 2 ^ 64 \<le> 16 * n + k then (2 ^ 64 - 1, False) else hex_loop (16 * n + k) cs)"

definition ParseHex :: "string \<Rightarrow> nat \<times> bool" where
  "ParseHex s = (if s = [] then (0, False) else hex_loop 0 s)"

function find_field :: "u8 list \<Rightarrow> u8 \<Rightarrow> nat \<Rightarrow> (nat \<times> nat) option option" where
  "find_field raw t i = (if i < length raw then do {
     tlv \<leftarrow> slice_get raw i;
     tlen \<leftarrow> map_option unat (slice_get raw (i + 1));
     if tlv = t then Some (Some (i, tlen)) else find_field raw t (i + (2 + tlen)) }
   else Some None)"
  by pat_completeness auto
termination by (relation "measure (\<lambda>(r, t, i). length r - i)") auto

declare find_field.simps [simp del]

text \<open>The loop that moves the remaining bytes: \<open>len(rawData) - 2 - tlen\<close> is unsigned, so for a field that reaches past the
  end it wraps and the index is out of range.\<close>

definition DeleteField :: "string \<Rightarrow> Device \<Rightarrow> (string \<times> Device) option" where
  "DeleteField n d = (if n = ''fe'' then Some (''Invalid: crc delete not allowed'', d)
     else let ((r, raw), d) = DumpProm d in
     if \<not> r then Some (''Invalid: EEPROM not in ONIE format'', d)
     else do {
       let t = fst (ParseHex n);
       let dataLen = getUint16 d lengthOffset;
       found \<leftarrow> find_field raw (of_nat t) 11;
       case found of None \<Rightarrow> Some (''field not found'', d)
       | Some (i, tlen) \<Rightarrow>
           if length raw < 2 + tlen then None
           else
             let d = fold (\<lambda>j. setByte (of_nat j) (raw ! (j + 2 + tlen))) [i..<length raw - 2 - tlen] d;
                 dataLen = (of_nat dataLen :: u64) - of_nat (tlen + 2);
                 d = setByte 9 (ucast (drop_bit 8 dataLen)) d;
                 d = setByte 10 (ucast dataLen) d
             in Some (''first matching field deleted'', d) })"

definition AddCrc :: "Device \<Rightarrow> string \<times> Device" where
  "AddCrc d = (let dataLen = getUint16 d lengthOffset;
     d = setByte (of_nat lengthOffset) (of_nat ((dataLen + 6) div 256)) d;
     d = setByte (of_nat (lengthOffset + 1)) (of_nat (dataLen + 6)) d;
     d = setByte (of_nat (dataLen + 11)) 0xfe d;
     d = setByte (of_nat (dataLen + 12)) 4 d;
     d = setByte (of_nat (dataLen + 13)) 0 d;
     d = setByte (of_nat (dataLen + 14)) 0 d;
     d = setByte (of_nat (dataLen + 15)) 0 d;
     d = setByte (of_nat (dataLen + 16)) 0 d
   in (''crc field added'', d))"

definition CopyAll :: "u8 list \<Rightarrow> Device \<Rightarrow> string \<times> Device" where
  "CopyAll raw d = (''copy complete'', fold (\<lambda>j. setByte (of_nat j) (raw ! j)) [0..<length raw] d)"

text \<open>Writing a field in the place of the checksum. The count and the low part of the address are bytes.\<close>

definition write_tlv :: "u8 \<Rightarrow> u8 list \<Rightarrow> Device \<Rightarrow> Device" where
  "write_tlv t v d = (let dataLen = getUint16 d lengthOffset; o' = (of_nat (dataLen + 11 - 6) :: u16);
     n = (of_nat (length v) :: u8);
     d = setByte o' t d;
     d = setByte (o' + 1) n d;
     d = fold (\<lambda>i. setByte (ucast ((of_nat i :: u8) + ucast (o' + 2))) (v ! i)) [0..<unat n] d;
     newLength = (of_nat (dataLen + length v + 2) :: u16);
     d = setByte (of_nat lengthOffset) (ucast (drop_bit 8 newLength)) d;
     d = setByte (of_nat (lengthOffset + 1)) (ucast newLength) d;
     d = setByte (newLength + 11 - 6) 0xfe d;
     d = setByte (newLength + 11 - 5) 4 d;
     d = setByte (newLength + 11 - 4) 0 d;
     d = setByte (newLength + 11 - 3) 0 d;
     d = setByte (newLength + 11 - 2) 0 d
   in setByte (newLength + 11 - 1) 0 d)"

definition field_types :: "u8 list" where
  "field_types = [0x21, 0x22, 0x23, 0x24, 0x25, 0x26, 0x27, 0x28, 0x29, 0x2a, 0x2b, 0x2c, 0x2d, 0x2e, 0x2f, 0xfd]"

definition WriteField :: "string \<Rightarrow> u8 list \<Rightarrow> Device \<Rightarrow> (string \<times> Device) option" where
  "WriteField n v d = (
     if sublist ''onie'' n then
       Some (''onie header written'', fold (\<lambda>(i, x). setByte (of_nat i) x)
         (enumerate 0 (ONIEId @ [ONIEVer, 0, 6, 0xfe, 4, 0, 0, 0, 0])) d)
     else if sublist ''length'' n then do {
       x \<leftarrow> slice_get v 0;
       let d = setByte 9 x d;
       y \<leftarrow> slice_get v 1;
       Some (''length written'', setByte 10 y d) }
     else let (ok, d) = check_id d [0..<8] in
       if \<not> ok then Some (''Invalid: EEPROM not in ONIE format'', d)
       else let (t, ok) = ParseHex n in
         if ok then
           if of_nat t \<in> set field_types then Some (''write complete. run diag prom crc'', write_tlv (of_nat t) v d)
           else Some (''Invalid: field not recognized'', d)
         else Some (''Invalid or incomplete arguments'', d))"

subsection \<open>What the EEPROM holds\<close>

definition holds :: "prom \<Rightarrow> nat \<Rightarrow> u8 list \<Rightarrow> bool" where
  "holds m a bs \<longleftrightarrow> (\<forall>i < length bs. m (of_nat (a + i)) = bs ! i)"

definition enc :: "u8 \<times> u8 list \<Rightarrow> u8 list" where
  "enc tv = fst tv # of_nat (length (snd tv)) # snd tv"

definition body :: "(u8 \<times> u8 list) list \<Rightarrow> u8 list" where
  "body fs = concat (map enc fs)"

text \<open>A well-formed image: the header with the length of what follows, the fields, and a checksum field.\<close>

definition prom_image :: "u8 \<Rightarrow> (u8 \<times> u8 list) list \<Rightarrow> u8 list \<Rightarrow> u8 list" where
  "prom_image ver fs c = ONIEId @ [ver, of_nat ((length (body fs) + 6) div 256), of_nat (length (body fs) + 6)] @ body fs @ [0xfe, 4] @ c"

definition stored :: "Device \<Rightarrow> u8 \<Rightarrow> (u8 \<times> u8 list) list \<Rightarrow> u8 list \<Rightarrow> bool" where
  "stored d ver fs c \<longleftrightarrow> holds (prom d) 0 (prom_image ver fs c) \<and> length c = 4 \<and> list_all (\<lambda>tv. length (snd tv) < 256) fs \<and>
     length (prom_image ver fs c) < 65536"

lemma prom_setByte [simp]: "prom (setByte a v d) = (prom d)(a := v)" "Fields (setByte a v d) = Fields d" "rawData (setByte a v d) = rawData d"
  by (simp_all add: setByte_def)

lemma fold_setByte_out: "x \<notin> h ` set is \<Longrightarrow> prom (fold (\<lambda>i. setByte (h i) (g i)) is d) x = prom d x"
  by (induction "is" arbitrary: d) auto

lemma fold_setByte_in: "i \<in> set is \<Longrightarrow> inj_on h (set is) \<Longrightarrow> prom (fold (\<lambda>i. setByte (h i) (g i)) is d) (h i) = g i"
proof (induction "is" arbitrary: d)
  case (Cons j "is")
  show ?case
  proof (cases "i \<in> set is")
    case True
    then show ?thesis using Cons by (simp add: inj_on_subset)
  next
    case False
    then have "i = j" "h i \<notin> h ` set is" using Cons.prems by (auto simp: inj_on_def)
    then show ?thesis by (simp add: fold_setByte_out)
  qed
qed simp

lemma fold_setByte_rest [simp]:
  "Fields (fold (\<lambda>i. setByte (h i) (g i)) is d) = Fields d" "rawData (fold (\<lambda>i. setByte (h i) (g i)) is d) = rawData d"
  by (induction "is" arbitrary: d) auto

lemma ONIEId_eq: "ONIEId = [0x54, 0x6c, 0x76, 0x49, 0x6e, 0x66, 0x6f, 0]"
  by (simp add: ONIEId_def str_def of_char_def)

lemma length_ONIEId: "length ONIEId = 8"
  by (simp add: ONIEId_eq)

lemma length_prom_image: "length (prom_image ver fs c) = 13 + length (body fs) + length c"
  by (simp add: prom_image_def ONIEId_eq)

lemma prom_image_tail: "prom_image ver fs c ! (11 + j) = (body fs @ [0xfe, 4] @ c) ! j"
  using nth_append_length_plus [of "ONIEId @ [ver, of_nat ((length (body fs) + 6) div 256), of_nat (length (body fs) + 6)]" "body fs @ [0xfe, 4] @ c" j]
  by (simp add: prom_image_def length_ONIEId)

lemma prom_image_head: "i < 9 \<Longrightarrow> prom_image ver fs c ! i = (ONIEId @ [ver]) ! i"
  using nth_append [of "ONIEId @ [ver]" _ i] by (simp add: prom_image_def length_ONIEId)

lemma prom_image_len: "prom_image ver fs c ! 9 = of_nat ((length (body fs) + 6) div 256)" "prom_image ver fs c ! 10 = of_nat (length (body fs) + 6)"
  by (simp_all add: prom_image_def nth_append length_ONIEId)

lemma check_id_rest: "prom (snd (check_id d is)) = prom d \<and> rawData (snd (check_id d is)) = rawData d"
  by (induction d "is" rule: check_id.induct) (auto simp: Let_def)

lemma check_id_ok: "fst (check_id d is) \<longleftrightarrow> (\<forall>i \<in> set is. getByte d i = ONIEId ! i)"
  by (induction d "is" rule: check_id.induct) (auto simp: Let_def getByte_def)

lemma holdsD: "holds m a bs \<Longrightarrow> i < length bs \<Longrightarrow> m (of_nat (a + i)) = bs ! i"
  by (simp add: holds_def)

lemma stored_header:
  assumes "stored d ver fs c"
  shows "fst (check_id d [0..<8])" "getUint16 d 9 = length (body fs) + 6"
proof -
  let ?L = "length (body fs) + 6"
  have h: "prom d (of_nat i) = prom_image ver fs c ! i" if "i < length (prom_image ver fs c)" for i
    using assms that holdsD [of "prom d" 0 "prom_image ver fs c" i] by (simp add: stored_def)
  have len: "?L < 65536" using assms by (simp add: stored_def length_prom_image)
  have "prom_image ver fs c ! i = ONIEId ! i" if "i < 8" for i
    using that unfolding prom_image_def by (subst nth_append) (simp add: length_ONIEId)
  then show "fst (check_id d [0..<8])" unfolding check_id_ok getByte_def using h by (auto simp: length_prom_image)
  have "prom_image ver fs c ! 9 = of_nat (?L div 256)" "prom_image ver fs c ! 10 = of_nat ?L"
    by (simp_all add: prom_image_def nth_append ONIEId_eq)
  then show "getUint16 d 9 = ?L"
    using h [of 9] h [of 10] len unfolding getUint16_def getByte_def
    by (simp add: length_prom_image unat_of_nat take_bit_eq_mod del: of_nat_add)
qed

lemma DumpProm_stored:
  assumes "stored d ver fs c"
  shows "fst (DumpProm d) = (True, prom_image ver fs c)"
proof -
  have "map (getByte d) [0..<length (prom_image ver fs c)] = prom_image ver fs c"
    using assms by (auto simp: stored_def holds_def getByte_def intro!: nth_equalityI)
  moreover obtain d1 where "check_id d [0..<8] = (True, d1)" using stored_header(1) [OF assms] by (cases "check_id d [0..<8]") auto
  moreover have "prom d1 = prom d" using check_id_rest [of d "[0..<8]"] calculation(2) by simp
  then have "getByte d1 = getByte d" by (simp add: getByte_def fun_eq_iff)
  moreover note \<open>getByte d1 = getByte d\<close>
  moreover have "length (body fs) + 6 + 11 = length (prom_image ver fs c)" using assms by (simp add: stored_def length_prom_image)
  ultimately show ?thesis using stored_header(2) [OF assms]
    by (simp add: DumpProm_def lengthOffset_def getUint16_def)
qed

subsection \<open>Writing a field\<close>

lemma of_nat_u16_eq: "i < 65536 \<Longrightarrow> j < 65536 \<Longrightarrow> (of_nat i = (of_nat j :: u16)) \<longleftrightarrow> i = j"
  by (simp add: of_nat_eq_iff word_of_nat_eq_iff take_bit_nat_eq_self)

lemma byte_address: "a < 256 \<Longrightarrow> (ucast (of_nat a :: u8) :: u16) = of_nat a"
  by (simp add: word_unat_eq_iff unsigned_ucast_eq unat_of_nat take_bit_nat_eq_self)

lemma address_sum: "ucast ((of_nat i :: u8) + ucast (of_nat a :: u16)) = (of_nat ((i + a) mod 256) :: u16)"
proof -
  have "(of_nat i :: u8) + ucast (of_nat a :: u16) = of_nat ((i + a) mod 256)"
    using mod_mod_cancel [of 256 65536 a]
    by (simp add: word_unat_eq_iff unsigned_ucast_eq unat_of_nat unat_word_ariths take_bit_eq_mod mod_simps)
  then show ?thesis by (simp add: byte_address)
qed

lemma high_byte: "ucast (drop_bit 8 (of_nat n :: u16)) = (of_nat (n div 256) :: u8)" if "n < 65536"
  using that by (simp add: word_unat_eq_iff unsigned_ucast_eq unat_of_nat unat_drop_bit_eq take_bit_eq_mod drop_bit_nat_def del: drop_bit_eq_div)

lemma low_byte: "ucast (of_nat n :: u16) = (of_nat n :: u8)"
  by (simp add: word_unat_eq_iff unsigned_ucast_eq unat_of_nat take_bit_eq_mod mod_mod_cancel)

text \<open>The memory after a write, with the addresses of the value still computed in a byte.\<close>

lemma write_tlv_prom:
  assumes "getUint16 d 9 = B + 6" "length v < 256" "B + length v < 60000"
  defines "n \<equiv> length v" and "N \<equiv> B + length v + 8"
  shows "prom (write_tlv t v d) = (let
      m = (prom d)(of_nat (11 + B) := t, of_nat (12 + B) := of_nat n);
      m = prom (fold (\<lambda>i. setByte (of_nat ((i + (13 + B)) mod 256)) (v ! i)) [0..<n] (d\<lparr>prom := m\<rparr>))
    in m(9 := of_nat (N div 256), 10 := of_nat N, of_nat (N + 5) := 0xfe, of_nat (N + 6) := 4, of_nat (N + 7) := 0,
        of_nat (N + 8) := 0, of_nat (N + 9) := 0, of_nat (N + 10) := 0))"
proof -
  have u: "unat (of_nat (length v) :: u8) = n" using assms(2) by (simp add: unat_of_nat take_bit_nat_eq_self n_def)
  have a: "(of_nat (B + 6 + 11 - 6) :: u16) = of_nat (11 + B)" "of_nat (11 + B) + (1 :: u16) = of_nat (12 + B)"
    "of_nat (11 + B) + (2 :: u16) = of_nat (13 + B)" by simp_all
  have N: "B + 6 + length v + 2 = N" by (simp add: N_def)
  have b: "of_nat N + 11 - 6 = (of_nat (N + 5) :: u16)" "of_nat N + 11 - 5 = (of_nat (N + 6) :: u16)" "of_nat N + 11 - 4 = (of_nat (N + 7) :: u16)"
    "of_nat N + 11 - 3 = (of_nat (N + 8) :: u16)" "of_nat N + 11 - 2 = (of_nat (N + 9) :: u16)" "of_nat N + 11 - 1 = (of_nat (N + 10) :: u16)"
    by simp_all
  have "N < 65536" using assms(3) by (simp add: N_def)
  then show ?thesis
    unfolding write_tlv_def lengthOffset_def assms(1) Let_def a u address_sum N b
    unfolding low_byte by (simp add: high_byte setByte_def n_def)
qed

lemma body_append: "body (fs @ [(t, v)]) = body fs @ t # of_nat (length v) # v"
  by (simp add: body_def enc_def)

lemma prom_image_nth:
  fixes fs t v
  defines "B \<equiv> length (body fs)"
  assumes "i < 19 + B + length v" "length c = 4"
  shows "prom_image ver (fs @ [(t, v)]) [0, 0, 0, 0] ! i = (
    if i = 9 then of_nat ((B + length v + 8) div 256) else if i = 10 then of_nat (B + length v + 8)
    else if i < 11 + B then prom_image ver fs c ! i
    else if i = 11 + B then t else if i = 12 + B then of_nat (length v)
    else if i < 13 + B + length v then v ! (i - (13 + B))
    else [0xfe, 4, 0, 0, 0, 0] ! (i - (13 + B + length v)))"
proof -
  define H where "H = ONIEId @ [ver]"
  have H: "length H = 9" by (simp add: H_def length_ONIEId)
  have I: "prom_image ver gs e = (H @ [of_nat ((length (body gs) + 6) div 256), of_nat (length (body gs) + 6)]) @ body gs @ [0xfe, 4] @ e" for gs e
    by (simp add: prom_image_def H_def)
  have N: "length (body (fs @ [(t, v)])) + 6 = B + length v + 8" by (simp add: body_append B_def)
  consider "i < 9" | "i = 9" | "i = 10" | "11 \<le> i" "i < 11 + B" | "i = 11 + B" | "i = 12 + B" | "13 + B \<le> i" "i < 13 + B + length v"
    | "13 + B + length v \<le> i" using assms(2) by linarith
  then show ?thesis unfolding I N by cases (auto simp: nth_append H body_append B_def [symmetric] nth_Cons')
qed

text \<open>A command that names a field.\<close>

definition names_field :: "string \<Rightarrow> u8 \<Rightarrow> bool" where
  "names_field n t \<longleftrightarrow> \<not> sublist ''onie'' n \<and> \<not> sublist ''length'' n \<and> snd (ParseHex n) \<and> of_nat (fst (ParseHex n)) = t \<and>
     t \<in> set field_types"

lemma WriteField_write:
  assumes "stored d ver fs c" "names_field n t"
  obtains d1 where "WriteField n v d = Some (''write complete. run diag prom crc'', write_tlv t v d1)" "prom d1 = prom d"
proof -
  obtain d1 where d1: "check_id d [0..<8] = (True, d1)" using stored_header(1) [OF assms(1)] by (cases "check_id d [0..<8]") auto
  then have "prom d1 = prom d" using check_id_rest [of d "[0..<8]"] by simp
  then show ?thesis using that [of d1] assms(2) d1 by (simp add: WriteField_def names_field_def case_prod_beta)
qed

lemma write_tlv_stored:
  assumes st: "stored d ver fs c" and fit: "length (body fs) + 13 + length v \<le> 256" and d1: "prom d1 = prom d"
  shows "stored (write_tlv t v d1) ver (fs @ [(t, v)]) [0, 0, 0, 0]"
proof -
  let ?B = "length (body fs)" and ?n = "length v"
  let ?m1 = "(prom d)(of_nat (11 + ?B) := t, of_nat (12 + ?B) := of_nat ?n)"
  let ?m2 = "prom (fold (\<lambda>i. setByte (of_nat ((i + (13 + ?B)) mod 256)) (v ! i)) [0..<?n] (d1\<lparr>prom := ?m1\<rparr>))"
  have u: "getUint16 d1 9 = ?B + 6" using stored_header(2) [OF st] d1 by (simp add: getUint16_def getByte_def)
  have c: "length c = 4" using st by (simp add: stored_def)
  have m: "prom (write_tlv t v d1) = ?m2(9 := of_nat ((?B + ?n + 8) div 256), 10 := of_nat (?B + ?n + 8), of_nat (?B + ?n + 8 + 5) := 0xfe, of_nat (?B + ?n + 8 + 6) := 4, of_nat (?B + ?n + 8 + 7) := 0,
      of_nat (?B + ?n + 8 + 8) := 0, of_nat (?B + ?n + 8 + 9) := 0, of_nat (?B + ?n + 8 + 10) := 0)"
    using write_tlv_prom [OF u, of v t] fit d1 unfolding Let_def by simp
  have inj: "inj_on (\<lambda>i. of_nat ((i + (13 + ?B)) mod 256) :: u16) {..<?n}"
    using fit by (auto simp: inj_on_def of_nat_u16_eq)
  have m2: "?m2 (of_nat i) = (if 13 + ?B \<le> i \<and> i < 13 + ?B + ?n then v ! (i - (13 + ?B)) else ?m1 (of_nat i))" if "i < 300" for i
  proof (cases "13 + ?B \<le> i \<and> i < 13 + ?B + ?n")
    case True
    then have "?m2 (of_nat (((i - (13 + ?B)) + (13 + ?B)) mod 256)) = v ! (i - (13 + ?B))"
      by (intro fold_setByte_in) (use inj in \<open>auto simp: atLeast0LessThan\<close>)
    then show ?thesis using True fit by simp
  next
    case False
    have "of_nat i \<notin> (\<lambda>i. of_nat ((i + (13 + ?B)) mod 256) :: u16) ` set [0..<?n]"
    proof
      assume "of_nat i \<in> (\<lambda>i. of_nat ((i + (13 + ?B)) mod 256) :: u16) ` set [0..<?n]"
      then obtain j where "j < ?n" "(of_nat i :: u16) = of_nat ((j + (13 + ?B)) mod 256)" by auto
      moreover have "(j + (13 + ?B)) mod 256 = j + (13 + ?B)" using fit \<open>j < ?n\<close> by simp
      ultimately show False using that fit False of_nat_u16_eq [of i "j + (13 + ?B)"] by (simp del: of_nat_add)
    qed
    from fold_setByte_out [OF this] show ?thesis unfolding if_not_P [OF False] by simp
  qed
  define M where "M = ?m2"
  note m = m [folded M_def] and m2 = m2 [folded M_def]
  have "prom (write_tlv t v d1) (of_nat i) = prom_image ver (fs @ [(t, v)]) [0, 0, 0, 0] ! i" if i: "i < 19 + ?B + ?n" for i
  proof -
    have old: "prom d (of_nat i) = prom_image ver fs c ! i" if "i < 11 + ?B"
      using st that c holdsD [of "prom d" 0 "prom_image ver fs c" i] by (simp add: stored_def length_prom_image)
    have e: "(of_nat i = (of_nat k :: u16)) \<longleftrightarrow> i = k" if "k < 300" for k using that i fit by (simp add: of_nat_u16_eq)
    note e = e [of 9, simplified] e [of 10, simplified] e [of "11 + ?B"] e [of "12 + ?B"] e [of "?B + ?n + 8 + 5"] e [of "?B + ?n + 8 + 6"]
      e [of "?B + ?n + 8 + 7"] e [of "?B + ?n + 8 + 8"] e [of "?B + ?n + 8 + 9"] e [of "?B + ?n + 8 + 10"]
    have m: "prom (write_tlv t v d1) (of_nat i) = (if i = ?B + ?n + 8 + 10 then 0 else if i = ?B + ?n + 8 + 9 then 0 else if i = ?B + ?n + 8 + 8 then 0
        else if i = ?B + ?n + 8 + 7 then 0 else if i = ?B + ?n + 8 + 6 then 4 else if i = ?B + ?n + 8 + 5 then 0xfe
        else if i = 10 then of_nat (?B + ?n + 8) else if i = 9 then of_nat ((?B + ?n + 8) div 256)
        else if 13 + ?B \<le> i \<and> i < 13 + ?B + ?n then v ! (i - (13 + ?B)) else if i = 12 + ?B then of_nat ?n else if i = 11 + ?B then t else prom d (of_nat i))"
      unfolding m fun_upd_apply using e m2 [of i] i fit by (simp only: e m2 fun_upd_apply)
    have "i < 9 \<or> i = 9 \<or> i = 10 \<or> 11 \<le> i \<and> i < 11 + ?B \<or> i = 11 + ?B \<or> i = 12 + ?B \<or> 13 + ?B \<le> i \<and> i < 13 + ?B + ?n \<or> i = 13 + ?B + ?n
        \<or> i = 14 + ?B + ?n \<or> i = 15 + ?B + ?n \<or> i = 16 + ?B + ?n \<or> i = 17 + ?B + ?n \<or> i = 18 + ?B + ?n" using i by presburger
    then show ?thesis unfolding prom_image_nth [OF i c] m
      by (elim disjE conjE) (simp_all add: old)
  qed
  then show ?thesis using st fit by (auto simp: stored_def holds_def length_prom_image body_append)
qed

text \<open>C30: Writing a field whose value ends below address 256 appends it to the fields of a well-formed image, with the length
  updated and an empty checksum behind it.\<close>

theorem WriteField_appends:
  assumes "stored d ver fs c" "names_field n t" "length (body fs) + 13 + length v \<le> 256"
  shows "\<exists>d'. WriteField n v d = Some (''write complete. run diag prom crc'', d') \<and> stored d' ver (fs @ [(t, v)]) [0, 0, 0, 0]"
  using WriteField_write [OF assms(1,2), of v] write_tlv_stored [OF assms(1,3)] by metis


subsection \<open>Reading the fields back\<close>

text \<open>The types whose value is a text, the field each is kept in, and the last text given for a type.\<close>

definition text_types :: "u8 list" where
  "text_types = [0x21, 0x22, 0x23, 0x25, 0x28, 0x29, 0x2b, 0x2c, 0x2d, 0x2e, 0x2f]"

definition text_field :: "u8 \<Rightarrow> fields \<Rightarrow> u8 list" where
  "text_field t f = (if t = 0x21 then ProductName f else if t = 0x22 then PartNumber f else if t = 0x23 then SerialNumber f
     else if t = 0x25 then ManufactureDate f else if t = 0x28 then PlatformName f else if t = 0x29 then ONIEVersion f
     else if t = 0x2b then Manufacturer f else if t = 0x2c then CountryCode f else if t = 0x2d then Vendor f
     else if t = 0x2e then DiagVersion f else ServiceTag f)"

definition set_text :: "u8 \<times> u8 list \<Rightarrow> fields \<Rightarrow> fields" where
  "set_text tv f = the (get_field (fst tv) (Slice (snd tv) (length (snd tv))) f)"

fun last_text :: "u8 \<Rightarrow> (u8 \<times> u8 list) list \<Rightarrow> u8 list \<Rightarrow> u8 list" where
  "last_text t [] x = x"
| "last_text t (tv # fs) x = last_text t fs (if fst tv = t then snd tv else x)"

definition texts :: "(u8 \<times> u8 list) list \<Rightarrow> bool" where
  "texts fs \<longleftrightarrow> list_all (\<lambda>tv. fst tv \<in> set text_types \<and> length (snd tv) < 256) fs"

lemma sbytes_sbytes: "sbytes (Slice (sbytes s) (length (sbytes s))) = sbytes s"
  by (simp add: sbytes_def min_def)

lemma get_field_text: "t \<in> set text_types \<Longrightarrow> get_field t s f = Some (set_text (t, sbytes s) f)"
  unfolding text_types_def list.set insert_iff empty_iff
  by (elim disjE) (simp_all add: get_field_def set_text_def sbytes_sbytes)

lemma text_field_set: "t \<in> set text_types \<Longrightarrow> fst tv \<in> set text_types \<Longrightarrow>
    text_field t (set_text tv f) = (if fst tv = t then snd tv else text_field t f)"
  unfolding text_types_def list.set insert_iff empty_iff
  by (elim disjE) (simp_all add: get_field_def set_text_def text_field_def sbytes_def)

lemma text_field_fold: "t \<in> set text_types \<Longrightarrow> texts fs \<Longrightarrow> text_field t (fold set_text fs f) = last_text t fs (text_field t f)"
  by (induction fs arbitrary: f) (auto simp: texts_def text_field_set)

lemma field_loop_texts:
  assumes "texts fs" "length pre + length (body fs) \<le> n" "length pre + length (body fs) \<le> L" "b = pre @ body fs @ rest"
  shows "field_loop (Slice b L) n (length pre) f = field_loop (Slice b L) n (length pre + length (body fs)) (fold set_text fs f)"
  using assms
proof (induction fs arbitrary: pre f)
  case Nil
  then show ?case by (simp add: body_def)
next
  case (Cons tv fs)
  let ?v = "snd tv"
  have b: "body (tv # fs) = fst tv # of_nat (length ?v) # ?v @ body fs" by (simp add: body_def enc_def)
  have t: "fst tv \<in> set text_types" "length ?v < 256" "texts fs" using Cons.prems(1) by (auto simp: texts_def)
  then have u: "unat (of_nat (length ?v) :: u8) = length ?v" by (simp add: unat_of_nat take_bit_nat_eq_self)
  let ?pre = "pre @ enc tv"
  have IH: "field_loop (Slice b L) n (length ?pre) (set_text tv f) =
      field_loop (Slice b L) n (length ?pre + length (body fs)) (fold set_text fs (set_text tv f))"
    by (rule Cons.IH) (use Cons.prems t(3) in \<open>auto simp: b enc_def\<close>)
  have "field_loop (Slice b L) n (length pre) f = field_loop (Slice b L) n (length pre + (2 + length ?v)) (set_text tv f)"
    using Cons.prems(2-4) get_field_text [OF t(1)] u
    by (subst field_loop.simps) (simp add: sindex_def reslice_def b nth_append sbytes_def)
  then show ?case using IH by (simp add: b enc_def add.assoc add.commute add.left_commute)
qed

lemma field_loop_crc:
  assumes "texts fs" "length c = 4" "b = body fs @ [0xfe, 4] @ c @ rest" "length (body fs) + 6 \<le> L"
  obtains x where "field_loop (Slice b L) (length (body fs) + 6) 0 f = Some ((fold set_text fs f)\<lparr>CRC32 := x\<rparr>)"
proof -
  let ?B = "length (body fs)" and ?g = "fold set_text fs f"
  have 1: "field_loop (Slice b L) (?B + 6) 0 f = field_loop (Slice b L) (?B + 6) ?B ?g"
    using field_loop_texts [of fs "[]" "?B + 6" L b "[0xfe, 4] @ c @ rest" f] assms by simp
  obtain p q r s where c: "c = [p, q, r, s]" using assms(2) by (auto simp: length_Suc_conv numeral_eq_Suc)
  have "be_number (Slice (c @ rest) 4) 4 = Some (foldl (\<lambda>r x. push_bit 8 r OR ucast x) 0 c)"
    by (simp add: be_number_def upt_rec numeral_eq_Suc sindex_def c)
  then have "field_loop (Slice b L) (?B + 6) ?B ?g = Some (?g\<lparr>CRC32 := foldl (\<lambda>r x. push_bit 8 r OR ucast x) 0 c\<rparr>)"
    using assms(2,4) unfolding assms(3)
    by (subst field_loop.simps) (simp add: sindex_def reslice_def nth_append get_field_def, subst field_loop.simps, simp)
  then show ?thesis using that 1 by simp
qed

lemma text_field_other: "text_field t (f\<lparr>CRC32 := x\<rparr>) = text_field t f" "text_field t (f\<lparr>ONIEData := i, ONIEDataVersion := v\<rparr>) = text_field t f"
  by (simp_all add: text_field_def)

lemma getInfo_read:
  assumes "stored d ver gs e" "rawData d = raw" "raw @ body gs @ [0xfe, 4] @ e = body fs @ [0xfe, 4] @ c @ rest"
    and "texts fs" "length c = 4" "length (body gs) = length (body fs)"
  shows "\<exists>d'. getInfo extra d = Some d' \<and> rawData d' = raw @ body gs @ [0xfe, 4] @ e \<and>
     (t \<in> set text_types \<longrightarrow> text_field t (Fields d') = last_text t fs (text_field t (Fields d)))"
proof -
  let ?B = "length (body gs)"
  have len: "getUint16 d 9 = ?B + 6" using stored_header(2) [OF assms(1)] .
  have e: "length e = 4" using assms(1) by (simp add: stored_def)
  have read: "map (\<lambda>j. getByte d (11 + j)) [0..<?B + 6] = body gs @ [0xfe, 4] @ e"
  proof (rule nth_equalityI)
    fix j assume "j < length (map (\<lambda>j. getByte d (11 + j)) [0..<?B + 6])"
    then have j: "j < ?B + 6" by simp
    have "prom d (of_nat (0 + (11 + j))) = prom_image ver gs e ! (11 + j)"
      by (rule holdsD) (use assms(1) j e in \<open>auto simp: stored_def length_prom_image\<close>)
    also have "\<dots> = (body gs @ [0xfe, 4] @ e) ! j"
      by (rule prom_image_tail)
    finally show "map (\<lambda>j. getByte d (11 + j)) [0..<?B + 6] ! j = (body gs @ [0xfe, 4] @ e) ! j"
      using j by (simp add: getByte_def)
  qed (simp add: e)
  let ?raw = "raw @ body gs @ [0xfe, 4] @ e"
  let ?f = "(Fields d)\<lparr>ONIEData := map (getByte d) [0..<8], ONIEDataVersion := getByte d 8\<rparr>"
  have eq: "?raw @ replicate extra 0 = body fs @ [0xfe, 4] @ c @ rest @ replicate extra 0"
    using arg_cong [OF assms(3), of "\<lambda>x. x @ replicate extra 0"] by simp
  have L: "length (body fs) + 6 \<le> length ?raw" using assms(6) e by simp
  obtain x where x: "field_loop (Slice (?raw @ replicate extra 0) (length ?raw)) (length (body fs) + 6) 0 ?f = Some ((fold set_text fs ?f)\<lparr>CRC32 := x\<rparr>)"
    by (rule field_loop_crc [OF assms(4,5) eq L])
  let ?d = "d\<lparr>Fields := (fold set_text fs ?f)\<lparr>CRC32 := x\<rparr>, rawData := ?raw\<rparr>"
  have "getInfo extra d = Some ?d"
    unfolding getInfo_def Let_def len read assms(2) using x unfolding assms(6) by (simp only: bind.bind_lunit)
  moreover have "t \<in> set text_types \<Longrightarrow> text_field t (Fields ?d) = last_text t fs (text_field t (Fields d))"
    by (simp add: text_field_other text_field_fold [OF _ assms(4)])
  ultimately show ?thesis by (intro exI [of _ ?d]) simp
qed


text \<open>Reading again after the EEPROM was rewritten with fields of the same total size still gives the old values: the new bytes
  are appended behind the old ones, which are parsed once more.\<close>

theorem getInfo_stale:
  assumes "stored d ver fs c" "rawData d = body old @ [0xfe, 4] @ oc" "texts old" "length oc = 4"
    and "length (body fs) = length (body old)" "t \<in> set text_types"
  shows "\<exists>d'. getInfo extra d = Some d' \<and> text_field t (Fields d') = last_text t old (text_field t (Fields d))"
  using getInfo_read [OF assms(1,2), of old oc "body fs @ [0xfe, 4] @ c" extra t] assms(3-6) by auto

subsection \<open>Deleting a field\<close>

lemma find_field_first:
  assumes "list_all (\<lambda>tv. fst tv \<noteq> t \<and> length (snd tv) < 256) xs" "length v < 256" "raw = pre @ body xs @ enc (t, v) @ rest"
  shows "find_field raw t (length pre) = Some (Some (length pre + length (body xs), length v))"
  using assms
proof (induction xs arbitrary: pre)
  case Nil
  then show ?case by (subst find_field.simps) (simp add: body_def enc_def nth_append unat_of_nat take_bit_nat_eq_self)
next
  case (Cons tv xs)
  let ?v = "snd tv"
  have b: "body (tv # xs) = enc tv @ body xs" by (simp add: body_def)
  have IH: "find_field raw t (length (pre @ enc tv)) = Some (Some (length (pre @ enc tv) + length (body xs), length v))"
    by (rule Cons.IH) (use Cons.prems b in auto)
  have "find_field raw t (length pre) = find_field raw t (length pre + (2 + length ?v))"
    using Cons.prems by (subst find_field.simps) (simp add: b enc_def nth_append unat_of_nat take_bit_nat_eq_self)
  then show ?case using IH by (simp add: b enc_def add.assoc add.commute add.left_commute)
qed

lemma prom_image_without:
  fixes xs ys :: "(u8 \<times> u8 list) list"
  defines "B \<equiv> length (body xs) + length (body ys)"
  assumes "i < 13 + B + length c"
  shows "prom_image ver (xs @ ys) c ! i = (if i = 9 then of_nat ((B + 6) div 256) else if i = 10 then of_nat (B + 6)
    else if i < 11 + length (body xs) then prom_image ver (xs @ (t, v) # ys) c ! i else prom_image ver (xs @ (t, v) # ys) c ! (i + 2 + length v))"
proof -
  have b: "body (xs @ ys) = body xs @ body ys" "body (xs @ (t, v) # ys) = (body xs @ t # of_nat (length v) # v) @ body ys"
    by (simp_all add: body_def enc_def)
  consider "i < 9" | "i = 9" | "i = 10" | "11 \<le> i" "i < 11 + length (body xs)" | "11 + length (body xs) \<le> i" by linarith
  then show ?thesis
  proof cases
    case 1
    then show ?thesis by (simp add: prom_image_head)
  next
    case 4
    then obtain j where "i = 11 + j" "j < length (body xs)" by (metis add_less_cancel_left le_add_diff_inverse)
    then show ?thesis by (simp add: prom_image_tail b nth_append)
  next
    case 5
    then obtain j where j: "i = 11 + (length (body xs) + j)" by (metis add.assoc le_add_diff_inverse)
    have "prom_image ver (xs @ ys) c ! i = (body ys @ [0xfe, 4] @ c) ! j"
      unfolding j prom_image_tail b append_assoc nth_append_length_plus ..
    moreover have "i + 2 + length v = 11 + (length (body xs @ t # of_nat (length v) # v) + j)" using j by simp
    then have "prom_image ver (xs @ (t, v) # ys) c ! (i + 2 + length v) = (body ys @ [0xfe, 4] @ c) ! j"
      by (simp only: prom_image_tail b(2) append_assoc [of "body xs @ t # of_nat (length v) # v"] nth_append_length_plus)
    ultimately show ?thesis using 5 by simp
  qed (simp_all add: prom_image_len B_def b)
qed

text \<open>C33: Deleting the first field of a type from a well-formed image leaves the well-formed image of the remaining fields, with the
  old checksum behind them.\<close>

theorem DeleteField_removes:
  assumes "stored d ver (xs @ (t, v) # ys) c" "n \<noteq> ''fe''" "of_nat (fst (ParseHex n)) = t" "t \<notin> fst ` set xs"
  shows "\<exists>d'. DeleteField n d = Some (''first matching field deleted'', d') \<and> stored d' ver (xs @ ys) c"
proof -
  let ?X = "length (body xs)" and ?Y = "length (body ys)" and ?full = "prom_image ver (xs @ (t, v) # ys) c"
  have st: "holds (prom d) 0 ?full" "length c = 4" "length v < 256" "list_all (\<lambda>tv. length (snd tv) < 256) xs" "list_all (\<lambda>tv. length (snd tv) < 256) ys"
    "length ?full < 65536" using assms(1) by (auto simp: stored_def)
  have b: "body (xs @ (t, v) # ys) = body xs @ enc (t, v) @ body ys" "length (body (xs @ (t, v) # ys)) = ?X + ?Y + length v + 2"
    by (simp_all add: body_def enc_def)
  have len: "length ?full = ?X + ?Y + length v + 19" using st(2) b(2) by (simp add: length_prom_image)
  obtain d1 where D: "DumpProm d = ((True, ?full), d1)" "prom d1 = prom d"
    using DumpProm_stored [OF assms(1)] check_id_rest [of d "[0..<8]"] by (cases "DumpProm d") (auto simp: DumpProm_def split: prod.splits if_splits)
  have u: "getUint16 d1 9 = ?X + ?Y + length v + 8" using stored_header(2) [OF assms(1)] D(2) b(2) by (simp add: getUint16_def getByte_def)
  have "list_all (\<lambda>tv. fst tv \<noteq> t \<and> length (snd tv) < 256) xs" using st(4) assms(4) by (auto simp: list_all_iff)
  then have f: "find_field ?full t 11 = Some (Some (11 + ?X, length v))"
    using find_field_first [of t xs v ?full "ONIEId @ [ver, of_nat ((length (body (xs @ (t, v) # ys)) + 6) div 256), of_nat (length (body (xs @ (t, v) # ys)) + 6)]" "body ys @ [0xfe, 4] @ c"]
      st(3) by (simp add: prom_image_def length_ONIEId b(1))
  let ?e = "length ?full - 2 - length v"
  define M where "M = prom (fold (\<lambda>j. setByte (of_nat j) (?full ! (j + 2 + length v))) [11 + ?X..<?e] d1)"
  have dl: "(of_nat (?X + ?Y + length v + 8) :: u64) - of_nat (length v + 2) = of_nat (?X + ?Y + 6)"
    "(of_nat (?X + ?Y + length v + 8) :: u64) - (2 + of_nat (length v)) = of_nat (?X + ?Y + 6)" by simp_all
  have B: "?X + ?Y + 6 < 65536" using len st(6) by simp
  have w: "ucast (drop_bit 8 (of_nat (?X + ?Y + 6) :: u64)) = (of_nat ((?X + ?Y + 6) div 256) :: u8)"
    "ucast (of_nat (?X + ?Y + 6) :: u64) = (of_nat (?X + ?Y + 6) :: u8)"
    using B by (simp_all add: word_unat_eq_iff unsigned_ucast_eq unat_of_nat unat_drop_bit_eq take_bit_eq_mod drop_bit_nat_def mod_mod_cancel
        del: drop_bit_eq_div of_nat_add)
  obtain d' where d': "DeleteField n d = Some (''first matching field deleted'', d')"
    "prom d' = M(9 := of_nat ((?X + ?Y + 6) div 256), 10 := of_nat (?X + ?Y + 6))"
    using D assms(2,3) f u len unfolding DeleteField_def lengthOffset_def Let_def M_def by (simp add: dl w del: of_nat_add)
  have M: "M (of_nat i) = (if 11 + ?X \<le> i then ?full ! (i + 2 + length v) else ?full ! i)" if "i < ?e" for i
  proof (cases "11 + ?X \<le> i")
    case True
    have "inj_on (\<lambda>j. of_nat j :: u16) (set [11 + ?X..<?e])" using st(6) by (auto simp: inj_on_def of_nat_u16_eq)
    then show ?thesis using True that fold_setByte_in [of i "[11 + ?X..<?e]" "\<lambda>j. of_nat j" "\<lambda>j. ?full ! (j + 2 + length v)" d1] by (simp add: M_def)
  next
    case False
    have "of_nat i \<notin> (\<lambda>j. of_nat j :: u16) ` set [11 + ?X..<?e]" using False that st(6) by (auto simp: of_nat_u16_eq)
    then show ?thesis using False that D(2) holdsD [OF st(1), of i] fold_setByte_out [of "of_nat i" "\<lambda>j. of_nat j"] by (simp add: M_def)
  qed
  have "prom d' (of_nat i) = prom_image ver (xs @ ys) c ! i" if i: "i < 13 + (?X + ?Y) + length c" for i
  proof -
    have "i < 65536" using i len st(2,6) by simp
    then have "(of_nat i = (9 :: u16)) \<longleftrightarrow> i = 9" "(of_nat i = (10 :: u16)) \<longleftrightarrow> i = 10" using of_nat_u16_eq [of i 9] of_nat_u16_eq [of i 10] by simp_all
    then show ?thesis unfolding prom_image_without [OF i, of ver t v] d'(2) using M [of i] i len st(2) by simp
  qed
  then have "stored d' ver (xs @ ys) c" using st len by (auto simp: stored_def holds_def length_prom_image body_def)
  then show ?thesis using d'(1) by blast
qed

subsection \<open>The theorems at concrete inputs\<close>

definition zero_fields :: fields where
  "zero_fields = \<lparr>ONIEData = replicate 8 0, ONIEDataVersion = 0, ProductName = [], PlatformName = [], Manufacturer = [], Vendor = [],
     PartNumber = [], SerialNumber = [], DeviceVersion = 0, ManufactureDate = [], CountryCode = [], DiagVersion = [], ServiceTag = [],
     VendorExtension = [], ONIEVersion = [], BaseEthernetAddress = replicate 6 0, NEthernetAddress = 0, CRC32 = 0, ChassisType = 0,
     BoardType = 0, SubType = 0, PcbaPartNumber = [], Tor1MainPcbaSerialNumber = [], Tor1CpuPcbaSerialNumber = [], Tor1FanPcbaSerialNumber = []\<rparr>"

definition programmed :: "(u8 \<times> u8 list) list \<Rightarrow> Device" where
  "programmed fs = \<lparr>prom = (\<lambda>a. let b = prom_image 1 fs [0, 0, 0, 0] in if unat a < length b then b ! unat a else 0xff),
     Fields = zero_fields, rawData = []\<rparr>"

lemma programmed_stored:
  assumes "list_all (\<lambda>tv. length (snd tv) < 256) fs" "length (body fs) < 65519"
  shows "stored (programmed fs) 1 fs [0, 0, 0, 0]" "rawData (programmed fs) = []"
  using assms by (auto simp: stored_def programmed_def holds_def length_prom_image Let_def unat_of_nat take_bit_nat_eq_self)

lemma names: "names_field ''22'' 0x22"
proof -
  have "\<not> sublist ''onie'' ''22''" "\<not> sublist ''length'' ''22''" by code_simp+
  moreover have "ParseHex ''22'' = (0x22, True)" by (simp add: ParseHex_def hex_digit_def)
  ultimately show ?thesis by (simp add: names_field_def field_types_def)
qed

theorem WriteField_appends_witness:
  "\<exists>d'. WriteField ''22'' [65, 66] (programmed [(0x21, [80])]) = Some (''write complete. run diag prom crc'', d') \<and>
     stored d' 1 [(0x21, [80]), (0x22, [65, 66])] [0, 0, 0, 0]"
  using WriteField_appends [OF programmed_stored(1) [of "[(0x21, [80])]"] names, of "[65, 66]"] by (simp add: body_def enc_def)



theorem getInfo_stale_witness:
  "\<exists>d'. getInfo 3 ((programmed [(0x21, [81])])\<lparr>rawData := body [(0x21, [80])] @ [0xfe, 4] @ [0, 0, 0, 0]\<rparr>) = Some d' \<and>
     text_field 0x21 (Fields d') = [80]"
proof -
  let ?d = "(programmed [(0x21, [81])])\<lparr>rawData := body [(0x21, [80])] @ [0xfe, 4] @ [0, 0, 0, 0]\<rparr>"
  have "stored ?d 1 [(0x21, [81])] [0, 0, 0, 0]"
    using programmed_stored(1) [of "[(0x21, [81])]"] by (simp add: stored_def body_def enc_def)
  then show ?thesis using getInfo_stale [of ?d 1 "[(0x21, [81])]" "[0, 0, 0, 0]" "[(0x21, [80])]" "[0, 0, 0, 0]" "0x21" 3]
    by (simp add: body_def enc_def texts_def text_types_def)
qed

theorem DeleteField_removes_witness:
  "\<exists>d'. DeleteField ''22'' (programmed [(0x21, [80]), (0x22, [65, 66]), (0x23, [67])]) = Some (''first matching field deleted'', d') \<and>
     stored d' 1 [(0x21, [80]), (0x23, [67])] [0, 0, 0, 0]"
  using DeleteField_removes [of "programmed [(0x21, [80]), (0x22, [65, 66]), (0x23, [67])]" 1 "[(0x21, [80])]" "0x22" "[65, 66]" "[(0x23, [67])]" "[0, 0, 0, 0]" "''22''"]
    programmed_stored(1) [of "[(0x21, [80]), (0x22, [65, 66]), (0x23, [67])]"] names
  by (simp add: names_field_def body_def enc_def)

end
