(* ===== verification/Nl_Attr.thy ===== *)
theory Nl_Attr
  imports Go_Prelude
begin

section \<open>Attributes of the socket's messages: internal/netlink\<close>

text \<open>
  The second netlink package of the program: every attribute is a value with a type of its own, written by \<open>Set\<close> into
  a part of the transmit buffer and made by a parser from a part of the receive buffer. A parser reads a number through
  an unsafe pointer at the first byte, so past the end of the attribute when it is too short. \<open>None\<close> is a panic, or an
  unsafe access outside of the backing array.
\<close>

subsection \<open>Values\<close>

datatype AttrType = AddressFamilyAttrType | Ip4IfAttrType | Ip6IfAttrType | IfLinkInfoAttrType
  | IfVlanLinkInfoDataAttrType | IfIptunLinkInfoDataAttrType | IfGRELinkInfoDataAttrType
  | LwtunnelIp4EncapAttrType | LwtunnelIp6EncapAttrType

datatype nlattr = StringAttr "u8 list" | HexStringAttr "u8 list"
  | Uint8Attr u8 | Uint16Attr u16 | Uint32Attr u32 | Uint64Attr u64
  | Int8Attr u8 | Int16Attr u16 | Int32Attr u32 | Int64Attr u64
  | EthernetAddress "u8 list" | Ip4Address "u8 list" | Ip6Address "u8 list"
  | VlanProtocolAttr u16 | VlanFlags u32 u32
  | IfAddrCacheInfo u32 u32 u32 u32 | IfAddrFlagAttr u32 | IfOperState u8
  | Ip4DevConf "u32 list" | Ip6DevConf "u32 list" | Ip6IfFlagsAttr u32
  | LinkStats "u32 list" | LinkStats64 "u64 list"
  | NdaCacheInfo u32 u32 u32 u32 | RtaCacheInfo u32 u32 u32 u32 u32
  | RtaMultipath "RtNextHop list" | LwtunnelEncapType u8
  | AttrArray AttrType "nlattr option list"
and RtNextHop = RtNextHop (nhLen: u16) (nhFlags: u8) (nhHops: u8) (nhIfindex: u32) (nhAttrs: "nlattr option list")

type_synonym AttrVec = "nlattr option list"

definition SizeofNlAttr :: nat where "SizeofNlAttr = 4"

definition attrAlignLen :: "nat \<Rightarrow> nat" where
  "attrAlignLen l = nat ((int l + 4 - 1) AND NOT (4 - 1))"

definition Kind :: "u16 \<Rightarrow> nat" where
  "Kind k = unat (k AND NOT (push_bit 15 1 OR push_bit 14 1))"

subsection \<open>Access through an unsafe pointer\<close>

definition peek :: "slice \<Rightarrow> nat \<Rightarrow> u8 list option" where
  "peek v n = (if 0 < slen v \<and> n \<le> length (sback v) then Some (take n (sback v)) else None)"

definition poke :: "u8 list \<Rightarrow> slice \<Rightarrow> slice option" where
  "poke bs v = (if 0 < slen v \<and> length bs \<le> length (sback v) then Some (Slice (bs @ drop (length bs) (sback v)) (slen v)) else None)"

definition get_u64 :: "u8 list \<Rightarrow> nat \<Rightarrow> u64" where
  "get_u64 b i = load (take 8 (drop i b))"

definition u32s :: "nat \<Rightarrow> u8 list \<Rightarrow> u32 list" where
  "u32s n b = map (\<lambda>i. get_u32 b (4 * i)) [0..<n]"

definition u64s :: "nat \<Rightarrow> u8 list \<Rightarrow> u64 list" where
  "u64s n b = map (\<lambda>i. get_u64 b (8 * i)) [0..<n]"

subsection \<open>Making values\<close>

definition StringAttrBytes :: "slice \<Rightarrow> nlattr" where
  "StringAttrBytes v = StringAttr (sbytes v)"

definition NewHexStringAttrBytes :: "slice \<Rightarrow> nlattr" where
  "NewHexStringAttrBytes v = HexStringAttr (sbytes v)"

definition Uint16AttrBytes :: "slice \<Rightarrow> nlattr option" where
  "Uint16AttrBytes v = map_option (\<lambda>b. Uint16Attr (get_u16 b 0)) (peek v 2)"

definition Uint32AttrBytes :: "slice \<Rightarrow> nlattr option" where
  "Uint32AttrBytes v = map_option (\<lambda>b. Uint32Attr (get_u32 b 0)) (peek v 4)"

definition Uint64AttrBytes :: "slice \<Rightarrow> nlattr option" where
  "Uint64AttrBytes v = map_option (\<lambda>b. Uint64Attr (get_u64 b 0)) (peek v 8)"

definition Int32AttrBytes :: "slice \<Rightarrow> nlattr option" where
  "Int32AttrBytes v = map_option (\<lambda>b. Int32Attr (get_u32 b 0)) (peek v 4)"

definition VlanProtocolAttrBytes :: "slice \<Rightarrow> nlattr option" where
  "VlanProtocolAttrBytes v = do { x \<leftarrow> sindex v 0; y \<leftarrow> sindex v 1; Some (VlanProtocolAttr (push_bit 8 (ucast x) OR ucast y)) }"

definition NewVlanFlagsBytes :: "slice \<Rightarrow> nlattr option" where
  "NewVlanFlagsBytes v = map_option (\<lambda>b. VlanFlags (get_u32 b 0) (get_u32 b 4)) (peek v 8)"

definition NewEthernetAddressBytes :: "slice \<Rightarrow> nlattr option" where
  "NewEthernetAddressBytes v = map_option (\<lambda>s. EthernetAddress (sbytes s)) (reslice v 0 6)"

definition NewIp4AddressBytes :: "slice \<Rightarrow> nlattr option" where
  "NewIp4AddressBytes v = map_option (\<lambda>s. Ip4Address (sbytes s)) (reslice v 0 4)"

definition NewIp6AddressBytes :: "slice \<Rightarrow> nlattr option" where
  "NewIp6AddressBytes v = map_option (\<lambda>s. Ip6Address (sbytes s)) (reslice v 0 16)"

definition NewIfAddrCacheInfoBytes :: "slice \<Rightarrow> nlattr option" where
  "NewIfAddrCacheInfoBytes v = map_option (\<lambda>b. IfAddrCacheInfo (get_u32 b 0) (get_u32 b 4) (get_u32 b 8) (get_u32 b 12)) (peek v 16)"

definition IfAddrFlagAttrBytes :: "slice \<Rightarrow> nlattr option" where
  "IfAddrFlagAttrBytes v = map_option (\<lambda>b. IfAddrFlagAttr (get_u32 b 0)) (peek v 4)"

definition IPV4_DEVCONF_MAX :: nat where "IPV4_DEVCONF_MAX = 30"
definition IPV6_DEVCONF_MAX :: nat where "IPV6_DEVCONF_MAX = 40"
definition N_link_stat :: nat where "N_link_stat = 23"

definition NewIp4DevConfBytes :: "slice \<Rightarrow> nlattr option" where
  "NewIp4DevConfBytes v = map_option (\<lambda>b. Ip4DevConf (u32s IPV4_DEVCONF_MAX b)) (peek v (4 * IPV4_DEVCONF_MAX))"

definition NewIp6DevConfBytes :: "slice \<Rightarrow> nlattr option" where
  "NewIp6DevConfBytes v = map_option (\<lambda>b. Ip6DevConf (u32s IPV6_DEVCONF_MAX b)) (peek v (4 * IPV6_DEVCONF_MAX))"

definition Ip6IfFlagsAttrBytes :: "slice \<Rightarrow> u32 option" where
  "Ip6IfFlagsAttrBytes v = map_option (\<lambda>b. get_u32 b 0) (peek v 4)"

definition NewLinkStatsBytes :: "slice \<Rightarrow> nlattr option" where
  "NewLinkStatsBytes v = map_option (\<lambda>b. LinkStats (u32s N_link_stat b)) (peek v (4 * N_link_stat))"

definition NewLinkStats64Bytes :: "slice \<Rightarrow> nlattr option" where
  "NewLinkStats64Bytes v = map_option (\<lambda>b. LinkStats64 (u64s N_link_stat b)) (peek v (8 * N_link_stat))"

definition NewNdaCacheInfoBytes :: "slice \<Rightarrow> nlattr option" where
  "NewNdaCacheInfoBytes v = map_option (\<lambda>b. NdaCacheInfo (get_u32 b 0) (get_u32 b 4) (get_u32 b 8) (get_u32 b 12)) (peek v 16)"

definition NewRtaCacheInfoBytes :: "slice \<Rightarrow> nlattr option" where
  "NewRtaCacheInfoBytes v = map_option (\<lambda>b. RtaCacheInfo (get_u32 b 0) (get_u32 b 4) (get_u32 b 8) (get_u32 b 12) (get_u32 b 16)) (peek v 20)"

definition Uint8AttrAt :: "slice \<Rightarrow> nlattr option" where
  "Uint8AttrAt v = map_option Uint8Attr (sindex v 0)"

definition AF_UNSPEC :: nat where "AF_UNSPEC = 0"
definition AF_INET :: nat where "AF_INET = 2"
definition AF_INET6 :: nat where "AF_INET6 = 10"

definition afAddr :: "nat \<Rightarrow> slice \<Rightarrow> nlattr option" where
  "afAddr af b = (if af = AF_INET \<or> slen b = 4 then NewIp4AddressBytes b
     else if af = AF_INET6 \<or> slen b = 16 then NewIp6AddressBytes b
     else if af = AF_UNSPEC \<or> slen b = 6 then NewEthernetAddressBytes b
     else None)"

subsection \<open>Size and Set\<close>

definition copy_bytes :: "u8 list \<Rightarrow> slice \<Rightarrow> slice" where
  "copy_bytes bs v = (let n = min (length bs) (slen v) in Slice (take n bs @ drop n (sback v)) (slen v))"

definition set_byte0 :: "u8 \<Rightarrow> slice \<Rightarrow> slice option" where
  "set_byte0 x v = (if 0 < slen v then map_option (\<lambda>b. Slice b (slen v)) (slice_set (sback v) 0 x) else None)"

text \<open>\<open>v = append(v, 0)\<close> stores behind the end of \<open>v\<close> when there is room, and changes nothing otherwise.\<close>

definition StringAttr_Set :: "u8 list \<Rightarrow> slice \<Rightarrow> slice" where
  "StringAttr_Set a v = (let v = copy_bytes a v in
     if slen v < length (sback v) then Slice ((sback v)[slen v := 0]) (slen v) else v)"

definition VlanProtocolAttr_Set :: "u16 \<Rightarrow> slice \<Rightarrow> slice option" where
  "VlanProtocolAttr_Set a v = do {
     v \<leftarrow> set_byte0 (ucast (drop_bit 8 a)) v;
     if 1 < slen v then map_option (\<lambda>b. Slice b (slen v)) (slice_set (sback v) 1 (ucast a)) else None }"

fun attr_Size :: "nlattr \<Rightarrow> nat option"
  and AttrVec_Size :: "AttrVec \<Rightarrow> nat option" where
  "attr_Size (StringAttr a) = Some (length a + 1)"
| "attr_Size (HexStringAttr a) = Some (length a)"
| "attr_Size (Uint8Attr a) = Some 1"
| "attr_Size (Uint16Attr a) = Some 2"
| "attr_Size (Uint32Attr a) = Some 4"
| "attr_Size (Uint64Attr a) = Some 8"
| "attr_Size (Int8Attr a) = Some 1"
| "attr_Size (Int16Attr a) = Some 2"
| "attr_Size (Int32Attr a) = Some 4"
| "attr_Size (Int64Attr a) = Some 8"
| "attr_Size (EthernetAddress a) = Some 6"
| "attr_Size (Ip4Address a) = Some 4"
| "attr_Size (Ip6Address a) = Some 16"
| "attr_Size (VlanProtocolAttr a) = Some 2"
| "attr_Size (IfAddrFlagAttr a) = Some 4"
| "attr_Size (IfOperState a) = Some 1"
| "attr_Size (Ip6IfFlagsAttr a) = Some 4"
| "attr_Size (LinkStats a) = Some (N_link_stat * 4)"
| "attr_Size (LinkStats64 a) = Some (N_link_stat * 8)"
| "attr_Size (LwtunnelEncapType a) = Some 1"
| "attr_Size (AttrArray t X) = AttrVec_Size X"
| "attr_Size _ = None"
| "AttrVec_Size [] = Some 0"
| "AttrVec_Size (None # X) = AttrVec_Size X"
| "AttrVec_Size (Some a # X) = do { s \<leftarrow> attr_Size a; l \<leftarrow> AttrVec_Size X; Some (SizeofNlAttr + attrAlignLen s + l) }"

definition put_back :: "slice \<Rightarrow> nat \<Rightarrow> slice \<Rightarrow> slice" where
  "put_back v lo w = Slice (take lo (sback v) @ sback w) (slen v)"

fun attr_Set :: "nlattr \<Rightarrow> slice \<Rightarrow> slice option"
  and AttrVec_Set :: "nat \<Rightarrow> AttrVec \<Rightarrow> slice \<Rightarrow> nat \<Rightarrow> (nat \<times> slice) option" where
  "attr_Set (StringAttr a) v = Some (StringAttr_Set a v)"
| "attr_Set (HexStringAttr a) v = Some (copy_bytes a v)"
| "attr_Set (Uint8Attr a) v = set_byte0 a v"
| "attr_Set (Uint16Attr a) v = poke (le_bytes 2 a) v"
| "attr_Set (Uint32Attr a) v = poke (le_bytes 4 a) v"
| "attr_Set (Uint64Attr a) v = poke (le_bytes 8 a) v"
| "attr_Set (Int8Attr a) v = set_byte0 a v"
| "attr_Set (Int16Attr a) v = poke (le_bytes 2 a) v"
| "attr_Set (Int32Attr a) v = poke (le_bytes 4 a) v"
| "attr_Set (Int64Attr a) v = poke (le_bytes 8 a) v"
| "attr_Set (EthernetAddress a) v = Some (copy_bytes a v)"
| "attr_Set (Ip4Address a) v = Some (copy_bytes a v)"
| "attr_Set (Ip6Address a) v = Some (copy_bytes a v)"
| "attr_Set (VlanProtocolAttr a) v = VlanProtocolAttr_Set a v"
| "attr_Set (IfAddrFlagAttr a) v = poke (le_bytes 4 a) v"
| "attr_Set (IfOperState a) v = set_byte0 a v"
| "attr_Set (Ip6IfFlagsAttr a) v = poke (le_bytes 4 a) v"
| "attr_Set (LinkStats a) v = poke (concat (map (le_bytes 4) a)) v"
| "attr_Set (LinkStats64 a) v = poke (concat (map (le_bytes 8) a)) v"
| "attr_Set (LwtunnelEncapType a) v = poke [a] v"
| "attr_Set (AttrArray t X) v = map_option snd (AttrVec_Set 0 X v 0)"
| "attr_Set _ v = None"
| "AttrVec_Set i [] v vi = Some (vi, v)"
| "AttrVec_Set i (None # X) v vi = AttrVec_Set (Suc i) X v vi"
| "AttrVec_Set i (Some a # X) v vi = do {
     s \<leftarrow> attr_Size a;
     panic_unless (vi < slen v \<and> vi + 4 \<le> length (sback v));
     let v = Slice (take vi (sback v) @ le_bytes 2 (of_nat (SizeofNlAttr + s) :: u16) @ le_bytes 2 (of_nat i :: u16) @ drop (vi + 4) (sback v)) (slen v);
     w \<leftarrow> reslice v (vi + SizeofNlAttr) (vi + SizeofNlAttr + s);
     w \<leftarrow> attr_Set a w;
     AttrVec_Set (Suc i) X (put_back v (vi + SizeofNlAttr) w) (vi + (SizeofNlAttr + attrAlignLen s)) }"

subsection \<open>The loop of every parser\<close>

text \<open>The kind, the value, and where the next attribute begins.\<close>

definition nextAttr :: "slice \<Rightarrow> nat \<Rightarrow> (nat \<times> slice \<times> nat) option" where
  "nextAttr b i = do {
     panic_unless (i < slen b \<and> i + 4 \<le> length (sback b));
     let l = unat (get_u16 (sback b) i);
     v \<leftarrow> reslice b (i + SizeofNlAttr) (i + l);
     Some (Kind (get_u16 (sback b) (i + 2)), v, i + attrAlignLen l) }"

lemma attrAlignLen_eq: "attrAlignLen l = (l + 3) div 4 * 4"
proof -
  have "(x AND NOT (mask 2)) = push_bit 2 (drop_bit 2 x)" for x :: int
    by (rule bit_eqI) (auto simp: bit_and_int_iff bit_not_int_iff bit_mask_iff bit_push_bit_iff_int bit_drop_bit_eq simp del: One_nat_def Suc_eq_plus1 add_2_eq_Suc add_2_eq_Suc')
  then have "(int l + 3) AND NOT 3 = (int l + 3) div 4 * 4"
    by (simp add: mask_eq_exp_minus_1 push_bit_eq_mult drop_bit_eq_div)
  then have "(int l + 3) AND NOT 3 = int ((l + 3) div 4 * 4)" by (simp add: zdiv_int)
  then show ?thesis by (simp add: attrAlignLen_def add.commute nat_mult_distrib)
qed

lemma attrAlignLen_ge: "l \<le> attrAlignLen l" "attrAlignLen l < l + 4" "4 dvd attrAlignLen l"
  unfolding attrAlignLen_eq by presburger+

lemma nextAttr_mono: "nextAttr b i = Some (k, v, j) \<Longrightarrow> i + 4 \<le> j"
  using attrAlignLen_ge(1) [of "unat (get_u16 (sback b) i)"]
  by (auto simp: nextAttr_def reslice_def bind_eq_Some_conv SizeofNlAttr_def Let_def split: if_splits)

text \<open>A step takes the kind, the value and the result so far; \<open>True\<close> is an early return with an error.\<close>

function attr_loop :: "(nat \<Rightarrow> slice \<Rightarrow> 'a \<Rightarrow> ('a \<times> bool) option) \<Rightarrow> slice \<Rightarrow> nat \<Rightarrow> 'a \<Rightarrow> (nat \<times> bool \<times> 'a) option" where
  "attr_loop step b i st = (if i < slen b then do {
     (k, v, j) \<leftarrow> nextAttr b i;
     (st, stop) \<leftarrow> step k v st;
     if stop then Some (j, True, st) else attr_loop step b j st }
   else Some (i, False, st))"
  by pat_completeness auto
termination
  by (relation "measure (\<lambda>(s, b, i, st). slen b - i)") (auto dest: nextAttr_mono)

declare attr_loop.simps [simp del]

definition parse_attrs :: "(nat \<Rightarrow> slice \<Rightarrow> AttrVec \<Rightarrow> AttrVec option) \<Rightarrow> slice \<Rightarrow> AttrVec \<Rightarrow> AttrVec option" where
  "parse_attrs step b X = map_option (\<lambda>(n, stop, X). X) (attr_loop (\<lambda>k v X. map_option (\<lambda>X. (X, False)) (step k v X)) b 0 X)"

text \<open>\<open>as.X[k] = a\<close>.\<close>

definition put :: "AttrVec \<Rightarrow> nat \<Rightarrow> nlattr option \<Rightarrow> AttrVec option" where
  "put X k a = do { a \<leftarrow> a; slice_set X k (Some a) }"

subsection \<open>Address families\<close>

definition parse_ip4_af_spec :: "slice \<Rightarrow> nlattr option" where
  "parse_ip4_af_spec b = map_option (AttrArray Ip4IfAttrType) (parse_attrs (\<lambda>t v X. let X = vec_validate None t X in
     if t = 0 then Some X
     else if t = 1 then put X t (NewIp4DevConfBytes v)
     else put X t (Some (NewHexStringAttrBytes v))) b [])"

definition parse_ip6_af_spec :: "slice \<Rightarrow> nlattr option" where
  "parse_ip6_af_spec b = map_option (AttrArray Ip6IfAttrType) (parse_attrs (\<lambda>t v X. let X = vec_validate None t X in
     if t = 0 then Some X
     else if t = 1 then do { flags \<leftarrow> Ip6IfFlagsAttrBytes v; if flags \<noteq> 0 then put X t (Some (Ip6IfFlagsAttr flags)) else Some X }
     else if t = 2 then put X t (NewIp6DevConfBytes v)
     else if t \<in> {3, 4, 5, 6, 7, 8} then Some X
     else put X t (Some (NewHexStringAttrBytes v))) b [])"

definition parse_af_spec :: "slice \<Rightarrow> nlattr option" where
  "parse_af_spec b = map_option (AttrArray AddressFamilyAttrType) (parse_attrs (\<lambda>k v X.
     let af = k mod 256; X = vec_validate None af X in
     if af = AF_INET then put X af (parse_ip4_af_spec v)
     else if af = AF_INET6 then put X af (parse_ip6_af_spec v)
     else Some X) b [])"

subsection \<open>Link information\<close>

datatype InterfaceKind = InterfaceKindUnknown | InterfaceKindBridge | InterfaceKindDummy | InterfaceKindIp4GRE
  | InterfaceKindIp4GRETap | InterfaceKindIp6GRE | InterfaceKindIp6GRETap | InterfaceKindIp6Tunnel | InterfaceKindIpip
  | InterfaceKindSit | InterfaceKindTun | InterfaceKindVeth | InterfaceKindVlan

definition kindMap :: "u8 list \<Rightarrow> InterfaceKind" where
  "kindMap s = (if s = str ''bridge'' then InterfaceKindBridge
     else if s = str ''dummy'' then InterfaceKindDummy
     else if s = str ''gre'' then InterfaceKindIp4GRE
     else if s = str ''gretap'' then InterfaceKindIp4GRETap
     else if s = str ''ip6gre'' then InterfaceKindIp6GRE
     else if s = str ''ip6gretap'' then InterfaceKindIp6GRETap
     else if s = str ''ip6tnl'' then InterfaceKindIp6Tunnel
     else if s = str ''ipip'' then InterfaceKindIpip
     else if s = str ''sit'' then InterfaceKindSit
     else if s = str ''tun'' then InterfaceKindTun
     else if s = str ''veth'' then InterfaceKindVeth
     else if s = str ''vlan'' then InterfaceKindVlan
     else InterfaceKindUnknown)"

definition IFLA_VLAN_MAX :: nat where "IFLA_VLAN_MAX = 6"

definition parse_vlan_info :: "slice \<Rightarrow> nlattr option" where
  "parse_vlan_info b = map_option (AttrArray IfVlanLinkInfoDataAttrType) (parse_attrs (\<lambda>kind v X.
     if kind = 1 then put X kind (Uint16AttrBytes v)
     else if kind = 5 then put X kind (VlanProtocolAttrBytes v)
     else if kind = 2 then put X kind (NewVlanFlagsBytes v)
     else None) b (vec_validate None (IFLA_VLAN_MAX - 1) []))"

definition IFLA_IPTUN_MAX :: nat where "IFLA_IPTUN_MAX = 21"

definition parse_iptun_info :: "slice \<Rightarrow> InterfaceKind \<Rightarrow> nlattr option" where
  "parse_iptun_info b linkKind = map_option (AttrArray IfIptunLinkInfoDataAttrType) (parse_attrs (\<lambda>kind v X.
     if kind \<in> {2, 3} then
       put X kind (if linkKind = InterfaceKindIp6Tunnel then NewIp6AddressBytes v else NewIp4AddressBytes v)
     else if kind = 11 then put X kind (NewIp6AddressBytes v)
     else if kind = 12 then put X kind (NewIp4AddressBytes v)
     else if kind \<in> {4, 5, 9, 10, 6, 20, 8} then put X kind (Uint8AttrAt v)
     else if kind \<in> {15, 16, 17, 18, 13, 14} then put X kind (Uint16AttrBytes v)
     else if kind \<in> {1, 7} then put X kind (Uint32AttrBytes v)
     else if kind = 19 then put X kind (Some (Uint8Attr 0))
     else None) b (vec_validate None (IFLA_IPTUN_MAX - 1) []))"

definition IFLA_GRE_MAX :: nat where "IFLA_GRE_MAX = 21"

definition parse_gre_info :: "slice \<Rightarrow> InterfaceKind \<Rightarrow> nlattr option" where
  "parse_gre_info b linkKind = map_option (AttrArray IfGRELinkInfoDataAttrType) (parse_attrs (\<lambda>kind v X.
     if kind \<in> {6, 7} then
       put X kind (if linkKind \<in> {InterfaceKindIp6GRE, InterfaceKindIp6GRETap} then NewIp6AddressBytes v else NewIp4AddressBytes v)
     else if kind \<in> {1, 4, 5, 12, 13, 20} then put X kind (Uint32AttrBytes v)
     else if kind \<in> {2, 3, 14, 15, 16, 17} then put X kind (Uint16AttrBytes v)
     else if kind \<in> {8, 9, 11, 10, 19} then put X kind (Uint8AttrAt v)
     else if kind = 18 then put X kind (Some (Uint8Attr 0))
     else None) b (vec_validate None (IFLA_GRE_MAX - 1) []))"

definition IFLA_INFO_KIND :: nat where "IFLA_INFO_KIND = 1"
definition IFLA_INFO_DATA :: nat where "IFLA_INFO_DATA = 2"
definition IFLA_INFO_SLAVE_KIND :: nat where "IFLA_INFO_SLAVE_KIND = 4"
definition IFLA_INFO_SLAVE_DATA :: nat where "IFLA_INFO_SLAVE_DATA = 5"
definition IFLA_INFO_MAX :: nat where "IFLA_INFO_MAX = 6"

definition trim0 :: "u8 list \<Rightarrow> u8 list" where
  "trim0 v = rev (dropWhile (\<lambda>x. x = 0) (rev v))"

definition link_info_step :: "nat \<Rightarrow> slice \<Rightarrow> AttrVec \<times> InterfaceKind \<Rightarrow> ((AttrVec \<times> InterfaceKind) \<times> bool) option" where
  "link_info_step kind v = (\<lambda>(X, linkKind).
     if kind \<in> {IFLA_INFO_KIND, IFLA_INFO_SLAVE_KIND} then
       do { X \<leftarrow> put X kind (Some (StringAttr (trim0 (sbytes v)))); Some ((X, kindMap (trim0 (sbytes v))), False) }
     else if kind \<in> {IFLA_INFO_DATA, IFLA_INFO_SLAVE_DATA} then
       do { X \<leftarrow> put X kind (Some (StringAttrBytes v)); Some ((X, linkKind), False) }
     else None)"

text \<open>\<open>[]byte(X[k].(StringAttr))\<close>: a copy with a backing array of its own.\<close>

definition string_bytes :: "nlattr option \<Rightarrow> slice option" where
  "string_bytes a = (case a of Some (StringAttr s) \<Rightarrow> Some (Slice s (length s)) | _ \<Rightarrow> None)"

definition parse_link_info :: "slice \<Rightarrow> nlattr option" where
  "parse_link_info b = do {
     (n, stop, X, linkKind) \<leftarrow> attr_loop link_info_step b 0 (vec_validate None (IFLA_INFO_MAX - 1) [], InterfaceKindUnknown);
     X \<leftarrow> (if linkKind = InterfaceKindVlan then
            do { d \<leftarrow> string_bytes (X ! IFLA_INFO_DATA); put X IFLA_INFO_DATA (parse_vlan_info d) }
          else if linkKind \<in> {InterfaceKindIpip, InterfaceKindIp6Tunnel} then
            do { d \<leftarrow> string_bytes (X ! IFLA_INFO_DATA); put X IFLA_INFO_DATA (parse_iptun_info d linkKind) }
          else if linkKind \<in> {InterfaceKindIp4GRE, InterfaceKindIp4GRETap, InterfaceKindIp6GRE, InterfaceKindIp6GRETap} then
            do { d \<leftarrow> string_bytes (X ! IFLA_INFO_DATA); put X IFLA_INFO_DATA (parse_gre_info d linkKind) }
          else Some X);
     Some (AttrArray IfLinkInfoAttrType X) }"

subsection \<open>Tunnels and next hops of a route\<close>

text \<open>The flags of a tunnel are a 16-bit value made of one byte.\<close>

definition parse_lwtunnel_ip4_encap :: "slice \<Rightarrow> nlattr option" where
  "parse_lwtunnel_ip4_encap b = map_option (AttrArray LwtunnelIp4EncapAttrType) (parse_attrs (\<lambda>k v X.
     let kind = k mod 256; X = vec_validate None kind X in
     if kind = 1 then put X kind (Uint64AttrBytes v)
     else if kind \<in> {2, 3} then put X kind (NewIp4AddressBytes v)
     else if kind \<in> {4, 5} then put X kind (Uint8AttrAt v)
     else if kind = 6 then put X kind (map_option (\<lambda>x. Uint16Attr (ucast x)) (sindex v 0))
     else None) b [])"

definition parse_lwtunnel_ip6_encap :: "slice \<Rightarrow> nlattr option" where
  "parse_lwtunnel_ip6_encap b = map_option (AttrArray LwtunnelIp6EncapAttrType) (parse_attrs (\<lambda>k v X.
     let kind = k mod 256; X = vec_validate None kind X in
     if kind = 1 then put X kind (Uint64AttrBytes v)
     else if kind \<in> {2, 3} then put X kind (NewIp6AddressBytes v)
     else if kind \<in> {4, 5} then put X kind (Uint8AttrAt v)
     else if kind = 6 then put X kind (map_option (\<lambda>x. Uint16Attr (ucast x)) (sindex v 0))
     else None) b [])"

definition RTA_MAX :: nat where "RTA_MAX = 23"

definition next_hop_step :: "nat \<Rightarrow> nat \<Rightarrow> slice \<Rightarrow> AttrVec \<Rightarrow> AttrVec option" where
  "next_hop_step af k v X = (
     if k \<in> {1, 2, 7, 5} then put X k (afAddr af v)
     else if k \<in> {15, 3, 4, 6, 11} then put X k (Uint32AttrBytes v)
     else if k = 21 then put X k (map_option LwtunnelEncapType (sindex v 0))
     else if k = 22 then put X k (Some (StringAttrBytes v))
     else if k = 20 then put X k (Uint8AttrAt v)
     else if k = 16 then put X k (Uint32AttrBytes v)
     else None)"

text \<open>The attributes of one next hop: \<open>j\<close> runs to the end its header names, whether or not the buffer has it.\<close>

function next_hop_attrs :: "nat \<Rightarrow> slice \<Rightarrow> nat \<Rightarrow> nat \<Rightarrow> AttrVec \<Rightarrow> AttrVec option" where
  "next_hop_attrs af b hi j X = (if j < hi then do {
     (k, v, n) \<leftarrow> nextAttr b j;
     X \<leftarrow> next_hop_step af k v X;
     next_hop_attrs af b hi n X }
   else Some X)"
  by pat_completeness auto
termination
  by (relation "measure (\<lambda>(af, b, hi, j, X). hi - j)") (auto dest: nextAttr_mono)

declare next_hop_attrs.simps [simp del]

text \<open>The loop over the next hops advances by the length in the header: it does not end for a length of 0, and then
  has no result, as when it panics.\<close>

definition next_hop :: "nat \<Rightarrow> slice \<Rightarrow> nat \<Rightarrow> RtNextHop option" where
  "next_hop af b i = do {
     panic_unless (i + 8 \<le> length (sback b));
     let l = get_u16 (sback b) i;
     X \<leftarrow> next_hop_attrs af b (i + unat l) (i + 8) (replicate RTA_MAX None);
     Some (RtNextHop l (sback b ! (i + 2)) (sback b ! (i + 3)) (get_u32 (sback b) (i + 4)) X) }"

partial_function (option) multipath_loop :: "nat \<Rightarrow> slice \<Rightarrow> nat \<Rightarrow> RtNextHop list \<Rightarrow> RtNextHop list option" where
  [code]: "multipath_loop af b i hops = (if i < slen b then do {
     nh \<leftarrow> next_hop af b i;
     multipath_loop af b (i + attrAlignLen (unat (nhLen nh))) (hops @ [nh]) }
   else Some hops)"

definition NewRtaMultipathBytes :: "nat \<Rightarrow> slice \<Rightarrow> nlattr option" where
  "NewRtaMultipathBytes af b = map_option RtaMultipath (multipath_loop af b 0 [])"

subsection \<open>What Set leaves in the buffer\<close>

text \<open>The values a message can be made of, and their bytes. The byte behind a string is whatever the buffer held.\<close>

fun wf_attr :: "nlattr \<Rightarrow> bool" where
  "wf_attr (EthernetAddress a) = (length a = 6)"
| "wf_attr (Ip4Address a) = (length a = 4)"
| "wf_attr (Ip6Address a) = (length a = 16)"
| "wf_attr (LinkStats a) = (length a = N_link_stat)"
| "wf_attr (LinkStats64 a) = (length a = N_link_stat)"
| "wf_attr (AttrArray t X) = False"
| "wf_attr a = (attr_Size a \<noteq> None)"

fun attr_bytes :: "nlattr \<Rightarrow> u8 list" where
  "attr_bytes (HexStringAttr a) = a"
| "attr_bytes (Uint8Attr a) = [a]"
| "attr_bytes (Uint16Attr a) = le_bytes 2 a"
| "attr_bytes (Uint32Attr a) = le_bytes 4 a"
| "attr_bytes (Uint64Attr a) = le_bytes 8 a"
| "attr_bytes (Int8Attr a) = [a]"
| "attr_bytes (Int16Attr a) = le_bytes 2 a"
| "attr_bytes (Int32Attr a) = le_bytes 4 a"
| "attr_bytes (Int64Attr a) = le_bytes 8 a"
| "attr_bytes (EthernetAddress a) = a"
| "attr_bytes (Ip4Address a) = a"
| "attr_bytes (Ip6Address a) = a"
| "attr_bytes (VlanProtocolAttr a) = [ucast (drop_bit 8 a), ucast a]"
| "attr_bytes (IfAddrFlagAttr a) = le_bytes 4 a"
| "attr_bytes (IfOperState a) = [a]"
| "attr_bytes (Ip6IfFlagsAttr a) = le_bytes 4 a"
| "attr_bytes (LinkStats a) = concat (map (le_bytes 4) a)"
| "attr_bytes (LinkStats64 a) = concat (map (le_bytes 8) a)"
| "attr_bytes (LwtunnelEncapType a) = [a]"
| "attr_bytes _ = []"

definition encodes :: "nlattr \<Rightarrow> u8 list \<Rightarrow> bool" where
  "encodes a bs = (case a of StringAttr x \<Rightarrow> length bs = length x + 1 \<and> take (length x) bs = x | _ \<Rightarrow> bs = attr_bytes a)"

lemma length_concat_le: "length (concat (map (le_bytes n) xs)) = length xs * n"
  by (induction xs) auto

lemma attr_Size_bytes: "wf_attr a \<Longrightarrow> encodes a bs \<Longrightarrow> attr_Size a = Some (length bs)"
  by (cases a) (auto simp: encodes_def length_concat_le)

lemma poke_whole: "length bs = slen v \<Longrightarrow> slen v \<le> length (sback v) \<Longrightarrow> 0 < slen v \<Longrightarrow>
    \<exists>w. poke bs v = Some w \<and> slen w = slen v \<and> length (sback w) = length (sback v) \<and> take (slen v) (sback w) = bs"
  by (auto simp: poke_def)

lemma copy_whole: "length bs = slen v \<Longrightarrow> slen v \<le> length (sback v) \<Longrightarrow>
    slen (copy_bytes bs v) = slen v \<and> length (sback (copy_bytes bs v)) = length (sback v) \<and> take (slen v) (sback (copy_bytes bs v)) = bs"
  by (auto simp: copy_bytes_def Let_def)

lemma byte_whole: "slen v = 1 \<Longrightarrow> 1 \<le> length (sback v) \<Longrightarrow>
    \<exists>w. set_byte0 x v = Some w \<and> slen w = 1 \<and> length (sback w) = length (sback v) \<and> take 1 (sback w) = [x]"
  by (cases "sback v") (auto simp: set_byte0_def slice_set_def)

lemma attr_Set_whole:
  assumes "wf_attr a" "attr_Size a = Some (slen v)" "slen v \<le> length (sback v)"
  shows "\<exists>w. attr_Set a v = Some w \<and> slen w = slen v \<and> length (sback w) = length (sback v) \<and> encodes a (take (slen v) (sback w))"
proof (cases a)
  case (StringAttr x)
  then show ?thesis using assms
    by (auto simp: encodes_def StringAttr_Set_def copy_bytes_def Let_def min_def take_Suc_conv_app_nth nth_append)
next
  case (VlanProtocolAttr x)
  then have s: "slen v = 2" using assms by simp
  then obtain p q r where "sback v = p # q # r" using assms(3) by (cases "sback v"; cases "tl (sback v)") auto
  then show ?thesis using VlanProtocolAttr s
    by (auto simp: encodes_def VlanProtocolAttr_Set_def set_byte0_def slice_set_def)
qed (use assms poke_whole [of _ v] copy_whole [of _ v] byte_whole [of v] in
  \<open>auto simp: encodes_def length_concat_le N_link_stat_def\<close>)

subsection \<open>Reading back what was written\<close>

lemma Kind_of_nat: "i < 2 ^ 14 \<Longrightarrow> Kind (of_nat i) = i"
proof -
  assume i: "i < 2 ^ 14"
  have "(of_nat i :: u16) AND NOT (push_bit 15 1 OR push_bit 14 1) = of_nat i"
  proof (rule bit_word_eqI)
    fix n assume "n < LENGTH(16)"
    then have n: "n < 16" by simp
    have "bit (of_nat i :: u16) n \<longleftrightarrow> bit i n" using n by (simp add: bit_of_nat_iff)
    moreover have "\<not> bit i n" if "14 \<le> n"
      using that by (subst take_bit_nat_eq_self [OF i, symmetric]) (simp add: bit_take_bit_iff)
    ultimately show "bit ((of_nat i :: u16) AND NOT (push_bit 15 1 OR push_bit 14 1)) n = bit (of_nat i :: u16) n"
      using n by (auto simp: bit_simps bit_1_iff)
  qed
  then show ?thesis using i by (simp add: Kind_def unat_of_nat)
qed

lemma nextAttr_at:
  assumes "i < slen b" "length pre = i" "4 + length bs < 65536" "k < 2 ^ 14"
    and "sback b = pre @ le_bytes 2 (of_nat (SizeofNlAttr + length bs) :: u16) @ le_bytes 2 (of_nat k :: u16) @ bs @ r"
  shows "nextAttr b i = Some (k, Slice (bs @ r) (length bs), i + (4 + attrAlignLen (length bs)))"
proof -
  have l: "unat (get_u16 (sback b) i) = 4 + length bs"
    using assms(2,3) by (simp add: assms(5) get_at unat_of_nat SizeofNlAttr_def del: of_nat_add)
  have "get_u16 (sback b) (i + 2) = get_u16 (drop (i + 2) (sback b)) 0" by (simp add: get_u16_drop)
  then have k: "get_u16 (sback b) (i + 2) = of_nat k" using assms(2) by (simp add: assms(5))
  have "drop (i + 4) (sback b) = bs @ r" using assms(2) by (simp add: assms(5))
  moreover have "attrAlignLen (4 + length bs) = 4 + attrAlignLen (length bs)" unfolding attrAlignLen_eq by presburger
  moreover have "i + 4 + length bs \<le> length (sback b)" using assms(2) by (simp add: assms(5))
  ultimately show ?thesis using assms(1) l k
    by (simp add: nextAttr_def reslice_def SizeofNlAttr_def Kind_of_nat [OF assms(4)] add.assoc del: add_2_eq_Suc' numeral_Bit0)
qed

primrec fill :: "nat \<Rightarrow> AttrVec \<Rightarrow> AttrVec \<Rightarrow> AttrVec" where
  "fill i [] X = X"
| "fill i (a # as) X = fill (Suc i) as (case a of None \<Rightarrow> X | Some x \<Rightarrow> X[i := Some x])"

lemma fill_fresh: "length X = i + length as \<Longrightarrow> list_all (\<lambda>a. a = None) (drop i X) \<Longrightarrow> fill i as X = take i X @ as"
proof (induction as arbitrary: i X)
  case (Cons a as)
  let ?X = "case a of None \<Rightarrow> X | Some x \<Rightarrow> X[i := Some x]"
  have i: "i < length X" using Cons.prems(1) by simp
  then have "X ! i = None" "list_all (\<lambda>a. a = None) (drop (Suc i) X)"
    using Cons.prems(2) by (simp_all flip: Cons_nth_drop_Suc)
  then have "fill (Suc i) as ?X = take (Suc i) ?X @ as" "take (Suc i) ?X = take i X @ [a]"
    using Cons.prems(1) Cons.IH [of ?X "Suc i"] i by (auto simp: take_Suc_conv_app_nth split: option.split)
  then show ?case by simp
qed simp

primrec vec_ok :: "(nat \<Rightarrow> nlattr \<Rightarrow> bool) \<Rightarrow> nat \<Rightarrow> AttrVec \<Rightarrow> bool" where
  "vec_ok ok i [] = True"
| "vec_ok ok i (a # as) = ((case a of None \<Rightarrow> True | Some x \<Rightarrow> ok i x) \<and> vec_ok ok (Suc i) as)"

text \<open>The contract between a message's attributes and the loop that loads them: a step stores the value that was written,
  whatever lies behind its bytes.\<close>

locale attr_codec =
  fixes step :: "nat \<Rightarrow> slice \<Rightarrow> AttrVec \<Rightarrow> (AttrVec \<times> bool) option"
    and ok :: "nat \<Rightarrow> nlattr \<Rightarrow> bool"
  assumes ok_wf: "ok k a \<Longrightarrow> wf_attr a \<and> k < 2 ^ 14"
    and step_back: "ok k a \<Longrightarrow> encodes a bs \<Longrightarrow> k < length X \<Longrightarrow> step k (Slice (bs @ r) (length bs)) X = Some (X[k := Some a], False)"
begin

lemma AttrVec_Set_back:
  "vec_ok ok i as \<Longrightarrow> AttrVec_Set i as v vi = Some (vi', v') \<Longrightarrow> 4 dvd vi \<Longrightarrow> vi \<le> length (sback v) \<Longrightarrow>
     slen v = length (sback v) \<Longrightarrow> 4 dvd length (sback v) \<Longrightarrow> length (sback v) < 65536 \<Longrightarrow>
     slen v' = slen v \<and> length (sback v') = length (sback v) \<and> vi \<le> vi' \<and> vi' \<le> length (sback v) \<and> 4 dvd vi' \<and> take vi (sback v') = take vi (sback v) \<and>
     (\<forall>X pre r. i + length as \<le> length X \<longrightarrow>
        attr_loop step (Slice (pre @ drop vi (take vi' (sback v')) @ r) (length pre + (vi' - vi))) (length pre) X = Some (length pre + (vi' - vi), False, fill i as X))"
proof (induction as arbitrary: i v vi)
  case Nil
  then show ?case by (simp add: attr_loop.simps)
next
  case (Cons a as)
  show ?case
  proof (cases a)
    case None
    then show ?thesis using Cons.prems Cons.IH [of "Suc i" v vi] by (simp del: Nat.diff_add_assoc Nat.add_diff_assoc)
  next
    case (Some x)
    have ok: "ok i x" "vec_ok ok (Suc i) as" using Cons.prems(1) Some by simp_all
    obtain s where s: "attr_Size x = Some s" using Cons.prems(2) Some by (auto simp: bind_eq_Some_conv)
    define hd where "hd = le_bytes 2 (of_nat (SizeofNlAttr + s) :: u16) @ le_bytes 2 (of_nat i :: u16)"
    define v1 where "v1 = Slice (take vi (sback v) @ hd @ drop (vi + 4) (sback v)) (slen v)"
    obtain w w' where vi: "vi < slen v" "vi + 4 \<le> length (sback v)" and w: "reslice v1 (vi + 4) (vi + 4 + s) = Some w" "attr_Set x w = Some w'"
      and rest: "AttrVec_Set (Suc i) as (put_back v1 (vi + 4) w') (vi + (4 + attrAlignLen s)) = Some (vi', v')"
      using Cons.prems(2) Some s
      by (auto simp: bind_eq_Some_conv panic_simps SizeofNlAttr_def v1_def hd_def Let_def)
    have hd: "length hd = 4" by (simp add: hd_def)
    have v1: "length (sback v1) = length (sback v)" "slen v1 = slen v" using vi hd by (simp_all add: v1_def)
    have w1: "slen w = s" "sback w = drop (vi + 4) (sback v1)" "vi + 4 + s \<le> length (sback v1)"
      using w(1) by (auto simp: reslice_def split: if_splits)
    then have w2: "slen w' = s" "length (sback w') = length (sback w)" "encodes x (take s (sback w'))"
      using attr_Set_whole [of x w] ok_wf [OF ok(1)] s w(2) by auto
    define bs where "bs = take s (sback w')"
    define v2 where "v2 = put_back v1 (vi + 4) w'"
    let ?vi = "vi + (4 + attrAlignLen s)"
    have bs: "length bs = s" using w1 w2(2) by (simp add: bs_def)
    have b2: "sback v2 = take vi (sback v) @ hd @ bs @ drop s (sback w')"
      using vi hd by (simp add: v2_def put_back_def v1_def bs_def)
    have l2: "length (sback v2) = length (sback v)" "slen v2 = slen v" using w1 w2(2) v1 vi by (simp_all add: v2_def put_back_def)
    have d: "4 dvd ?vi" "s \<le> attrAlignLen s" using Cons.prems(3) attrAlignLen_ge [of s] by (auto intro: dvd_add)
    have "?vi \<le> length (sback v)" using d w1(3) v1(1) attrAlignLen_ge(2) [of s] Cons.prems(6) by (auto elim!: dvdE)
    then have IH: "slen v' = slen v" "length (sback v') = length (sback v)" "?vi \<le> vi'" "vi' \<le> length (sback v)" "4 dvd vi'"
      "take ?vi (sback v') = take ?vi (sback v2)"
      "\<And>X pre r. Suc i + length as \<le> length X \<Longrightarrow>
         attr_loop step (Slice (pre @ drop ?vi (take vi' (sback v')) @ r) (length pre + (vi' - ?vi))) (length pre) X = Some (length pre + (vi' - ?vi), False, fill (Suc i) as X)"
      using Cons.IH [OF ok(2) rest [folded v2_def]] d(1) l2 Cons.prems(5-7) by auto
    have "take (vi + 4 + s) (sback v') = take (vi + 4 + s) (sback v2)"
      using arg_cong [OF IH(6), of "take (vi + 4 + s)"] d(2) by (simp add: min_def)
    also have "\<dots> = take vi (sback v) @ hd @ bs" using vi hd bs by (simp add: b2)
    finally have t: "take (vi + 4 + s) (sback v') = take vi (sback v) @ hd @ bs" .
    have "take vi (sback v') = take vi (take (vi + 4 + s) (sback v'))" by (simp add: min_def)
    also have "\<dots> = take vi (sback v)" unfolding t using vi(2) by simp
    finally have tv: "take vi (sback v') = take vi (sback v)" .
    define pad where "pad = drop (vi + 4 + s) (take ?vi (sback v'))"
    define seg where "seg = drop ?vi (take vi' (sback v'))"
    have lp: "length pad = attrAlignLen s - s" "length seg = vi' - ?vi" using IH(2,3,4) d(2) by (simp_all add: pad_def seg_def)
    have "take vi' (sback v') = take (vi + 4 + s) (sback v') @ pad @ seg"
      unfolding pad_def seg_def using IH(3) d(2)
      by (metis (no_types, lifting) append_assoc append_take_drop_id drop_take add.assoc add_left_mono min.absorb1 take_take)
    then have seg: "drop vi (take vi' (sback v')) = hd @ bs @ pad @ seg" using t vi by simp
    have "attr_loop step (Slice (pre @ drop vi (take vi' (sback v')) @ r) (length pre + (vi' - vi))) (length pre) X
        = Some (length pre + (vi' - vi), False, fill i (a # as) X)" if X: "i + length (a # as) \<le> length X" for X pre r
    proof -
      let ?b = "Slice (pre @ (hd @ bs @ pad @ seg) @ r) (length pre + (vi' - vi))"
      have n: "nextAttr ?b (length pre) = Some (i, Slice (bs @ pad @ seg @ r) (length bs), length pre + (4 + attrAlignLen s))"
        using nextAttr_at [of "length pre" ?b pre bs i "pad @ seg @ r"] bs IH(3) ok_wf [OF ok(1)] w1(3) v1(1) Cons.prems(7) by (simp add: hd_def)
      have e: "length (pre @ hd @ bs @ pad) = length pre + (4 + attrAlignLen s)" using hd bs lp d(2) by simp
      have "attr_loop step ?b (length pre + (4 + attrAlignLen s)) (X[i := Some x])
          = Some (length pre + (vi' - vi), False, fill (Suc i) as (X[i := Some x]))"
        using IH(7) [of "X[i := Some x]" "pre @ hd @ bs @ pad" r, folded seg_def] X IH(3) unfolding e by simp
      moreover have "length pre < length pre + (vi' - vi)" using IH(3) by simp
      ultimately show ?thesis using X n step_back [OF ok(1), of bs X] w2(3) [folded bs_def] Some unfolding seg
        by (subst attr_loop.simps) (simp del: Nat.diff_add_assoc Nat.add_diff_assoc)
    qed
    moreover have "vi \<le> vi'" using IH(3) by simp
    ultimately show ?thesis using IH(1,2,4,5) tv by blast
  qed
qed

lemma AttrVec_Set_total:
  "vec_ok ok i as \<Longrightarrow> AttrVec_Size as = Some l \<Longrightarrow> vi + l \<le> length (sback v) \<Longrightarrow> slen v = length (sback v) \<Longrightarrow>
     \<exists>v'. AttrVec_Set i as v vi = Some (vi + l, v')"
proof (induction as arbitrary: i v vi l)
  case (Cons a as)
  show ?case
  proof (cases a)
    case None
    then show ?thesis using Cons by simp
  next
    case (Some x)
    obtain s l' where s: "attr_Size x = Some s" "AttrVec_Size as = Some l'" "l = 4 + attrAlignLen s + l'"
      using Cons.prems(2) Some by (auto simp: bind_eq_Some_conv SizeofNlAttr_def)
    have le: "vi + 4 + s \<le> length (sback v)" using attrAlignLen_ge(1) [of s] Cons.prems(3) s(3) by simp
    define v1 where "v1 = Slice (take vi (sback v) @ le_bytes 2 (of_nat (SizeofNlAttr + s) :: u16) @ le_bytes 2 (of_nat i :: u16) @ drop (vi + 4) (sback v)) (slen v)"
    have v1: "length (sback v1) = length (sback v)" using le by (simp add: v1_def)
    define w where "w = Slice (drop (vi + 4) (sback v1)) s"
    have r: "reslice v1 (vi + 4) (vi + 4 + s) = Some w" using le v1 by (simp add: reslice_def w_def)
    obtain w' where w': "attr_Set x w = Some w'" "length (sback w') = length (sback w)"
    proof -
      have "wf_attr x" "s \<le> length (sback w)" using ok_wf [of i x] Cons.prems(1) Some le v1 by (simp_all add: w_def)
      then show ?thesis using attr_Set_whole [of x w] s(1) that by (auto simp: w_def)
    qed
    have "\<exists>v'. AttrVec_Set (Suc i) as (put_back v1 (vi + 4) w') (vi + (4 + attrAlignLen s)) = Some (vi + (4 + attrAlignLen s) + l', v')"
      using Cons.prems s w'(2) v1 le by (intro Cons.IH) (auto simp: put_back_def w_def v1_def)
    moreover have "AttrVec_Set i (Some x # as) v vi = do { w \<leftarrow> reslice v1 (vi + 4) (vi + 4 + s); w \<leftarrow> attr_Set x w;
        AttrVec_Set (Suc i) as (put_back v1 (vi + 4) w) (vi + (4 + attrAlignLen s)) }"
      using s(1) le Cons.prems(4) by (simp add: v1_def SizeofNlAttr_def Let_def)
    ultimately show ?thesis using Some s(3) r w'(1) by (simp add: add.assoc)
  qed
qed simp

end

end
