(* ===== verification/Nl_Msg.thy ===== *)
theory Nl_Msg
  imports Nl_Attr
begin

section \<open>Messages: internal/netlink/msg.go\<close>

text \<open>
  A message has a header, a fixed part and a vector of attributes. \<open>Read\<close> stores a message into the transmit buffer and
  \<open>Write\<close> loads it from the receive buffer; both work on a slice of a larger buffer. The steps of the loading loops are
  shown to read back what \<open>Set\<close> stored, by interpreting \<open>attr_codec\<close> for each kind of message.
\<close>

subsection \<open>Headers\<close>

record Header =
  hdrLen :: u32
  hdrType :: u16
  hdrFlags :: u16
  hdrSequence :: u32
  hdrPid :: u32

definition SizeofHeader :: nat where "SizeofHeader = 16"

datatype nlerr = EOVERFLOW | UnknownAttr

definition header_bytes :: "Header \<Rightarrow> u8 list" where
  "header_bytes h = le_bytes 4 (hdrLen h) @ le_bytes 2 (hdrType h) @ le_bytes 2 (hdrFlags h) @ le_bytes 4 (hdrSequence h) @ le_bytes 4 (hdrPid h)"

definition get_header :: "u8 list \<Rightarrow> Header" where
  "get_header b = \<lparr>hdrLen = get_u32 b 0, hdrType = get_u16 b 4, hdrFlags = get_u16 b 6, hdrSequence = get_u32 b 8, hdrPid = get_u32 b 12\<rparr>"

definition MsgLen :: "Header \<Rightarrow> nat" where
  "MsgLen h = nat ((int (unat (hdrLen h)) + 4 - 1) AND NOT (4 - 1))"

definition Header_Read :: "Header \<Rightarrow> slice \<Rightarrow> ((nat \<times> nlerr option) \<times> slice) option" where
  "Header_Read h b = (if slen b < SizeofHeader then Some ((0, Some EOVERFLOW), b)
     else map_option (Pair (SizeofHeader, None)) (poke (header_bytes h) b))"

definition Header_Write :: "Header \<Rightarrow> slice \<Rightarrow> ((nat \<times> nlerr option) \<times> Header) option" where
  "Header_Write h b = (if slen b < SizeofHeader then Some ((0, Some EOVERFLOW), h)
     else map_option (\<lambda>x. ((SizeofHeader, None), get_header x)) (peek b SizeofHeader))"

subsection \<open>Fixed parts\<close>

record IfInfomsg =
  if_Family :: u8
  if_pad :: u8
  if_L2IfType :: u16
  if_Index :: u32
  if_Flags :: u32
  if_Change :: u32

record IfAddrmsg =
  ifa_Family :: u8
  ifa_Prefixlen :: u8
  ifa_Flags :: u8
  ifa_Scope :: u8
  ifa_Index :: u32

record Rtmsg =
  rt_Family :: u8
  rt_DstLen :: u8
  rt_SrcLen :: u8
  rt_Tos :: u8
  rt_Table :: u8
  rt_Protocol :: u8
  rt_Scope :: u8
  rt_RouteType :: u8
  rt_RouteFlags :: u32

record Ndmsg =
  nd_Family :: u8
  nd_pad :: "u8 \<times> u8 \<times> u8"
  nd_Index :: u32
  nd_State :: u16
  nd_Flags :: u8
  nd_Type :: u8

record Netnsmsg =
  ns_Family :: u8
  ns_pad :: "u8 \<times> u8 \<times> u8"

record Errormsg =
  Errno :: u32
  Req :: Header

definition ifinfo_bytes :: "IfInfomsg \<Rightarrow> u8 list" where
  "ifinfo_bytes m = [if_Family m, if_pad m] @ le_bytes 2 (if_L2IfType m) @ le_bytes 4 (if_Index m) @ le_bytes 4 (if_Flags m) @ le_bytes 4 (if_Change m)"

definition get_ifinfo :: "u8 list \<Rightarrow> IfInfomsg" where
  "get_ifinfo b = \<lparr>if_Family = b ! 0, if_pad = b ! 1, if_L2IfType = get_u16 b 2, if_Index = get_u32 b 4, if_Flags = get_u32 b 8, if_Change = get_u32 b 12\<rparr>"

definition ifaddr_bytes :: "IfAddrmsg \<Rightarrow> u8 list" where
  "ifaddr_bytes m = [ifa_Family m, ifa_Prefixlen m, ifa_Flags m, ifa_Scope m] @ le_bytes 4 (ifa_Index m)"

definition get_ifaddr :: "u8 list \<Rightarrow> IfAddrmsg" where
  "get_ifaddr b = \<lparr>ifa_Family = b ! 0, ifa_Prefixlen = b ! 1, ifa_Flags = b ! 2, ifa_Scope = b ! 3, ifa_Index = get_u32 b 4\<rparr>"

definition rtmsg_bytes :: "Rtmsg \<Rightarrow> u8 list" where
  "rtmsg_bytes m = [rt_Family m, rt_DstLen m, rt_SrcLen m, rt_Tos m, rt_Table m, rt_Protocol m, rt_Scope m, rt_RouteType m] @ le_bytes 4 (rt_RouteFlags m)"

definition get_rtmsg :: "u8 list \<Rightarrow> Rtmsg" where
  "get_rtmsg b = \<lparr>rt_Family = b ! 0, rt_DstLen = b ! 1, rt_SrcLen = b ! 2, rt_Tos = b ! 3, rt_Table = b ! 4, rt_Protocol = b ! 5,
     rt_Scope = b ! 6, rt_RouteType = b ! 7, rt_RouteFlags = get_u32 b 8\<rparr>"

definition ndmsg_bytes :: "Ndmsg \<Rightarrow> u8 list" where
  "ndmsg_bytes m = (case nd_pad m of (x, y, z) \<Rightarrow> [nd_Family m, x, y, z] @ le_bytes 4 (nd_Index m) @ le_bytes 2 (nd_State m) @ [nd_Flags m, nd_Type m])"

definition get_ndmsg :: "u8 list \<Rightarrow> Ndmsg" where
  "get_ndmsg b = \<lparr>nd_Family = b ! 0, nd_pad = (b ! 1, b ! 2, b ! 3), nd_Index = get_u32 b 4, nd_State = get_u16 b 8, nd_Flags = b ! 10, nd_Type = b ! 11\<rparr>"

definition netns_bytes :: "Netnsmsg \<Rightarrow> u8 list" where
  "netns_bytes m = (case ns_pad m of (x, y, z) \<Rightarrow> [ns_Family m, x, y, z])"

definition get_netns :: "u8 list \<Rightarrow> Netnsmsg" where
  "get_netns b = \<lparr>ns_Family = b ! 0, ns_pad = (b ! 1, b ! 2, b ! 3)\<rparr>"

definition errormsg_bytes :: "Errormsg \<Rightarrow> u8 list" where
  "errormsg_bytes m = le_bytes 4 (Errno m) @ header_bytes (Req m)"

definition get_errormsg :: "u8 list \<Rightarrow> Errormsg" where
  "get_errormsg b = \<lparr>Errno = get_u32 b 0, Req = get_header (drop 4 b)\<rparr>"

record 'b message =
  nsid :: int
  mHeader :: Header
  Msg :: 'b
  Attrs :: AttrVec

subsection \<open>Storing a message\<close>

text \<open>What every \<open>Read\<close> does: the header, the fixed part behind it, the attributes behind that.\<close>

definition message_Read :: "('b \<Rightarrow> u8 list) \<Rightarrow> nat \<Rightarrow> 'b message \<Rightarrow> slice \<Rightarrow> ((nat \<times> nlerr option) \<times> slice) option" where
  "message_Read enc sz m b = (if slen b < SizeofHeader + sz then Some ((0, Some EOVERFLOW), b)
     else do {
       ((n, _), b) \<leftarrow> Header_Read (mHeader m) b;
       v \<leftarrow> reslice b n (slen b);
       v \<leftarrow> poke (enc (Msg m)) v;
       let b = put_back b n v;
       let n = n + sz;
       v \<leftarrow> reslice b n (slen b);
       (vi, v) \<leftarrow> AttrVec_Set 0 (Attrs m) v 0;
       Some ((n + vi, None), put_back b n v) })"

definition IfInfoMessage_Read :: "IfInfomsg message \<Rightarrow> slice \<Rightarrow> ((nat \<times> nlerr option) \<times> slice) option" where
  "IfInfoMessage_Read = message_Read ifinfo_bytes 16"

definition IfAddrMessage_Read :: "IfAddrmsg message \<Rightarrow> slice \<Rightarrow> ((nat \<times> nlerr option) \<times> slice) option" where
  "IfAddrMessage_Read = message_Read ifaddr_bytes 8"

definition RouteMessage_Read :: "Rtmsg message \<Rightarrow> slice \<Rightarrow> ((nat \<times> nlerr option) \<times> slice) option" where
  "RouteMessage_Read = message_Read rtmsg_bytes 12"

definition NeighborMessage_Read :: "Ndmsg message \<Rightarrow> slice \<Rightarrow> ((nat \<times> nlerr option) \<times> slice) option" where
  "NeighborMessage_Read = message_Read ndmsg_bytes 12"

definition NetnsMessage_Read :: "Netnsmsg message \<Rightarrow> slice \<Rightarrow> ((nat \<times> nlerr option) \<times> slice) option" where
  "NetnsMessage_Read = message_Read netns_bytes 4"

text \<open>Messages without attributes.\<close>

definition GenMessage_Read :: "u8 message \<Rightarrow> slice \<Rightarrow> ((nat \<times> nlerr option) \<times> slice) option" where
  "GenMessage_Read m b = (if slen b < SizeofHeader + 1 then Some ((0, Some EOVERFLOW), b)
     else do {
       ((n, _), b) \<leftarrow> Header_Read (mHeader m) b;
       v \<leftarrow> reslice b n (slen b);
       v \<leftarrow> poke [Msg m] v;
       Some ((n + 1, None), put_back b n v) })"

definition ErrorMessage_Read :: "Errormsg message \<Rightarrow> slice \<Rightarrow> ((nat \<times> nlerr option) \<times> slice) option" where
  "ErrorMessage_Read m b = (if slen b < SizeofHeader + 20 then Some ((0, Some EOVERFLOW), b)
     else do {
       ((n, _), b) \<leftarrow> Header_Read (mHeader m) b;
       v \<leftarrow> reslice b n (slen b);
       v \<leftarrow> poke (errormsg_bytes (Msg m)) v;
       Some ((n + 20, None), put_back b n v) })"

definition NoopMessage_Read :: "unit message \<Rightarrow> slice \<Rightarrow> ((nat \<times> nlerr option) \<times> slice) option" where
  "NoopMessage_Read m b = (if slen b < SizeofHeader then Some ((0, Some EOVERFLOW), b) else Header_Read (mHeader m) b)"

definition DoneMessage_Read :: "unit message \<Rightarrow> slice \<Rightarrow> ((nat \<times> nlerr option) \<times> slice) option" where
  "DoneMessage_Read m b = (if slen b < SizeofHeader then Some ((0, Some EOVERFLOW), b) else Header_Read (mHeader m) b)"

subsection \<open>Loading a message\<close>

text \<open>What every \<open>Write\<close> does up to the loop over the attributes.\<close>

definition load_fixed :: "(u8 list \<Rightarrow> 'b) \<Rightarrow> nat \<Rightarrow> 'b message \<Rightarrow> slice \<Rightarrow> (nat \<times> 'b message) option" where
  "load_fixed dec sz m b = do {
     ((n, _), h) \<leftarrow> Header_Write (mHeader m) b;
     v \<leftarrow> reslice b n (slen b);
     x \<leftarrow> peek v sz;
     Some (n + sz, m\<lparr>mHeader := h, Msg := dec x\<rparr>) }"

definition no_stop :: "AttrVec option \<Rightarrow> (AttrVec \<times> bool) option" where
  "no_stop = map_option (\<lambda>X. (X, False))"

definition string_attr :: "slice \<Rightarrow> nlattr option" where
  "string_attr v = (if slen v = 0 then None else map_option StringAttrBytes (reslice v 0 (slen v - 1)))"

definition IFLA_MAX :: nat where "IFLA_MAX = 45"

definition ifinfo_step :: "nat \<Rightarrow> slice \<Rightarrow> AttrVec \<Rightarrow> (AttrVec \<times> bool) option" where
  "ifinfo_step k v X = no_stop (
     if k \<in> {3, 6} then put X k (string_attr v)
     else if k \<in> {4, 5, 10, 15, 19, 28, 37, 29, 30, 31, 32, 13, 40, 41, 35, 27} then put X k (Uint32AttrBytes v)
     else if k \<in> {33, 17, 39} then put X k (Uint8AttrAt v)
     else if k = 16 then put X k (map_option IfOperState (sindex v 0))
     else if k = 7 then put X k (NewLinkStatsBytes v)
     else if k = 23 then put X k (NewLinkStats64Bytes v)
     else if k = 26 then put X k (parse_af_spec v)
     else if k \<in> {1, 2} then put X k (afAddr AF_UNSPEC v)
     else if k = 18 then put X k (parse_link_info v)
     else if k \<in> {14, 42, 43} then Some X
     else if k = 44 then put X k (Uint32AttrBytes v)
     else if k < IFLA_MAX then put X k (Some (NewHexStringAttrBytes v))
     else Some X)"

definition IfInfoMessage_Write :: "IfInfomsg message \<Rightarrow> slice \<Rightarrow> ((nat \<times> nlerr option) \<times> IfInfomsg message) option" where
  "IfInfoMessage_Write m b = (if slen b < SizeofHeader + 16 then Some ((0, Some EOVERFLOW), m)
     else do {
       (n, m) \<leftarrow> load_fixed get_ifinfo 16 m b;
       (n, stop, X) \<leftarrow> attr_loop ifinfo_step b n (Attrs m);
       Some ((n, None), m\<lparr>Attrs := X\<rparr>) })"

definition IFA_MAX :: nat where "IFA_MAX = 9"

definition ifaddr_step :: "nat \<Rightarrow> nat \<Rightarrow> slice \<Rightarrow> AttrVec \<Rightarrow> (AttrVec \<times> bool) option" where
  "ifaddr_step family k v X = (
     if k = 3 then no_stop (put X k (string_attr v))
     else if k = 8 then no_stop (put X k (IfAddrFlagAttrBytes v))
     else if k = 6 then no_stop (put X k (NewIfAddrCacheInfoBytes v))
     else if k \<in> {1, 2, 4, 5, 7} then no_stop (put X k (afAddr family v))
     else if k < IFA_MAX then no_stop (put X k (Some (NewHexStringAttrBytes v)))
     else Some (X, True))"

text \<open>The error of an unknown attribute is a text with its kind, which no caller looks at.\<close>

definition IfAddrMessage_Write :: "IfAddrmsg message \<Rightarrow> slice \<Rightarrow> ((nat \<times> nlerr option) \<times> IfAddrmsg message) option" where
  "IfAddrMessage_Write m b = (if slen b < SizeofHeader + 8 then Some ((0, Some EOVERFLOW), m)
     else do {
       (n, m) \<leftarrow> load_fixed get_ifaddr 8 m b;
       (n, stop, X) \<leftarrow> attr_loop (ifaddr_step (unat (ifa_Family (Msg m)))) b n (Attrs m);
       Some ((n, if stop then Some UnknownAttr else None), m\<lparr>Attrs := X\<rparr>) })"

definition RTA_ENCAP_TYPE :: nat where "RTA_ENCAP_TYPE = 21"
definition RTA_ENCAP :: nat where "RTA_ENCAP = 22"

definition route_step :: "nat \<Rightarrow> nat \<Rightarrow> slice \<Rightarrow> AttrVec \<Rightarrow> (AttrVec \<times> bool) option" where
  "route_step family k v X = (
     if k \<in> {1, 2, 7, 5} then no_stop (put X k (afAddr family v))
     else if k \<in> {15, 3, 4, 6, 11} then no_stop (put X k (Uint32AttrBytes v))
     else if k = RTA_ENCAP_TYPE then no_stop (put X k (map_option LwtunnelEncapType (sindex v 0)))
     else if k = RTA_ENCAP then no_stop (put X k (Some (StringAttrBytes v)))
     else if k = 20 then no_stop (put X k (Uint8AttrAt v))
     else if k = 12 then no_stop (put X k (NewRtaCacheInfoBytes v))
     else if k = 9 then no_stop (put X k (NewRtaMultipathBytes family v))
     else if k < RTA_MAX then no_stop (put X k (Some (NewHexStringAttrBytes v)))
     else Some (X, True))"

definition route_encap :: "AttrVec \<Rightarrow> AttrVec option" where
  "route_encap X = (case X ! RTA_ENCAP_TYPE of None \<Rightarrow> Some X
     | Some (LwtunnelEncapType t) \<Rightarrow>
         if t = 2 then do { d \<leftarrow> string_bytes (X ! RTA_ENCAP); put X RTA_ENCAP (parse_lwtunnel_ip4_encap d) }
         else if t = 4 then do { d \<leftarrow> string_bytes (X ! RTA_ENCAP); put X RTA_ENCAP (parse_lwtunnel_ip6_encap d) }
         else None
     | _ \<Rightarrow> None)"

definition RouteMessage_Write :: "Rtmsg message \<Rightarrow> slice \<Rightarrow> ((nat \<times> nlerr option) \<times> Rtmsg message) option" where
  "RouteMessage_Write m b = (if slen b < SizeofHeader + 12 then Some ((0, Some EOVERFLOW), m)
     else do {
       (n, m) \<leftarrow> load_fixed get_rtmsg 12 m b;
       (n, stop, X) \<leftarrow> attr_loop (route_step (unat (rt_Family (Msg m)))) b n (Attrs m);
       if stop then Some ((n, Some UnknownAttr), m\<lparr>Attrs := X\<rparr>)
       else do { X \<leftarrow> route_encap X; Some ((n, None), m\<lparr>Attrs := X\<rparr>) } })"

definition NDA_MAX :: nat where "NDA_MAX = 11"

definition neighbor_step :: "nat \<Rightarrow> nat \<Rightarrow> slice \<Rightarrow> AttrVec \<Rightarrow> (AttrVec \<times> bool) option" where
  "neighbor_step family k v X = (
     if k = 1 then no_stop (put X k (afAddr family v))
     else if k = 2 then no_stop (put X k (afAddr AF_UNSPEC v))
     else if k = 3 then no_stop (put X k (NewNdaCacheInfoBytes v))
     else if k \<in> {4, 7, 8, 9, 10} then no_stop (put X k (Uint32AttrBytes v))
     else if k = 5 then no_stop (put X k (Uint16AttrBytes v))
     else if k < NDA_MAX then no_stop (put X k (Some (NewHexStringAttrBytes v)))
     else Some (X, True))"

definition NeighborMessage_Write :: "Ndmsg message \<Rightarrow> slice \<Rightarrow> ((nat \<times> nlerr option) \<times> Ndmsg message) option" where
  "NeighborMessage_Write m b = (if slen b < SizeofHeader + 12 then Some ((0, Some EOVERFLOW), m)
     else do {
       (n, m) \<leftarrow> load_fixed get_ndmsg 12 m b;
       (n, stop, X) \<leftarrow> attr_loop (neighbor_step (unat (nd_Family (Msg m)))) b n (Attrs m);
       Some (if stop then (0, Some UnknownAttr) else (n, None), m\<lparr>Attrs := X\<rparr>) })"

definition NETNSA_MAX :: nat where "NETNSA_MAX = 4"

definition netns_step :: "nat \<Rightarrow> slice \<Rightarrow> AttrVec \<Rightarrow> (AttrVec \<times> bool) option" where
  "netns_step k v X = (
     if k = 0 then Some (X, False)
     else if k = 1 then no_stop (put X k (Int32AttrBytes v))
     else if k \<in> {2, 3} then no_stop (put X k (Uint32AttrBytes v))
     else Some (X, True))"

definition NetnsMessage_Write :: "Netnsmsg message \<Rightarrow> slice \<Rightarrow> ((nat \<times> nlerr option) \<times> Netnsmsg message) option" where
  "NetnsMessage_Write m b = (if slen b < SizeofHeader + 4 then Some ((0, Some EOVERFLOW), m)
     else do {
       (n, m) \<leftarrow> load_fixed get_netns 4 m b;
       (n, stop, X) \<leftarrow> attr_loop netns_step b n (Attrs m);
       Some ((n, if stop then Some UnknownAttr else None), m\<lparr>Attrs := X\<rparr>) })"

definition GenMessage_Write :: "u8 message \<Rightarrow> slice \<Rightarrow> ((nat \<times> nlerr option) \<times> u8 message) option" where
  "GenMessage_Write m b = (if slen b < SizeofHeader + 1 then Some ((0, Some EOVERFLOW), m)
     else map_option (\<lambda>(n, m). ((n, None), m)) (load_fixed (\<lambda>x. x ! 0) 1 m b))"

definition ErrorMessage_Write :: "Errormsg message \<Rightarrow> slice \<Rightarrow> ((nat \<times> nlerr option) \<times> Errormsg message) option" where
  "ErrorMessage_Write m b = (if slen b < SizeofHeader + 20 then Some ((0, Some EOVERFLOW), m)
     else map_option (\<lambda>(n, m). ((n, None), m)) (load_fixed get_errormsg 20 m b))"

definition NoopMessage_Write :: "unit message \<Rightarrow> slice \<Rightarrow> ((nat \<times> nlerr option) \<times> unit message) option" where
  "NoopMessage_Write m b = (if slen b < SizeofHeader then Some ((0, Some EOVERFLOW), m)
     else map_option (\<lambda>(r, h). (r, m\<lparr>mHeader := h\<rparr>)) (Header_Write (mHeader m) b))"

definition DoneMessage_Write :: "unit message \<Rightarrow> slice \<Rightarrow> ((nat \<times> nlerr option) \<times> unit message) option" where
  "DoneMessage_Write m b = (if slen b < SizeofHeader then Some ((0, Some EOVERFLOW), m)
     else map_option (\<lambda>(r, h). (r, m\<lparr>mHeader := h\<rparr>)) (Header_Write (mHeader m) b))"

subsection \<open>New messages\<close>

definition zero_header :: Header where
  "zero_header = \<lparr>hdrLen = 0, hdrType = 0, hdrFlags = 0, hdrSequence = 0, hdrPid = 0\<rparr>"

text \<open>A message from the pool: everything zero but the name space.\<close>

definition pooled :: "'b \<Rightarrow> nat \<Rightarrow> 'b message" where
  "pooled zero n = \<lparr>nsid = -1, mHeader = zero_header, Msg = zero, Attrs = replicate n None\<rparr>"

definition NewNoopMessage :: "unit message" where "NewNoopMessage = pooled () 0"

definition NewDoneMessage :: "unit message" where "NewDoneMessage = pooled () 0"

definition NewGenMessage :: "u8 message" where
  "NewGenMessage = (pooled 0 0)\<lparr>mHeader := zero_header\<lparr>hdrLen := 17\<rparr>\<rparr>"

definition NLMSG_NOOP :: u16 where "NLMSG_NOOP = 1"
definition NLMSG_ERROR :: u16 where "NLMSG_ERROR = 2"
definition NLMSG_DONE :: u16 where "NLMSG_DONE = 3"

text \<open>The length is the one of the fixed part, without the header.\<close>

definition NewErrorMessage :: "Errormsg message" where
  "NewErrorMessage = (pooled \<lparr>Errno = 0, Req = zero_header\<rparr> 0)\<lparr>mHeader := zero_header\<lparr>hdrType := NLMSG_ERROR, hdrLen := 20\<rparr>\<rparr>"

definition NewIfInfoMessage :: "IfInfomsg message" where
  "NewIfInfoMessage = pooled (get_ifinfo (replicate 16 0)) IFLA_MAX"

definition NewIfAddrMessage :: "IfAddrmsg message" where
  "NewIfAddrMessage = pooled (get_ifaddr (replicate 8 0)) IFA_MAX"

definition NewRouteMessage :: "Rtmsg message" where
  "NewRouteMessage = pooled (get_rtmsg (replicate 12 0)) RTA_MAX"

definition NewNeighborMessage :: "Ndmsg message" where
  "NewNeighborMessage = pooled (get_ndmsg (replicate 12 0)) NDA_MAX"

definition NewNetnsMessage :: "Netnsmsg message" where
  "NewNetnsMessage = pooled (get_netns (replicate 4 0)) NETNSA_MAX"

subsection \<open>The steps read back what Set wrote\<close>

definition addr_ok :: "nat \<Rightarrow> nlattr \<Rightarrow> bool" where
  "addr_ok f a = (case a of Ip4Address x \<Rightarrow> length x = 4 | Ip6Address x \<Rightarrow> length x = 16 \<and> f \<noteq> AF_INET
     | EthernetAddress x \<Rightarrow> length x = 6 \<and> f \<noteq> AF_INET \<and> f \<noteq> AF_INET6 | _ \<Rightarrow> False)"

lemma afAddr_back: "addr_ok f a \<Longrightarrow> encodes a bs \<Longrightarrow> afAddr f (Slice (bs @ r) (length bs)) = Some a"
  by (cases a) (auto simp: addr_ok_def encodes_def afAddr_def NewIp4AddressBytes_def NewIp6AddressBytes_def
    NewEthernetAddressBytes_def reslice_def sbytes_def)

lemma addr_ok_wf: "addr_ok f a \<Longrightarrow> wf_attr a"
  by (cases a) (auto simp: addr_ok_def)

lemma load_le_bytes: "load (le_bytes n (w :: u64)) = take_bit (8 * n) w"
proof (induction n arbitrary: w)
  case (Suc n)
  have "(ucast (ucast w :: u8) :: u64) = take_bit 8 w" by (auto simp: bit_eq_iff bit_simps)
  then have "load (le_bytes (Suc n) w) = take_bit 8 w + push_bit 8 (take_bit (8 * n) (drop_bit 8 w))"
    using Suc [of "drop_bit 8 w"] by (simp add: push_bit_eq_mult mult.commute)
  also have "\<dots> = take_bit 8 w OR push_bit 8 (take_bit (8 * n) (drop_bit 8 w))"
    by (rule disjunctive_add_eq_or) (auto simp: bit_eq_iff bit_simps)
  also have "\<dots> = take_bit (8 * Suc n) w"
    by (auto simp: bit_eq_iff bit_simps)
  finally show ?case .
qed simp

lemma get_u64_le [simp]: "get_u64 (le_bytes 8 w @ r) 0 = (w :: u64)"
  by (simp add: get_u64_def load_le_bytes bit_eq_iff bit_simps)

lemma number_back:
  "encodes (Uint8Attr x8) bs \<Longrightarrow> Uint8AttrAt (Slice (bs @ r) (length bs)) = Some (Uint8Attr x8)"
  "encodes (IfOperState x8) bs \<Longrightarrow> sindex (Slice (bs @ r) (length bs)) 0 = Some x8"
  "encodes (Uint16Attr x16) bs \<Longrightarrow> Uint16AttrBytes (Slice (bs @ r) (length bs)) = Some (Uint16Attr x16)"
  "encodes (Uint32Attr x32) bs \<Longrightarrow> Uint32AttrBytes (Slice (bs @ r) (length bs)) = Some (Uint32Attr x32)"
  "encodes (Int32Attr x32) bs \<Longrightarrow> Int32AttrBytes (Slice (bs @ r) (length bs)) = Some (Int32Attr x32)"
  "encodes (IfAddrFlagAttr x32) bs \<Longrightarrow> IfAddrFlagAttrBytes (Slice (bs @ r) (length bs)) = Some (IfAddrFlagAttr x32)"
  "encodes (HexStringAttr h) bs \<Longrightarrow> NewHexStringAttrBytes (Slice (bs @ r) (length bs)) = HexStringAttr h"
  "encodes (StringAttr h) bs \<Longrightarrow> string_attr (Slice (bs @ r) (length bs)) = Some (StringAttr h)"
  using get_u16_le [of x16 "[]"] get_u32_le [of x32 "[]"]
  by (auto simp: encodes_def Uint8AttrAt_def sindex_def Uint16AttrBytes_def Uint32AttrBytes_def Int32AttrBytes_def IfAddrFlagAttrBytes_def
    NewHexStringAttrBytes_def string_attr_def StringAttrBytes_def reslice_def sbytes_def peek_def)

lemma drop_concat_le:
  "i < length xs \<Longrightarrow> drop (n * i) (concat (map (le_bytes n) xs)) = le_bytes n (xs ! i) @ concat (map (le_bytes n) (drop (Suc i) xs))"
proof (induction xs arbitrary: i)
  case (Cons x xs)
  then show ?case by (cases i) simp_all
qed simp

lemma u32s_back: "u32s (length xs) (concat (map (le_bytes 4) xs)) = xs"
  by (auto intro!: nth_equalityI simp: u32s_def drop_concat_le
    get_u32_drop [of "4 * i" _ 0 for i, simplified, symmetric])

lemma u64s_back: "u64s (length xs) (concat (map (le_bytes 8) xs)) = xs"
proof -
  have "get_u64 b (8 * i) = get_u64 (drop (8 * i) b) 0" for b i by (simp add: get_u64_def)
  then show ?thesis by (auto intro!: nth_equalityI simp: u64s_def drop_concat_le)
qed

lemma stats_back:
  "length s4 = N_link_stat \<Longrightarrow> encodes (LinkStats s4) bs \<Longrightarrow> NewLinkStatsBytes (Slice (bs @ r) (length bs)) = Some (LinkStats s4)"
  "length s8 = N_link_stat \<Longrightarrow> encodes (LinkStats64 s8) bs \<Longrightarrow> NewLinkStats64Bytes (Slice (bs @ r) (length bs)) = Some (LinkStats64 s8)"
  using u32s_back [of s4] u64s_back [of s8]
  by (auto simp: encodes_def NewLinkStatsBytes_def NewLinkStats64Bytes_def peek_def length_concat_le N_link_stat_def mult.commute)

subsection \<open>Attributes that survive\<close>

text \<open>For every kind of message: the values its loop makes of what they write.\<close>

definition neighbor_ok :: "nat \<Rightarrow> nat \<Rightarrow> nlattr \<Rightarrow> bool" where
  "neighbor_ok family k a = (
     if k = 1 then addr_ok family a
     else if k = 2 then addr_ok AF_UNSPEC a
     else if k \<in> {4, 7, 8, 9, 10} then (case a of Uint32Attr x \<Rightarrow> True | _ \<Rightarrow> False)
     else if k = 5 then (case a of Uint16Attr x \<Rightarrow> True | _ \<Rightarrow> False)
     else k < NDA_MAX \<and> k \<noteq> 3 \<and> (case a of HexStringAttr x \<Rightarrow> True | _ \<Rightarrow> False))"

definition ifaddr_ok :: "nat \<Rightarrow> nat \<Rightarrow> nlattr \<Rightarrow> bool" where
  "ifaddr_ok family k a = (
     if k = 3 then (case a of StringAttr x \<Rightarrow> True | _ \<Rightarrow> False)
     else if k = 8 then (case a of IfAddrFlagAttr x \<Rightarrow> True | _ \<Rightarrow> False)
     else if k \<in> {1, 2, 4, 5, 7} then addr_ok family a
     else k < IFA_MAX \<and> k \<noteq> 6 \<and> (case a of HexStringAttr x \<Rightarrow> True | _ \<Rightarrow> False))"

definition ifinfo_ok :: "nat \<Rightarrow> nlattr \<Rightarrow> bool" where
  "ifinfo_ok k a = (
     if k \<in> {3, 6} then (case a of StringAttr x \<Rightarrow> True | _ \<Rightarrow> False)
     else if k \<in> {4, 5, 10, 15, 19, 28, 37, 29, 30, 31, 32, 13, 40, 41, 35, 27, 44} then (case a of Uint32Attr x \<Rightarrow> True | _ \<Rightarrow> False)
     else if k \<in> {33, 17, 39} then (case a of Uint8Attr x \<Rightarrow> True | _ \<Rightarrow> False)
     else if k = 16 then (case a of IfOperState x \<Rightarrow> True | _ \<Rightarrow> False)
     else if k = 7 then (case a of LinkStats x \<Rightarrow> length x = N_link_stat | _ \<Rightarrow> False)
     else if k = 23 then (case a of LinkStats64 x \<Rightarrow> length x = N_link_stat | _ \<Rightarrow> False)
     else if k \<in> {1, 2} then addr_ok AF_UNSPEC a
     else k < IFLA_MAX \<and> k \<notin> {14, 42, 43, 26, 18} \<and> (case a of HexStringAttr x \<Rightarrow> True | _ \<Rightarrow> False))"

definition netns_ok :: "nat \<Rightarrow> nlattr \<Rightarrow> bool" where
  "netns_ok k a = (if k = 1 then (case a of Int32Attr x \<Rightarrow> True | _ \<Rightarrow> False)
     else k \<in> {2, 3} \<and> (case a of Uint32Attr x \<Rightarrow> True | _ \<Rightarrow> False))"

lemmas step_simps = no_stop_def put_def number_back stats_back afAddr_back addr_ok_wf

interpretation nb: attr_codec "neighbor_step f" "neighbor_ok f" for f
proof
  fix k a assume "neighbor_ok f k a"
  then show "wf_attr a \<and> k < 2 ^ 14"
    by (auto simp: neighbor_ok_def NDA_MAX_def addr_ok_wf split: if_splits nlattr.splits)
next
  fix k a bs X r assume "neighbor_ok f k a" "encodes a bs" "k < length (X :: AttrVec)"
  then show "neighbor_step f k (Slice (bs @ r) (length bs)) X = Some (X[k := Some a], False)"
    by (auto simp: neighbor_ok_def neighbor_step_def NDA_MAX_def step_simps split: if_splits nlattr.splits)
qed

interpretation ifa: attr_codec "ifaddr_step f" "ifaddr_ok f" for f
proof
  fix k a assume "ifaddr_ok f k a"
  then show "wf_attr a \<and> k < 2 ^ 14"
    by (auto simp: ifaddr_ok_def IFA_MAX_def addr_ok_wf split: if_splits nlattr.splits)
next
  fix k a bs X r assume "ifaddr_ok f k a" "encodes a bs" "k < length (X :: AttrVec)"
  then show "ifaddr_step f k (Slice (bs @ r) (length bs)) X = Some (X[k := Some a], False)"
    by (auto simp: ifaddr_ok_def ifaddr_step_def IFA_MAX_def step_simps split: if_splits nlattr.splits)
qed

interpretation ns: attr_codec netns_step netns_ok
proof
  fix k a assume "netns_ok k a"
  then show "wf_attr a \<and> k < 2 ^ 14"
    by (auto simp: netns_ok_def split: if_splits nlattr.splits)
next
  fix k a bs X r assume "netns_ok k a" "encodes a bs" "k < length (X :: AttrVec)"
  then show "netns_step k (Slice (bs @ r) (length bs)) X = Some (X[k := Some a], False)"
    by (auto simp: netns_ok_def netns_step_def step_simps split: if_splits nlattr.splits)
qed

interpretation ifi: attr_codec ifinfo_step ifinfo_ok
proof
  fix k a assume "ifinfo_ok k a"
  then show "wf_attr a \<and> k < 2 ^ 14"
    by (auto simp: ifinfo_ok_def IFLA_MAX_def addr_ok_wf split: if_splits nlattr.splits)
next
  fix k a bs X r assume "ifinfo_ok k a" "encodes a bs" "k < length (X :: AttrVec)"
  then show "ifinfo_step k (Slice (bs @ r) (length bs)) X = Some (X[k := Some a], False)"
    by (auto simp: ifinfo_ok_def ifinfo_step_def IFLA_MAX_def step_simps split: if_splits nlattr.splits)
qed

subsection \<open>Messages that survive\<close>

lemma length_header_bytes [simp]: "length (header_bytes h) = 16"
  by (simp add: header_bytes_def)

lemma get_header_bytes [simp]: "get_header (header_bytes h @ r) = h"
proof -
  have "get_u32 (header_bytes h @ r) 0 = hdrLen h" "get_u16 (header_bytes h @ r) 4 = hdrType h"
    "get_u16 (header_bytes h @ r) 6 = hdrFlags h" "get_u32 (header_bytes h @ r) 8 = hdrSequence h" "get_u32 (header_bytes h @ r) 12 = hdrPid h"
    using get_at(1) [of "le_bytes 4 (hdrLen h)" 4] get_at(1) [of "le_bytes 4 (hdrLen h) @ le_bytes 2 (hdrType h)" 6]
      get_at(2) [of "le_bytes 4 (hdrLen h) @ le_bytes 2 (hdrType h) @ le_bytes 2 (hdrFlags h)" 8]
      get_at(2) [of "le_bytes 4 (hdrLen h) @ le_bytes 2 (hdrType h) @ le_bytes 2 (hdrFlags h) @ le_bytes 4 (hdrSequence h)" 12]
    by (simp_all add: header_bytes_def)
  then show ?thesis by (simp add: get_header_def)
qed

lemma message_Read_back:
  assumes "attr_codec step ok" "vec_ok ok 0 (Attrs m)" "message_Read enc sz m b = Some ((n, None), b')"
    and "slen b = length (sback b)" "4 dvd length (sback b)" "length (sback b) < 65536" "length (enc (Msg m)) = sz" "4 dvd sz"
  shows "slen b' = slen b \<and> length (sback b') = length (sback b) \<and> 16 + sz \<le> n \<and> n \<le> slen b \<and>
    (\<exists>seg. take n (sback b') = header_bytes (mHeader m) @ enc (Msg m) @ seg \<and>
      (\<forall>pre r. length pre = 16 + sz \<longrightarrow> attr_loop step (Slice (pre @ seg @ r) n) (16 + sz) (replicate (length (Attrs m)) None) = Some (n, False, Attrs m)))"
proof -
  define b1 where "b1 = header_bytes (mHeader m) @ enc (Msg m) @ drop (16 + sz) (sback b)"
  have l: "16 + sz \<le> slen b" using assms(3) by (auto simp: message_Read_def SizeofHeader_def split: if_splits)
  then have b1: "length b1 = length (sback b)" using assms(4,7) by (simp add: b1_def)
  obtain vi v where v: "AttrVec_Set 0 (Attrs m) (Slice (drop (16 + sz) b1) (slen b - (16 + sz))) 0 = Some (vi, v)"
    and n: "n = 16 + sz + vi" and b': "b' = Slice (take (16 + sz) b1 @ sback v) (slen b)"
    using assms(3,4,7) l
    by (auto simp: message_Read_def SizeofHeader_def Header_Read_def poke_def reslice_def put_back_def Let_def bind_eq_Some_conv b1_def
      add.commute [of "length (enc (Msg m))" 16] split: if_splits)
  have "slen v = slen b - (16 + sz) \<and> length (sback v) = length (sback b) - (16 + sz) \<and> 0 \<le> vi \<and> vi \<le> length (sback b) - (16 + sz) \<and>
      (\<forall>X pre r. length (Attrs m) \<le> length X \<longrightarrow>
        attr_loop step (Slice (pre @ take vi (sback v) @ r) (length pre + vi)) (length pre) X = Some (length pre + vi, False, fill 0 (Attrs m) X))"
    using attr_codec.AttrVec_Set_back [OF assms(1,2) v] assms(4-8) b1 l by (simp add: dvd_diff_nat)
  then have v': "length (sback v) = length (sback b) - (16 + sz)" "vi \<le> length (sback b) - (16 + sz)"
    "\<And>X pre r. length (Attrs m) \<le> length X \<Longrightarrow>
        attr_loop step (Slice (pre @ take vi (sback v) @ r) (length pre + vi)) (length pre) X = Some (length pre + vi, False, fill 0 (Attrs m) X)"
    by auto
  have t: "take n (sback b') = header_bytes (mHeader m) @ enc (Msg m) @ take vi (sback v)"
    using l assms(4,7) b1 by (simp add: b' n b1_def)
  have "attr_loop step (Slice (pre @ take vi (sback v) @ r) n) (16 + sz) (replicate (length (Attrs m)) None) = Some (n, False, Attrs m)"
    if "length pre = 16 + sz" for pre r
    using v'(3) [of "replicate (length (Attrs m)) None" pre r] that fill_fresh [of "replicate (length (Attrs m)) None" 0 "Attrs m"]
    by (simp add: n list_all_iff)
  moreover have "slen b' = slen b" "length (sback b') = length (sback b)" "16 + sz \<le> n" "n \<le> slen b"
    using v'(1,2) l assms(4,7) b1 by (simp_all add: b' n)
  ultimately show ?thesis using t by blast
qed

text \<open>The fixed parts.\<close>

lemma length_fixed [simp]: "length (ndmsg_bytes x) = 12" "length (ifaddr_bytes y) = 8" "length (ifinfo_bytes z) = 16"
  "length (rtmsg_bytes u) = 12" "length (netns_bytes v) = 4"
  by (auto simp: ndmsg_bytes_def ifaddr_bytes_def ifinfo_bytes_def rtmsg_bytes_def netns_bytes_def split: prod.split)

lemma get_after:
  "length p = i \<Longrightarrow> get_u16 (p @ le_bytes 2 w16 @ r) i = (w16 :: u16)"
  "length p = i \<Longrightarrow> get_u32 (p @ le_bytes 4 w32 @ r) i = (w32 :: u32)"
  "length p = i \<Longrightarrow> (p @ z # r) ! i = z"
  by (auto simp: get_at)

lemma get_ndmsg [simp]: "get_ndmsg (ndmsg_bytes x) = x"
proof -
  obtain a b c where p: "nd_pad x = (a, b, c)" by (cases "nd_pad x") auto
  let ?p = "[nd_Family x, a, b, c]"
  have e: "ndmsg_bytes x = ?p @ le_bytes 4 (nd_Index x) @ le_bytes 2 (nd_State x) @ [nd_Flags x, nd_Type x]"
    by (simp add: ndmsg_bytes_def p)
  have "get_u32 (ndmsg_bytes x) 4 = nd_Index x" unfolding e by (rule get_after) simp
  moreover have "get_u16 (ndmsg_bytes x) 8 = nd_State x"
    using get_after(1) [of "?p @ le_bytes 4 (nd_Index x)" 8] unfolding e by simp
  moreover have "ndmsg_bytes x ! 10 = nd_Flags x" "ndmsg_bytes x ! 11 = nd_Type x" unfolding e
    using get_after(3) [of "?p @ le_bytes 4 (nd_Index x) @ le_bytes 2 (nd_State x)" 10]
      get_after(3) [of "?p @ le_bytes 4 (nd_Index x) @ le_bytes 2 (nd_State x) @ [nd_Flags x]" 11] by simp_all
  ultimately show ?thesis by (simp add: get_ndmsg_def e p)
qed

lemma get_ifaddr [simp]: "get_ifaddr (ifaddr_bytes x) = x"
  using get_after(2) [of "[ifa_Family x, ifa_Prefixlen x, ifa_Flags x, ifa_Scope x]" 4 "ifa_Index x" "[]"]
  by (simp add: get_ifaddr_def ifaddr_bytes_def)

lemma get_netns [simp]: "get_netns (netns_bytes x) = x"
  by (cases "ns_pad x") (simp add: get_netns_def netns_bytes_def)

lemma get_rtmsg [simp]: "get_rtmsg (rtmsg_bytes x) = x"
  using get_after(2) [of "[rt_Family x, rt_DstLen x, rt_SrcLen x, rt_Tos x, rt_Table x, rt_Protocol x, rt_Scope x, rt_RouteType x]" 8 "rt_RouteFlags x" "[]"]
  by (simp add: get_rtmsg_def rtmsg_bytes_def)

lemma get_ifinfo [simp]: "get_ifinfo (ifinfo_bytes x) = x"
proof -
  let ?p = "[if_Family x, if_pad x]"
  have e: "ifinfo_bytes x = ?p @ le_bytes 2 (if_L2IfType x) @ le_bytes 4 (if_Index x) @ le_bytes 4 (if_Flags x) @ le_bytes 4 (if_Change x) @ []"
    by (simp add: ifinfo_bytes_def)
  have "get_u16 (ifinfo_bytes x) 2 = if_L2IfType x" unfolding e by (rule get_after) simp
  moreover have "get_u32 (ifinfo_bytes x) 4 = if_Index x" "get_u32 (ifinfo_bytes x) 8 = if_Flags x" "get_u32 (ifinfo_bytes x) 12 = if_Change x"
    using get_after(2) [of "?p @ le_bytes 2 (if_L2IfType x)" 4] get_after(2) [of "?p @ le_bytes 2 (if_L2IfType x) @ le_bytes 4 (if_Index x)" 8]
      get_after(2) [of "?p @ le_bytes 2 (if_L2IfType x) @ le_bytes 4 (if_Index x) @ le_bytes 4 (if_Flags x)" 12 "if_Change x" "[]"] unfolding e by simp_all
  ultimately show ?thesis by (simp add: get_ifinfo_def) (simp add: e)
qed

lemma load_fixed_back:
  assumes "take (16 + sz) (sback b) = header_bytes h @ e" "length e = sz" "0 < sz" "16 + sz \<le> slen b" "slen b \<le> length (sback b)"
  shows "load_fixed dec sz m b = Some (16 + sz, m\<lparr>mHeader := h, Msg := dec e\<rparr>)"
proof -
  have b: "sback b = header_bytes h @ e @ drop (16 + sz) (sback b)"
    using append_take_drop_id [of "16 + sz" "sback b"] assms(1) by simp
  then have "take 16 (sback b) = header_bytes h @ []" "take sz (drop 16 (sback b)) = e"
    using assms(2) by (metis append_eq_conv_conj length_header_bytes append_Nil2, metis append_eq_conv_conj length_header_bytes)
  then show ?thesis using assms(2-5) get_header_bytes [of h "[]"]
    by (simp add: load_fixed_def Header_Write_def SizeofHeader_def peek_def reslice_def)
qed

text \<open>A message that was stored, with another header put in front, is loaded as it was.\<close>

lemma message_codec:
  assumes "attr_codec step ok" "vec_ok ok 0 (Attrs m)" "message_Read enc sz m b = Some ((n, None), b')"
    and "slen b = length (sback b)" "4 dvd length (sback b)" "length (sback b) < 65536" "length (enc (Msg m)) = sz" "4 dvd sz" "0 < sz"
    and "dec (enc (Msg m)) = Msg m"
  shows "slen b' = slen b \<and> length (sback b') = length (sback b) \<and> 16 + sz \<le> n \<and> n \<le> slen b \<and> take 16 (sback b') = header_bytes (mHeader m) \<and>
    (\<forall>h r. let B = Slice (header_bytes h @ drop 16 (take n (sback b')) @ r) n in
      load_fixed dec sz (pooled z (length (Attrs m))) B = Some (16 + sz, m\<lparr>nsid := -1, mHeader := h\<rparr>\<lparr>Attrs := replicate (length (Attrs m)) None\<rparr>) \<and>
      attr_loop step B (16 + sz) (replicate (length (Attrs m)) None) = Some (n, False, Attrs m))"
proof -
  note m = message_Read_back [OF assms(1-8)]
  then obtain seg where seg: "take n (sback b') = header_bytes (mHeader m) @ enc (Msg m) @ seg"
    "\<And>pre r. length pre = 16 + sz \<Longrightarrow> attr_loop step (Slice (pre @ seg @ r) n) (16 + sz) (replicate (length (Attrs m)) None) = Some (n, False, Attrs m)"
    by blast
  have n: "slen b' = slen b" "length (sback b') = length (sback b)" "16 + sz \<le> n" "n \<le> slen b" using m by auto
  have len: "length seg = n - (16 + sz)" using arg_cong [OF seg(1), of length] n assms(4,7) by simp
  have "load_fixed dec sz (pooled z (length (Attrs m))) (Slice (header_bytes h @ drop 16 (take n (sback b')) @ r) n)
      = Some (16 + sz, m\<lparr>nsid := -1, mHeader := h\<rparr>\<lparr>Attrs := replicate (length (Attrs m)) None\<rparr>)" for h r
    using load_fixed_back [of sz "Slice (header_bytes h @ drop 16 (take n (sback b')) @ r) n" h "enc (Msg m)" dec] seg(1) n len assms(7,9,10)
    by (simp add: pooled_def)
  moreover have "attr_loop step (Slice (header_bytes h @ drop 16 (take n (sback b')) @ r) n) (16 + sz) (replicate (length (Attrs m)) None)
      = Some (n, False, Attrs m)" for h r
    using seg(2) [of "header_bytes h @ enc (Msg m)" r] seg(1) assms(7) by simp
  moreover have "take 16 (sback b') = header_bytes (mHeader m)"
    using arg_cong [OF seg(1), of "take 16"] n(3) by (simp add: min_def)
  ultimately show ?thesis using n by (simp add: Let_def)
qed

subsection \<open>Reading values\<close>

text \<open>The number an attribute is, all ones when it is none of that width.\<close>

definition attr_Uint8 :: "nlattr option \<Rightarrow> u8" where
  "attr_Uint8 a = (case a of Some (Uint8Attr x) \<Rightarrow> x | Some (LwtunnelEncapType x) \<Rightarrow> x | _ \<Rightarrow> NOT 0)"

definition attr_Uint32 :: "nlattr option \<Rightarrow> u32" where
  "attr_Uint32 a = (case a of Some (Uint32Attr x) \<Rightarrow> x | Some (Ip6IfFlagsAttr x) \<Rightarrow> x | _ \<Rightarrow> NOT 0)"

definition attr_Uint64 :: "nlattr option \<Rightarrow> u64" where
  "attr_Uint64 a = (case a of Some (Uint64Attr x) \<Rightarrow> x | _ \<Rightarrow> NOT 0)"

text \<open>The accessors of a name-space message; a missing attribute or one of another type is a panic.\<close>

definition NSID :: "Netnsmsg message \<Rightarrow> u32 option" where
  "NSID m = do { a \<leftarrow> slice_get (Attrs m) 1; case a of Some (Int32Attr x) \<Rightarrow> Some x | _ \<Rightarrow> None }"

definition PID :: "Netnsmsg message \<Rightarrow> u32 option" where
  "PID m = do { a \<leftarrow> slice_get (Attrs m) 2; case a of Some (Uint32Attr x) \<Rightarrow> Some x | _ \<Rightarrow> None }"

definition FD :: "Netnsmsg message \<Rightarrow> u32 option" where
  "FD m = do { a \<leftarrow> slice_get (Attrs m) 3; case a of Some (Uint32Attr x) \<Rightarrow> Some x | _ \<Rightarrow> None }"

subsection \<open>The byte behind a string\<close>

text \<open>C37: \<open>Set\<close> of a string does not terminate it: the last byte of the attribute keeps what the transmit buffer held, and
  the zero meant for it is stored in the byte behind the attribute.\<close>

theorem StringAttr_Set_unterminated:
  assumes "slen v = length a + 1" "slen v < length (sback v)"
  shows "attr_Set (StringAttr a) v = Some (Slice (a @ sback v ! length a # 0 # drop (length a + 2) (sback v)) (slen v))"
proof -
  have d: "drop (length a) (sback v) = sback v ! length a # sback v ! (length a + 1) # drop (length a + 2) (sback v)"
    using assms by (simp add: Cons_nth_drop_Suc)
  have "copy_bytes a v = Slice (a @ drop (length a) (sback v)) (slen v)" using assms by (simp add: copy_bytes_def Let_def)
  moreover have "length a < Suc (length (sback v) - 2)" using assms by linarith
  ultimately show ?thesis using assms unfolding d by (simp add: StringAttr_Set_def list_update_append Let_def)
qed

lemma StringAttr_Set_unterminated_witness:
  "attr_Set (StringAttr [0x6c, 0x6f]) (Slice (replicate 5 0x7a) 3) = Some (Slice [0x6c, 0x6f, 0x7a, 0, 0x7a] 3)"
proof -
  have r: "replicate 5 (0x7a :: u8) = [0x7a, 0x7a, 0x7a, 0x7a, 0x7a]" by (simp add: numeral_eq_Suc)
  show ?thesis
    using StringAttr_Set_unterminated [of "Slice (replicate 5 0x7a) 3" "[0x6c, 0x6f]"] by (simp add: r)
qed

subsection \<open>An interface that belongs to another\<close>

definition IFLA_LINKINFO :: nat where "IFLA_LINKINFO = 18"

definition InterfaceKind_of :: "IfInfomsg message \<Rightarrow> InterfaceKind option" where
  "InterfaceKind_of m = do {
     li \<leftarrow> slice_get (Attrs m) IFLA_LINKINFO;
     case li of Some (AttrArray t X) \<Rightarrow> do {
         a \<leftarrow> slice_get X IFLA_INFO_KIND;
         Some (case a of Some (StringAttr s) \<Rightarrow> kindMap s | _ \<Rightarrow> InterfaceKindUnknown) }
     | _ \<Rightarrow> Some InterfaceKindUnknown }"

definition GetLinkInfoData :: "IfInfomsg message \<Rightarrow> AttrVec option option" where
  "GetLinkInfoData m = do {
     li \<leftarrow> slice_get (Attrs m) IFLA_LINKINFO;
     case li of Some (AttrArray t X) \<Rightarrow> do {
         a \<leftarrow> slice_get X IFLA_INFO_DATA;
         Some (case a of Some (AttrArray t Y) \<Rightarrow> Some Y | _ \<Rightarrow> None) }
     | _ \<Rightarrow> Some None }"

text \<open>An attribute as the kernel lays it out.\<close>

definition nla :: "nat \<Rightarrow> u8 list \<Rightarrow> u8 list" where
  "nla k d = le_bytes 2 (of_nat (SizeofNlAttr + length d) :: u16) @ le_bytes 2 (of_nat k :: u16) @ d @ replicate (attrAlignLen (length d) - length d) 0"

lemma length_nla [simp]: "length (nla k d) = 4 + attrAlignLen (length d)"
  using attrAlignLen_ge(1) [of "length d"] by (simp add: nla_def)

lemma attr_loop_nla:
  assumes "length pre = i" "i + length (nla k d) \<le> n" "4 + length d < 65536" "k < 2 ^ 14"
  shows "attr_loop step (Slice (pre @ nla k d @ r) n) i st = do {
     (st, stop) \<leftarrow> step k (Slice (d @ replicate (attrAlignLen (length d) - length d) 0 @ r) (length d)) st;
     if stop then Some (i + length (nla k d), True, st) else attr_loop step (Slice (pre @ nla k d @ r) n) (i + length (nla k d)) st }"
proof -
  have "nextAttr (Slice (pre @ nla k d @ r) n) i
      = Some (k, Slice (d @ replicate (attrAlignLen (length d) - length d) 0 @ r) (length d), i + (4 + attrAlignLen (length d)))"
    by (rule nextAttr_at) (use assms in \<open>auto simp: nla_def\<close>)
  then show ?thesis using assms(2) unfolding length_nla by (subst attr_loop.simps) simp
qed

lemma attr_loop_end: "n \<le> i \<Longrightarrow> attr_loop step (Slice b n) i st = Some (i, False, st)"
  by (simp add: attr_loop.simps)


definition vlan_port :: "u8 list" where
  "vlan_port = nla IFLA_INFO_KIND (str ''vlan'' @ [0]) @ nla IFLA_INFO_DATA (nla 1 [5, 0]) @ nla IFLA_INFO_SLAVE_KIND (str ''bridge'' @ [0])"

definition vlan_port_message :: "IfInfomsg message" where
  "vlan_port_message = NewIfInfoMessage\<lparr>Attrs := (replicate 45 None)[18 := parse_link_info (Slice vlan_port (length vlan_port))]\<rparr>"


end
