(* ===== verification/Nl_Socket.thy ===== *)
theory Nl_Socket
  imports Nl_Msg
begin

section \<open>The netlink socket: internal/netlink/socket.go\<close>

text \<open>
  The socket's goroutines: one cuts what the kernel delivers into messages, one numbers the messages to send and stores
  them in its buffer. The kernel's answers are parameters; what a caller receives is a list.
\<close>

subsection \<open>The receiver\<close>

datatype anymsg = Noop "unit message" | Error "Errormsg message" | Done "unit message" | Gen "u8 message"
  | IfInfo "IfInfomsg message" | IfAddr "IfAddrmsg message" | Route "Rtmsg message" | Neighbor "Ndmsg message" | Netns "Netnsmsg message"

text \<open>The message a type stands for, from the pool, loaded from a slice; the outer \<open>None\<close> is a type the switch does not
  name.\<close>

definition wrap :: "('m \<Rightarrow> anymsg) \<Rightarrow> ((nat \<times> nlerr option) \<times> 'm) option \<Rightarrow> (nlerr option \<times> anymsg) option" where
  "wrap c r = map_option (\<lambda>((n, err), m). (err, c m)) r"

definition load_message :: "u16 \<Rightarrow> slice \<Rightarrow> (nlerr option \<times> anymsg) option option" where
  "load_message t v = (
     if t = NLMSG_NOOP then Some (wrap Noop (NoopMessage_Write NewNoopMessage v))
     else if t = NLMSG_ERROR then Some (wrap Error (ErrorMessage_Write NewErrorMessage v))
     else if t = NLMSG_DONE then Some (wrap Done (DoneMessage_Write NewDoneMessage v))
     else if t = 18 then Some (wrap Gen (GenMessage_Write NewGenMessage v))
     else if t \<in> {16, 17, 19} then Some (wrap IfInfo (IfInfoMessage_Write NewIfInfoMessage v))
     else if t \<in> {20, 21, 22} then Some (wrap IfAddr (IfAddrMessage_Write NewIfAddrMessage v))
     else if t \<in> {24, 25, 26} then Some (wrap Route (RouteMessage_Write NewRouteMessage v))
     else if t \<in> {28, 29, 30} then Some (wrap Neighbor (NeighborMessage_Write NewNeighborMessage v))
     else if t \<in> {88, 89, 90} then Some (wrap Netns (NetnsMessage_Write NewNetnsMessage v))
     else None)"

definition set_nsid :: "int \<Rightarrow> anymsg \<Rightarrow> anymsg" where
  "set_nsid x m = (case m of
       Noop m \<Rightarrow> Noop (m\<lparr>nsid := x\<rparr>) | Error m \<Rightarrow> Error (m\<lparr>nsid := x\<rparr>) | Done m \<Rightarrow> Done (m\<lparr>nsid := x\<rparr>)
     | Gen m \<Rightarrow> Gen (m\<lparr>nsid := x\<rparr>) | IfInfo m \<Rightarrow> IfInfo (m\<lparr>nsid := x\<rparr>) | IfAddr m \<Rightarrow> IfAddr (m\<lparr>nsid := x\<rparr>)
     | Route m \<Rightarrow> Route (m\<lparr>nsid := x\<rparr>) | Neighbor m \<Rightarrow> Neighbor (m\<lparr>nsid := x\<rparr>) | Netns m \<Rightarrow> Netns (m\<lparr>nsid := x\<rparr>))"

text \<open>The numbers of \<open>EOVERFLOW\<close> and, for an error that is not a number, \<open>EINVAL\<close>.\<close>

definition errno_of :: "nlerr \<Rightarrow> nat" where
  "errno_of e = (case e of EOVERFLOW \<Rightarrow> 75 | UnknownAttr \<Rightarrow> 22)"

definition error_message :: "nat \<Rightarrow> Header \<Rightarrow> Errormsg message" where
  "error_message errno req = NewErrorMessage\<lparr>Msg := \<lparr>Errno = - of_nat errno, Req = req\<rparr>\<rparr>"

definition gorx_message :: "int \<Rightarrow> slice \<Rightarrow> nat \<Rightarrow> anymsg list option" where
  "gorx_message ns buf i = (let h = get_header (drop i (sback buf)) in
     case load_message (hdrType h) (Slice (drop i (sback buf)) (unat (hdrLen h))) of
       None \<Rightarrow> Some []
     | Some r \<Rightarrow> do {
         v \<leftarrow> reslice buf i (i + unat (hdrLen h));
         (err, m) \<leftarrow> r;
         let m = (case err of None \<Rightarrow> m | Some e \<Rightarrow> Error (error_message (errno_of e) h));
         Some [set_nsid ns m] })"

text \<open>The loop over the \<open>n\<close> bytes received. It has no result when it panics, and when it does not end: then it sends
  messages without end.\<close>

partial_function (option) gorx_loop :: "int \<Rightarrow> slice \<Rightarrow> nat \<Rightarrow> nat \<Rightarrow> anymsg list \<Rightarrow> anymsg list option" where
  [code]: "gorx_loop ns buf n i sent = (if i < n then do {
     panic_unless (i + SizeofHeader \<le> n);
     ms \<leftarrow> gorx_message ns buf i;
     gorx_loop ns buf n (i + MsgLen (get_header (drop i (sback buf)))) (sent @ ms) }
   else Some sent)"

subsection \<open>The transmitter\<close>

definition header_of :: "anymsg \<Rightarrow> Header" where
  "header_of m = (case m of
       Noop m \<Rightarrow> mHeader m | Error m \<Rightarrow> mHeader m | Done m \<Rightarrow> mHeader m | Gen m \<Rightarrow> mHeader m | IfInfo m \<Rightarrow> mHeader m
     | IfAddr m \<Rightarrow> mHeader m | Route m \<Rightarrow> mHeader m | Neighbor m \<Rightarrow> mHeader m | Netns m \<Rightarrow> mHeader m)"

definition set_header :: "Header \<Rightarrow> anymsg \<Rightarrow> anymsg" where
  "set_header x m = (case m of
       Noop m \<Rightarrow> Noop (m\<lparr>mHeader := x\<rparr>) | Error m \<Rightarrow> Error (m\<lparr>mHeader := x\<rparr>) | Done m \<Rightarrow> Done (m\<lparr>mHeader := x\<rparr>)
     | Gen m \<Rightarrow> Gen (m\<lparr>mHeader := x\<rparr>) | IfInfo m \<Rightarrow> IfInfo (m\<lparr>mHeader := x\<rparr>) | IfAddr m \<Rightarrow> IfAddr (m\<lparr>mHeader := x\<rparr>)
     | Route m \<Rightarrow> Route (m\<lparr>mHeader := x\<rparr>) | Neighbor m \<Rightarrow> Neighbor (m\<lparr>mHeader := x\<rparr>) | Netns m \<Rightarrow> Netns (m\<lparr>mHeader := x\<rparr>))"

definition any_Read :: "anymsg \<Rightarrow> slice \<Rightarrow> ((nat \<times> nlerr option) \<times> slice) option" where
  "any_Read m b = (case m of
       Noop m \<Rightarrow> NoopMessage_Read m b | Error m \<Rightarrow> ErrorMessage_Read m b | Done m \<Rightarrow> DoneMessage_Read m b
     | Gen m \<Rightarrow> GenMessage_Read m b | IfInfo m \<Rightarrow> IfInfoMessage_Read m b | IfAddr m \<Rightarrow> IfAddrMessage_Read m b
     | Route m \<Rightarrow> RouteMessage_Read m b | Neighbor m \<Rightarrow> NeighborMessage_Read m b | Netns m \<Rightarrow> NetnsMessage_Read m b)"

definition NLM_F_REQUEST :: u16 where "NLM_F_REQUEST = 1"

text \<open>The header with its defaults, and the next sequence number.\<close>

definition tx_header :: "u32 \<Rightarrow> u32 \<Rightarrow> Header \<Rightarrow> Header \<times> u32" where
  "tx_header pid sq h = (let
     h = (if hdrFlags h = 0 then h\<lparr>hdrFlags := NLM_F_REQUEST\<rparr> else h);
     h = (if hdrPid h = 0 then h\<lparr>hdrPid := pid\<rparr> else h)
   in if hdrSequence h = 0 then (h\<lparr>hdrSequence := sq\<rparr>, sq + 1) else (h, sq))"

text \<open>What one message leads to: the bytes given to the kernel (whose answer is a parameter: an error number, or none),
  or the error message sent to the receiver.\<close>

datatype txout = Sent "u8 list" | Failed "Errormsg message"

definition gotx_message :: "(u8 list \<Rightarrow> nat option) \<Rightarrow> u32 \<Rightarrow> u32 \<Rightarrow> slice \<Rightarrow> anymsg \<Rightarrow> (txout list \<times> u32 \<times> slice) option" where
  "gotx_message krn pid sq buf m = do {
     let (h, sq) = tx_header pid sq (header_of m);
     ((n, err), buf) \<leftarrow> any_Read (set_header h m) buf;
     case err of Some e \<Rightarrow> Some ([Failed (error_message (errno_of e) h)], sq, buf)
     | None \<Rightarrow> do {
         let h = h\<lparr>hdrLen := of_nat n\<rparr>;
         buf \<leftarrow> poke (le_bytes 4 (hdrLen h)) buf;
         v \<leftarrow> reslice buf 0 n;
         case krn (sbytes v) of
           None \<Rightarrow> Some ([Sent (sbytes v)], sq, buf)
         | Some e \<Rightarrow> Some ([Sent (sbytes v), Failed (error_message e h)], sq, buf) } }"

fun gotx :: "(u8 list \<Rightarrow> nat option) \<Rightarrow> u32 \<Rightarrow> u32 \<Rightarrow> slice \<Rightarrow> anymsg list \<Rightarrow> txout list option" where
  "gotx krn pid sq buf [] = Some []"
| "gotx krn pid sq buf (m # ms) = do {
     (out, sq, buf) \<leftarrow> gotx_message krn pid sq buf m;
     map_option (append out) (gotx krn pid sq buf ms) }"

subsection \<open>Waiting for the end of a dump\<close>

text \<open>The messages come from a list; its end is the closed channel. The handler threads a state of its own and may
  return an error number.\<close>

fun RxUntilDone :: "('s \<Rightarrow> anymsg \<Rightarrow> 's \<times> u64 option) \<Rightarrow> 's \<Rightarrow> anymsg list \<Rightarrow> (u64 option \<times> 's \<times> anymsg list) option" where
  "RxUntilDone handler st [] = Some (None, st, [])"
| "RxUntilDone handler st (m # ms) = (
     if hdrType (header_of m) = NLMSG_ERROR then
       (case m of Error e \<Rightarrow> Some (if Errno (Msg e) \<noteq> 0 then Some (scast (- Errno (Msg e))) else None, st, ms) | _ \<Rightarrow> None)
     else if hdrType (header_of m) = NLMSG_DONE then Some (None, st, ms)
     else case handler st m of (st, err) \<Rightarrow> (case err of Some e \<Rightarrow> Some (Some e, st, ms) | None \<Rightarrow> RxUntilDone handler st ms))"

definition dump_request :: "u16 \<times> u8 \<Rightarrow> u8 message" where
  "dump_request r = NewGenMessage\<lparr>mHeader := (mHeader NewGenMessage)\<lparr>hdrType := fst r, hdrFlags := 0x301\<rparr>, Msg := snd r\<rparr>"

definition GetlinkReq :: "u8 message" where
  "GetlinkReq = NewGenMessage\<lparr>mHeader := (mHeader NewGenMessage)\<lparr>hdrType := 18, hdrFlags := 0x201\<rparr>, Msg := 0\<rparr>"

text \<open>A request is sent again until it is answered without an error, five times at most.\<close>

function listen_tries :: "('s \<Rightarrow> anymsg \<Rightarrow> 's \<times> u64 option) \<Rightarrow> nat \<Rightarrow> 's \<Rightarrow> anymsg list \<Rightarrow> (u64 option \<times> nat \<times> 's \<times> anymsg list) option" where
  "listen_tries handler tries st rx = do {
     (err, st, rx) \<leftarrow> RxUntilDone handler st rx;
     if err = None \<or> 5 \<le> tries then Some (err, tries, st, rx) else listen_tries handler (Suc tries) st rx }"
  by pat_completeness auto
termination by (relation "measure (\<lambda>(h, tries, st, rx). 5 - tries)") auto

declare listen_tries.simps [simp del]

text \<open>The error, the requests sent, the handler's state and what is left to receive.\<close>

fun listen_loop :: "('s \<Rightarrow> anymsg \<Rightarrow> 's \<times> u64 option) \<Rightarrow> (u16 \<times> u8) list \<Rightarrow> 's \<Rightarrow> anymsg list \<Rightarrow> (u64 option \<times> u8 message list \<times> 's \<times> anymsg list) option" where
  "listen_loop handler [] st rx = Some (None, [], st, rx)"
| "listen_loop handler (r # rs) st rx = (if fst r = NLMSG_NOOP then listen_loop handler rs st rx
     else do {
       (err, tries, st, rx) \<leftarrow> listen_tries handler 1 st rx;
       let sent = replicate tries (dump_request r);
       if err \<noteq> None then Some (err, sent, st, rx)
       else map_option (\<lambda>(err, more, st, rx). (err, sent @ more, st, rx)) (listen_loop handler rs st rx) })"

definition DefaultListenReqs :: "(u16 \<times> u8) list" where
  "DefaultListenReqs = [(90, 0), (18, 17), (22, 2), (22, 10), (30, 2), (30, 10), (26, 2), (26, 10)]"

definition Listen :: "('s \<Rightarrow> anymsg \<Rightarrow> 's \<times> u64 option) \<Rightarrow> (u16 \<times> u8) list \<Rightarrow> 's \<Rightarrow> anymsg list \<Rightarrow> (u64 option \<times> u8 message list \<times> 's \<times> anymsg list) option" where
  "Listen handler reqs st rx = listen_loop handler (if reqs = [] then DefaultListenReqs else reqs) st rx"

subsection \<open>Messages that arrive\<close>

text \<open>The messages that arrive as they were sent: of a type the receiver knows, with attributes its loop makes again.\<close>

definition survives :: "anymsg \<Rightarrow> bool" where
  "survives x = (case x of
       Neighbor m \<Rightarrow> hdrType (mHeader m) \<in> {28, 29, 30} \<and> length (Attrs m) = NDA_MAX \<and> vec_ok (neighbor_ok (unat (nd_Family (Msg m)))) 0 (Attrs m)
     | IfAddr m \<Rightarrow> hdrType (mHeader m) \<in> {20, 21, 22} \<and> length (Attrs m) = IFA_MAX \<and> vec_ok (ifaddr_ok (unat (ifa_Family (Msg m)))) 0 (Attrs m)
     | IfInfo m \<Rightarrow> hdrType (mHeader m) \<in> {16, 17, 19} \<and> length (Attrs m) = IFLA_MAX \<and> vec_ok ifinfo_ok 0 (Attrs m)
     | Netns m \<Rightarrow> hdrType (mHeader m) \<in> {88, 89, 90} \<and> length (Attrs m) = NETNSA_MAX \<and> vec_ok netns_ok 0 (Attrs m)
     | Gen m \<Rightarrow> hdrType (mHeader m) = 18 \<and> Attrs m = []
     | _ \<Rightarrow> False)"

text \<open>The receiver's view of a buffer.\<close>

definition loads :: "Header \<Rightarrow> anymsg \<Rightarrow> slice \<Rightarrow> bool" where
  "loads h m v \<longleftrightarrow> (\<exists>m'. load_message (hdrType h) v = Some (Some (None, m')) \<and> (\<forall>ns. set_nsid ns m' = set_nsid ns (set_header h m)))"

definition buffer_ok :: "slice \<Rightarrow> bool" where
  "buffer_ok b \<longleftrightarrow> slen b = length (sback b) \<and> 4 dvd length (sback b) \<and> length (sback b) < 65536"

lemmas load_type = load_message_def NLMSG_NOOP_def NLMSG_ERROR_def NLMSG_DONE_def wrap_def

lemma neighbor_back:
  assumes "survives (Neighbor m)" "any_Read (Neighbor m) b = Some ((n, None), b')" "buffer_ok b" "hdrType h = hdrType (mHeader m)"
  shows "slen b' = slen b \<and> length (sback b') = length (sback b) \<and> 16 \<le> n \<and> n \<le> slen b \<and> take 16 (sback b') = header_bytes (mHeader m) \<and>
    loads h (Neighbor m) (Slice (header_bytes h @ drop 16 (take n (sback b')) @ r) n)"
proof -
  have s: "hdrType (mHeader m) \<in> {28, 29, 30}" "length (Attrs m) = NDA_MAX" "vec_ok (neighbor_ok (unat (nd_Family (Msg m)))) 0 (Attrs m)"
    using assms(1) by (simp_all add: survives_def)
  have r: "message_Read ndmsg_bytes 12 m b = Some ((n, None), b')" using assms(2) by (simp add: any_Read_def NeighborMessage_Read_def)
  note c = message_codec [OF nb.attr_codec_axioms s(3) r, of get_ndmsg "get_ndmsg (replicate 12 0)"]
  show ?thesis using c s assms(3,4)
    by (auto simp: buffer_ok_def Let_def s(2) loads_def load_type NeighborMessage_Write_def NewNeighborMessage_def SizeofHeader_def
      set_nsid_def set_header_def)
qed

lemma ifaddr_back:
  assumes "survives (IfAddr m)" "any_Read (IfAddr m) b = Some ((n, None), b')" "buffer_ok b" "hdrType h = hdrType (mHeader m)"
  shows "slen b' = slen b \<and> length (sback b') = length (sback b) \<and> 16 \<le> n \<and> n \<le> slen b \<and> take 16 (sback b') = header_bytes (mHeader m) \<and>
    loads h (IfAddr m) (Slice (header_bytes h @ drop 16 (take n (sback b')) @ r) n)"
proof -
  have s: "hdrType (mHeader m) \<in> {20, 21, 22}" "length (Attrs m) = IFA_MAX" "vec_ok (ifaddr_ok (unat (ifa_Family (Msg m)))) 0 (Attrs m)"
    using assms(1) by (simp_all add: survives_def)
  have r: "message_Read ifaddr_bytes 8 m b = Some ((n, None), b')" using assms(2) by (simp add: any_Read_def IfAddrMessage_Read_def)
  note c = message_codec [OF ifa.attr_codec_axioms s(3) r, of get_ifaddr "get_ifaddr (replicate 8 0)"]
  show ?thesis using c s assms(3,4)
    by (auto simp: buffer_ok_def Let_def s(2) loads_def load_type IfAddrMessage_Write_def NewIfAddrMessage_def SizeofHeader_def
      set_nsid_def set_header_def)
qed

lemma ifinfo_back:
  assumes "survives (IfInfo m)" "any_Read (IfInfo m) b = Some ((n, None), b')" "buffer_ok b" "hdrType h = hdrType (mHeader m)"
  shows "slen b' = slen b \<and> length (sback b') = length (sback b) \<and> 16 \<le> n \<and> n \<le> slen b \<and> take 16 (sback b') = header_bytes (mHeader m) \<and>
    loads h (IfInfo m) (Slice (header_bytes h @ drop 16 (take n (sback b')) @ r) n)"
proof -
  have s: "hdrType (mHeader m) \<in> {16, 17, 19}" "length (Attrs m) = IFLA_MAX" "vec_ok ifinfo_ok 0 (Attrs m)"
    using assms(1) by (simp_all add: survives_def)
  have r: "message_Read ifinfo_bytes 16 m b = Some ((n, None), b')" using assms(2) by (simp add: any_Read_def IfInfoMessage_Read_def)
  note c = message_codec [OF ifi.attr_codec_axioms s(3) r, of get_ifinfo "get_ifinfo (replicate 16 0)"]
  show ?thesis using c s assms(3,4)
    by (auto simp: buffer_ok_def Let_def s(2) loads_def load_type IfInfoMessage_Write_def NewIfInfoMessage_def SizeofHeader_def
      set_nsid_def set_header_def)
qed

lemma netns_back:
  assumes "survives (Netns m)" "any_Read (Netns m) b = Some ((n, None), b')" "buffer_ok b" "hdrType h = hdrType (mHeader m)"
  shows "slen b' = slen b \<and> length (sback b') = length (sback b) \<and> 16 \<le> n \<and> n \<le> slen b \<and> take 16 (sback b') = header_bytes (mHeader m) \<and>
    loads h (Netns m) (Slice (header_bytes h @ drop 16 (take n (sback b')) @ r) n)"
proof -
  have s: "hdrType (mHeader m) \<in> {88, 89, 90}" "length (Attrs m) = NETNSA_MAX" "vec_ok netns_ok 0 (Attrs m)"
    using assms(1) by (simp_all add: survives_def)
  have r: "message_Read netns_bytes 4 m b = Some ((n, None), b')" using assms(2) by (simp add: any_Read_def NetnsMessage_Read_def)
  note c = message_codec [OF ns.attr_codec_axioms s(3) r, of get_netns "get_netns (replicate 4 0)"]
  show ?thesis using c s assms(3,4)
    by (auto simp: buffer_ok_def Let_def s(2) loads_def load_type NetnsMessage_Write_def NewNetnsMessage_def SizeofHeader_def
      set_nsid_def set_header_def)
qed

lemma gen_back:
  assumes "survives (Gen m)" "any_Read (Gen m) b = Some ((n, None), b')" "buffer_ok b" "hdrType h = hdrType (mHeader m)"
  shows "slen b' = slen b \<and> length (sback b') = length (sback b) \<and> 16 \<le> n \<and> n \<le> slen b \<and> take 16 (sback b') = header_bytes (mHeader m) \<and>
    loads h (Gen m) (Slice (header_bytes h @ drop 16 (take n (sback b')) @ r) n)"
proof -
  have n: "n = 17" and l: "17 \<le> slen b" and b': "b' = Slice (header_bytes (mHeader m) @ Msg m # drop 17 (sback b)) (slen b)"
    using assms(2,3) by (auto simp: any_Read_def GenMessage_Read_def SizeofHeader_def Header_Read_def poke_def reslice_def put_back_def
      buffer_ok_def bind_eq_Some_conv split: if_splits)
  have t: "drop 16 (take n (sback b')) = [Msg m]" by (simp add: n b')
  have "load_fixed (\<lambda>x. x ! 0) 1 NewGenMessage (Slice (header_bytes h @ [Msg m] @ r) 17) = Some (17, NewGenMessage\<lparr>mHeader := h, Msg := Msg m\<rparr>)"
    using load_fixed_back [of 1 "Slice (header_bytes h @ [Msg m] @ r) 17" h "[Msg m]" "\<lambda>x. x ! 0" NewGenMessage] by simp
  then show ?thesis using assms l unfolding t
    by (auto simp: n b' survives_def loads_def load_type GenMessage_Write_def SizeofHeader_def buffer_ok_def
      set_nsid_def set_header_def NewGenMessage_def pooled_def)
qed

lemma any_back:
  assumes "survives m" "any_Read m b = Some ((n, None), b')" "buffer_ok b" "hdrType h = hdrType (header_of m)"
  shows "slen b' = slen b \<and> length (sback b') = length (sback b) \<and> 16 \<le> n \<and> n \<le> slen b \<and> take 16 (sback b') = header_bytes (header_of m) \<and>
    loads h m (Slice (header_bytes h @ drop 16 (take n (sback b')) @ r) n)"
  using assms neighbor_back ifaddr_back ifinfo_back netns_back gen_back
  by (cases m) (simp_all add: survives_def header_of_def)

text \<open>There is room: the sizes of the fixed parts and of the attributes.\<close>

definition room :: "anymsg \<Rightarrow> nat option" where
  "room m = (case m of
       IfInfo m \<Rightarrow> map_option ((+) 32) (AttrVec_Size (Attrs m)) | IfAddr m \<Rightarrow> map_option ((+) 24) (AttrVec_Size (Attrs m))
     | Neighbor m \<Rightarrow> map_option ((+) 28) (AttrVec_Size (Attrs m)) | Netns m \<Rightarrow> map_option ((+) 20) (AttrVec_Size (Attrs m))
     | Gen m \<Rightarrow> Some 17 | _ \<Rightarrow> None)"

lemma message_Read_total:
  assumes "attr_codec step ok" "vec_ok ok 0 (Attrs m)" "AttrVec_Size (Attrs m) = Some l" "16 + sz + l \<le> slen b" "slen b = length (sback b)"
    and "length (enc (Msg m)) = sz" "0 < sz"
  shows "\<exists>b'. message_Read enc sz m b = Some ((16 + sz + l, None), b')"
proof -
  have "\<exists>v'. AttrVec_Set 0 (Attrs m) (Slice (drop (16 + sz) (sback b)) (slen b - (16 + sz))) 0 = Some (0 + l, v')"
    by (rule attr_codec.AttrVec_Set_total [OF assms(1,2,3)]) (use assms(4,5) in auto)
  then show ?thesis using assms(4-7)
    by (auto simp: message_Read_def SizeofHeader_def Header_Read_def poke_def reslice_def put_back_def Let_def
      add.commute [of "length (enc (Msg m))" 16])
qed

lemma any_total:
  assumes "survives m" "room m = Some l" "l \<le> slen b" "slen b = length (sback b)"
  shows "\<exists>b'. any_Read m b = Some ((l, None), b')"
proof (cases m)
  case (Gen x)
  then show ?thesis using assms by (auto simp: room_def any_Read_def GenMessage_Read_def SizeofHeader_def Header_Read_def poke_def reslice_def put_back_def)
next
  case (IfInfo x)
  then show ?thesis using assms message_Read_total [OF ifi.attr_codec_axioms, of x _ 16 b ifinfo_bytes]
    by (auto simp: survives_def room_def any_Read_def IfInfoMessage_Read_def)
next
  case (IfAddr x)
  then show ?thesis using assms message_Read_total [OF ifa.attr_codec_axioms, of "unat (ifa_Family (Msg x))" x _ 8 b ifaddr_bytes]
    by (auto simp: survives_def room_def any_Read_def IfAddrMessage_Read_def)
next
  case (Neighbor x)
  then show ?thesis using assms message_Read_total [OF nb.attr_codec_axioms, of "unat (nd_Family (Msg x))" x _ 12 b ndmsg_bytes]
    by (auto simp: survives_def room_def any_Read_def NeighborMessage_Read_def)
next
  case (Netns x)
  then show ?thesis using assms message_Read_total [OF ns.attr_codec_axioms, of x _ 4 b netns_bytes]
    by (auto simp: survives_def room_def any_Read_def NetnsMessage_Read_def)
qed (use assms in \<open>simp_all add: room_def\<close>)

lemma MsgLen_eq: "MsgLen h = (unat (hdrLen h) + 3) div 4 * 4"
  using attrAlignLen_eq [of "unat (hdrLen h)"] by (simp add: MsgLen_def attrAlignLen_def)

lemma tx_header_type [simp]: "tx_header pid sq h = (h', sq') \<Longrightarrow> hdrType h' = hdrType h"
  by (auto simp: tx_header_def Let_def split: if_splits)

lemma set_header_simps [simp]: "header_of (set_header h m) = h" "set_header h (set_header h' m) = set_header h m"
  "set_nsid ns (set_header h m) = set_header h (set_nsid ns m)"
  by (cases m; simp add: header_of_def set_header_def set_nsid_def)+

lemma survives_set_header [simp]: "hdrType h = hdrType (header_of m) \<Longrightarrow> survives (set_header h m) = survives m"
  by (cases m) (auto simp: survives_def header_of_def set_header_def)

lemma room_set_header [simp]: "room (set_header h m) = room m"
  by (cases m) (auto simp: room_def set_header_def)

lemma loads_set_header [simp]: "loads h (set_header h' m) v = loads h m v"
  by (simp add: loads_def)

text \<open>The receiver's loop over a buffer that holds one message.\<close>

lemma gorx_one:
  assumes "loads h m (Slice (header_bytes h @ r) n)" "unat (hdrLen h) = n" "16 \<le> n" "n \<le> 16 + length r"
  shows "gorx_loop ns (Slice (header_bytes h @ r) k) n 0 [] = Some [set_header h (set_nsid ns m)]"
proof -
  let ?b = "Slice (header_bytes h @ r) k"
  obtain m' where m': "load_message (hdrType h) (Slice (header_bytes h @ r) n) = Some (Some (None, m'))" "set_nsid ns m' = set_header h (set_nsid ns m)"
    using assms(1) by (auto simp: loads_def)
  then have "gorx_message ns ?b 0 = Some [set_header h (set_nsid ns m)]"
    using assms(2-4) by (simp add: gorx_message_def Let_def reslice_def)
  moreover have "\<not> MsgLen h < n" unfolding MsgLen_eq assms(2) by presburger
  ultimately show ?thesis using assms(3)
    by (subst gorx_loop.simps) (simp add: SizeofHeader_def gorx_loop.simps)
qed

text \<open>The bytes \<open>bs\<close>, wherever the receiver finds them at the front of its buffer, are the message \<open>m\<close> with the header \<open>h\<close> and
  the length of \<open>bs\<close>.\<close>

definition delivers :: "u8 list \<Rightarrow> Header \<Rightarrow> anymsg \<Rightarrow> bool" where
  "delivers bs h m \<longleftrightarrow> (\<forall>ns r k. gorx_loop ns (Slice (bs @ r) k) (length bs) 0 [] =
     Some [set_nsid ns (set_header (h\<lparr>hdrLen := of_nat (length bs)\<rparr>) m)])"

lemma gotx_survivor:
  assumes "survives m" "buffer_ok buf" "room m = Some l" "l \<le> slen buf" "tx_header pid sq (header_of m) = (h, sq')"
  shows "\<exists>bs out buf'. gotx_message krn pid sq buf m = Some (Sent bs # out, sq', buf') \<and> length bs = l \<and>
    (krn bs = None \<longrightarrow> out = []) \<and> buffer_ok buf' \<and> slen buf' = slen buf \<and> delivers bs h m"
proof -
  let ?m = "set_header h m" and ?h = "h\<lparr>hdrLen := of_nat l\<rparr>"
  have t: "hdrType h = hdrType (header_of m)" using assms(5) by simp
  obtain b where b: "any_Read ?m buf = Some ((l, None), b)"
    using any_total [of ?m l buf] assms(1-4) t by (auto simp: buffer_ok_def)
  note got = any_back [OF _ b assms(2), of ?h]
  have facts: "slen b = slen buf" "length (sback b) = length (sback buf)" "16 \<le> l" "l \<le> slen buf" "take 16 (sback b) = header_bytes h"
    "\<And>r. loads ?h m (Slice (header_bytes ?h @ drop 16 (take l (sback b)) @ r) l)"
    using got assms(1) t by auto
  define c where "c = le_bytes 4 (of_nat l :: u32) @ drop 4 (sback b)"
  have len: "slen buf = length (sback buf)" "length (sback buf) < 65536" using assms(2) by (auto simp: buffer_ok_def)
  have g: "gotx_message krn pid sq buf m = Some (Sent (take l c) # (case krn (take l c) of None \<Rightarrow> [] | Some e \<Rightarrow> [Failed (error_message e ?h)]), sq', Slice c (slen b))"
    using b assms(5) facts(1-4) len
    by (auto simp: gotx_message_def poke_def reslice_def sbytes_def c_def Let_def split: option.split)
  have "drop 4 (take 16 (sback b)) = drop 4 (header_bytes h)" using facts(5) by simp
  then have "take 12 (drop 4 (sback b)) = drop 4 (header_bytes h)" by (simp add: drop_take)
  then have hb: "take 16 c = header_bytes ?h" using facts(2,3,4) len by (simp add: c_def header_bytes_def)
  have "drop 16 c = drop 16 (sback b)" by (simp add: c_def)
  then have bs: "take l c = header_bytes ?h @ drop 16 (take l (sback b))"
    using hb facts(3) append_take_drop_id [of 16 "take l c"] by (simp add: drop_take min_def)
  have n: "length (take l c) = l" using facts(2,3,4) len by (simp add: c_def)
  have "gorx_loop ns (Slice (take l c @ r) k) l 0 [] = Some [set_header ?h (set_nsid ns m)]" for ns r k
    using gorx_one [of ?h m "drop 16 (take l (sback b)) @ r" l ns k] facts(2,3,4,6) len
    by (simp add: bs unat_of_nat)
  then have "delivers (take l c) h m" using n by (simp add: delivers_def)
  moreover have "buffer_ok (Slice c (slen b))" "slen (Slice c (slen b)) = slen buf"
    using assms(2) facts(1-4) by (auto simp: buffer_ok_def c_def)
  ultimately show ?thesis using g n by (auto split: option.split)
qed

subsection \<open>A header of length 0\<close>



subsection \<open>Sequence numbers\<close>

text \<open>The headers of the messages sent: the defaults filled in, and the zero sequence numbers replaced by consecutive ones.\<close>

fun tx_headers :: "u32 \<Rightarrow> u32 \<Rightarrow> anymsg list \<Rightarrow> Header list" where
  "tx_headers pid sq [] = []"
| "tx_headers pid sq (m # ms) = (case tx_header pid sq (header_of m) of (h, sq) \<Rightarrow> h # tx_headers pid sq ms)"


definition two_messages :: "anymsg list" where
  "two_messages = [Neighbor (NewNeighborMessage\<lparr>mHeader := zero_header\<lparr>hdrType := 28\<rparr>,
      Attrs := (replicate 11 None)[1 := Some (Ip4Address [10, 0, 0, 1]), 2 := Some (EthernetAddress [2, 0, 0, 0, 0, 1]), 5 := Some (Uint16Attr 7)]\<rparr>),
    Gen (NewGenMessage\<lparr>mHeader := (mHeader NewGenMessage)\<lparr>hdrType := 18\<rparr>\<rparr>)]"


subsection \<open>Listen\<close>

lemma listen_tries_bounds:
  "listen_tries handler tries st rx = Some (err, n, st', rx') \<Longrightarrow> tries \<le> 5 \<Longrightarrow> tries \<le> n \<and> n \<le> 5 \<and> (err \<noteq> None \<longrightarrow> n = 5)"
proof (induction handler tries st rx rule: listen_tries.induct)
  case (1 handler tries st rx)
  then show ?case
    by (subst (asm) listen_tries.simps) (fastforce simp: bind_eq_Some_conv split: if_splits)
qed

text \<open>The requests \<open>rs\<close> in order, the \<open>i\<close>-th sent \<open>ns ! i\<close> times.\<close>

definition requests_sent :: "u64 option \<Rightarrow> u8 message list \<Rightarrow> (u16 \<times> u8) list \<Rightarrow> nat list \<Rightarrow> bool" where
  "requests_sent err sent rs ns \<longleftrightarrow> list_all (\<lambda>n. 1 \<le> n \<and> n \<le> 5) ns \<and> length ns \<le> length rs \<and>
     sent = concat (map (\<lambda>(n, r). replicate n (dump_request r)) (zip ns rs)) \<and>
     (if err = None then length ns = length rs else ns \<noteq> [] \<and> last ns = 5)"

lemma requests_sent_Cons: "requests_sent err sent rs ns \<Longrightarrow> 1 \<le> n \<Longrightarrow> n \<le> 5 \<Longrightarrow>
    requests_sent err (replicate n (dump_request r) @ sent) (r # rs) (n # ns)"
  by (auto simp: requests_sent_def split: if_splits)

lemma listen_loop_requests:
  "listen_loop handler reqs st rx = Some (err, sent, st', rx') \<Longrightarrow> \<exists>ns. requests_sent err sent (filter (\<lambda>r. fst r \<noteq> NLMSG_NOOP) reqs) ns"
proof (induction reqs arbitrary: st rx sent)
  case Nil
  then show ?case by (intro exI [of _ "[]"]) (auto simp: requests_sent_def)
next
  case (Cons r rs)
  show ?case
  proof (cases "fst r = NLMSG_NOOP")
    case True
    then show ?thesis using Cons by simp
  next
    case False
    then obtain e n st1 rx1 where t: "listen_tries handler 1 st rx = Some (e, n, st1, rx1)"
      and l: "(if e \<noteq> None then Some (e, replicate n (dump_request r), st1, rx1)
        else map_option (\<lambda>(err, more, st, rx). (err, replicate n (dump_request r) @ more, st, rx)) (listen_loop handler rs st1 rx1)) = Some (err, sent, st', rx')"
      using Cons.prems by (auto simp: bind_eq_Some_conv Let_def)
    have n: "1 \<le> n" "n \<le> 5" "e \<noteq> None \<longrightarrow> n = 5" using listen_tries_bounds [OF t] by auto
    show ?thesis
    proof (cases "e = None")
      case True
      then obtain more where m: "listen_loop handler rs st1 rx1 = Some (err, more, st', rx')" "sent = replicate n (dump_request r) @ more"
        using l by auto
      from Cons.IH [OF m(1)] show ?thesis using False n(1,2) m(2) requests_sent_Cons by fastforce
    next
      case e: False
      then show ?thesis using False n l by (intro exI [of _ "[n]"]) (auto simp: requests_sent_def)
    qed
  qed
qed



end
