(* ===== verification/Fdt.thy ===== *)
theory Fdt
  imports Go_Prelude "HOL-Library.AList"
begin

section \<open>Flattened device trees and images: internal/fdt, internal/fit\<close>

text \<open>
  A device tree is a tree of named nodes with properties; flattened, it is a header, a block of cells and a block of
  strings. A Go map is a list of pairs with distinct keys, in the order in which the program ranges over it. Debugging
  output is left out.
\<close>

subsection \<open>Trees\<close>

type_synonym bytes = "u8 list"

datatype node = Node (nName: bytes) (nDepth: nat) (nProps: "(bytes \<times> bytes) list") (nChildren: "(bytes \<times> node) list")

record fdt_header =
  Magic :: u32
  TotalSize :: u32
  OffDtStruct :: u32
  OffDtStrings :: u32
  OffMemRsvmap :: u32
  Version :: u32
  LastCompatibleVersion :: u32
  BootCpuidPhys :: u32
  SizeDtStrings :: u32
  SizeDtStruct :: u32

record Tree =
  header :: fdt_header
  IsLittleEndian :: bool
  RootNode :: "node option"

definition fdt_align :: "nat \<Rightarrow> nat" where
  "fdt_align x = (x + 4 - 1) div 4 * 4"

definition PropUint32 :: "bool \<Rightarrow> bytes \<Rightarrow> u32 option" where
  "PropUint32 le b = (if length b < 4 then None
     else Some (if le then get_u32 b 0 else get_u32 (rev (take 4 b)) 0))"

definition getCell :: "bool \<Rightarrow> bytes \<Rightarrow> nat \<Rightarrow> (nat \<times> nat) option" where
  "getCell le b i = map_option (\<lambda>v. (unat v, i + 4)) (PropUint32 le (drop i b))"

definition IndexByte0 :: "bytes \<Rightarrow> nat option" where
  "IndexByte0 b = (if 0 \<in> set b then Some (length (takeWhile (\<lambda>x. x \<noteq> 0) b)) else None)"

definition getString :: "fdt_header \<Rightarrow> bytes \<Rightarrow> nat \<Rightarrow> bytes option" where
  "getString h b offset = (let ofs = unat (OffDtStrings h) + offset in
     if length b < ofs then None else map_option (\<lambda>l. take l (drop ofs b)) (IndexByte0 (drop ofs b)))"

text \<open>The header is left as it was when the blob is too short for it.\<close>

definition readHeader :: "bool \<Rightarrow> bytes \<Rightarrow> fdt_header \<Rightarrow> fdt_header" where
  "readHeader le b h = (case map (\<lambda>i. PropUint32 le (drop (4 * i) b)) [0..<10] of
     [Some a, Some c, Some d, Some e, Some f, Some g, Some i, Some j, Some k, Some l] \<Rightarrow>
       \<lparr>Magic = a, TotalSize = c, OffDtStruct = d, OffDtStrings = e, OffMemRsvmap = f, Version = g,
        LastCompatibleVersion = i, BootCpuidPhys = j, SizeDtStrings = k, SizeDtStruct = l\<rparr>
   | _ \<Rightarrow> h)"

subsection \<open>Parsing\<close>

definition add_child :: "node \<Rightarrow> node \<Rightarrow> node" where
  "add_child c p = Node (nName p) (nDepth p) (nProps p) (AList.update (nName c) c (nChildren p))"

definition add_prop :: "bytes \<Rightarrow> bytes \<Rightarrow> node \<Rightarrow> node" where
  "add_prop k v n = Node (nName n) (nDepth n) (AList.update k v (nProps n)) (nChildren n)"

definition node_name :: "bytes \<Rightarrow> bytes \<times> nat" where
  "node_name b = (case IndexByte0 b of None \<Rightarrow> (str ''/'', 0) | Some l \<Rightarrow> (if 0 < l then take l b else str ''/'', l + 1))"

lemma getCell_mono: "getCell le b i = Some (v, j) \<Longrightarrow> j = i + 4 \<and> j \<le> length b"
  by (auto simp: getCell_def PropUint32_def split: if_splits)

lemma fdt_align_ge: "x \<le> fdt_align x"
  unfolding fdt_align_def by presburger

lemma walk_less: "cur < l \<Longrightarrow> cur < x \<Longrightarrow> l - fdt_align x < l - cur"
  using fdt_align_ge [of x] by linarith

lemma length_sbytes_le: "length (sbytes b) \<le> slen b"
  by (simp add: sbytes_def)

text \<open>The walk over the cells. The stack has its top in front. A value may reach behind the length of the buffer.\<close>

function parse_loop :: "bool \<Rightarrow> fdt_header \<Rightarrow> slice \<Rightarrow> nat \<Rightarrow> node list \<Rightarrow> node option \<Rightarrow> (node list \<times> node option) option" where
  "parse_loop le h b cur st rt = do {
     (tag, cur) \<leftarrow> getCell le (sbytes b) cur;
     if tag = 9 then Some (st, rt)
     else if tag = 1 then do {
       let (name, l) = node_name (drop cur (sbytes b));
       parse_loop le h b (fdt_align (cur + l)) (Node name (length st + 1) [] [] # st) rt }
     else if tag = 2 then (case st of
         [] \<Rightarrow> None
       | [n] \<Rightarrow> parse_loop le h b cur [] (Some n)
       | c # p # st \<Rightarrow> parse_loop le h b cur (add_child c p # st) rt)
     else if tag = 3 then do {
       (valueSize, cur) \<leftarrow> getCell le (sbytes b) cur;
       (nameOffset, cur) \<leftarrow> getCell le (sbytes b) cur;
       name \<leftarrow> getString h (sbytes b) nameOffset;
       value \<leftarrow> reslice b cur (cur + valueSize);
       case st of [] \<Rightarrow> None
       | n # st \<Rightarrow> parse_loop le h b (fdt_align (cur + valueSize)) (add_prop name (sbytes value) n # st) rt }
     else parse_loop le h b cur st rt }"
  by pat_completeness auto

termination
proof (relation "measure (\<lambda>(le, h, b, cur, st, rt). length (sbytes b) - cur)", goal_cases)
  case 1
  show ?case by simp
qed (auto dest!: getCell_mono intro!: walk_less intro: diff_less_mono2)

declare parse_loop.simps [simp del]

text \<open>\<open>Parse\<close>: the error, and the tree with the header read. The root is the one found last.\<close>

definition Parse :: "Tree \<Rightarrow> slice \<Rightarrow> (string option \<times> Tree) option" where
  "Parse t b = (let h = readHeader (IsLittleEndian t) (sbytes b) (header t) in do {
     (st, rt) \<leftarrow> parse_loop (IsLittleEndian t) h b (unat (OffDtStruct h)) [] (RootNode t);
     Some (if st \<noteq> [] then Some ''node stack not balanced'' else None, t\<lparr>header := h, RootNode := rt\<rparr>) })"

subsection \<open>Walking a tree\<close>

text \<open>The nodes a walk hands to the caller's function, in order.\<close>

fun eachNode :: "node \<Rightarrow> node list" where
  "eachNode (Node nm d ps cs) = Node nm d ps cs # concat (map (\<lambda>(k, c). eachNode c) cs)"

fun matchNode :: "bytes \<Rightarrow> node \<Rightarrow> node list" where
  "matchNode x (Node nm d ps cs) = (if nm = x then [Node nm d ps cs] else []) @ concat (map (\<lambda>(k, c). matchNode x c) cs)"

fun getNode :: "bytes \<Rightarrow> node \<Rightarrow> node option" where
  "getNode x (Node nm d ps cs) = (if nm = x then Some (Node nm d ps cs)
     else fold (\<lambda>(k, c) r. case r of Some n \<Rightarrow> Some n | None \<Rightarrow> getNode x c) cs None)"

text \<open>\<open>strings.Contains\<close>.\<close>

definition contains :: "bytes \<Rightarrow> bytes \<Rightarrow> bool" where
  "contains b x \<longleftrightarrow> (\<exists>i \<in> set [0..<Suc (length b)]. take (length x) (drop i b) = x)"

fun eachProp :: "bytes \<Rightarrow> bytes \<Rightarrow> node \<Rightarrow> (node \<times> bytes) list" where
  "eachProp k x (Node nm d ps cs) =
     (if x \<noteq> [] then (let v = (case map_of ps k of None \<Rightarrow> [] | Some v \<Rightarrow> v) in if contains v x then [(Node nm d ps cs, v)] else [])
      else case map_of ps k of None \<Rightarrow> [] | Some v \<Rightarrow> [(Node nm d ps cs, v)])
     @ concat (map (\<lambda>(j, c). eachProp k x c) cs)"

definition EachNodeFrom :: "bytes \<Rightarrow> Tree \<Rightarrow> node list option" where
  "EachNodeFrom x t = map_option (\<lambda>r. case getNode x r of None \<Rightarrow> [] | Some n \<Rightarrow> eachNode n) (RootNode t)"

definition EachProperty :: "bytes \<Rightarrow> bytes \<Rightarrow> Tree \<Rightarrow> (node \<times> bytes) list option" where
  "EachProperty k x t = map_option (eachProp k x) (RootNode t)"

text \<open>The regular expression is given by the strings it matches.\<close>

fun eachRegexp :: "(bytes \<Rightarrow> bool) \<Rightarrow> node \<Rightarrow> node list" where
  "eachRegexp match (Node nm d ps cs) = (if \<exists>(k, v) \<in> set ps. match k then [Node nm d ps cs] else [])
     @ concat (map (\<lambda>(k, c). eachRegexp match c) cs)"

definition EachPropertyMatching :: "(bytes \<Rightarrow> bool) \<Rightarrow> Tree \<Rightarrow> node list option" where
  "EachPropertyMatching match t = map_option (eachRegexp match) (RootNode t)"

text \<open>\<open>DefaultTree\<close>: the tree of the kernel, parsed when the program starts, if there is one.\<close>

definition DefaultTree :: "Tree \<Rightarrow> Tree option" where
  "DefaultTree d = (case RootNode d of None \<Rightarrow> None
     | Some n \<Rightarrow> if nProps n \<noteq> [] \<and> nChildren n \<noteq> [] then Some d else None)"

definition MatchNode :: "bytes \<Rightarrow> Tree \<Rightarrow> node list option" where
  "MatchNode x t = map_option (matchNode x) (RootNode t)"

definition PropUint32Slice :: "bool \<Rightarrow> bytes \<Rightarrow> u32 list" where
  "PropUint32Slice le b = map (\<lambda>i. the (PropUint32 le (drop (i * 4) b))) [0..<length b div 4]"

fun PropStringSlice :: "bytes \<Rightarrow> bytes list" where
  "PropStringSlice [] = [[]]"
| "PropStringSlice (x # b) = (if x = 0 then [] # PropStringSlice b
     else case PropStringSlice b of [] \<Rightarrow> [[x]] | w # ws \<Rightarrow> (x # w) # ws)"

definition PropString :: "bytes \<Rightarrow> bytes" where
  "PropString b = hd (PropStringSlice b)"

subsection \<open>Flattening\<close>

function alignTo :: "bytes \<Rightarrow> bytes" where
  "alignTo b = (if length b mod 4 \<noteq> 0 then alignTo (b @ [0]) else b)"
  by pat_completeness auto
termination
proof (relation "measure (\<lambda>b. 3 - (length b + 3) mod 4)")
  fix b :: bytes assume "length b mod 4 \<noteq> 0"
  then show "(b @ [0], b) \<in> measure (\<lambda>b. 3 - (length b + 3) mod 4)" by simp presburger
qed simp

declare alignTo.simps [simp del]

definition PropUint32ToSlice :: "bool \<Rightarrow> u32 \<Rightarrow> bytes" where
  "PropUint32ToSlice le v = (if le then le_bytes 4 v else rev (le_bytes 4 v))"

definition PropUint64ToSlice :: "bool \<Rightarrow> u64 \<Rightarrow> bytes" where
  "PropUint64ToSlice le v = (if le then le_bytes 8 v else rev (le_bytes 8 v))"

definition putCellUint64 :: "bool \<Rightarrow> bytes \<Rightarrow> u64 \<Rightarrow> bytes" where
  "putCellUint64 le b v = b @ PropUint64ToSlice le v"

definition putCell :: "bool \<Rightarrow> bytes \<Rightarrow> u32 \<Rightarrow> bytes" where
  "putCell le b v = b @ PropUint32ToSlice le v"

fun put_props :: "bool \<Rightarrow> bytes \<Rightarrow> bytes \<Rightarrow> (bytes \<times> bytes) list \<Rightarrow> bytes \<times> bytes" where
  "put_props le b s [] = (b, s)"
| "put_props le b s ((name, value) # ps) = (let
     b = putCell le b 3;
     b = putCell le b (of_nat (length value));
     b = putCell le b (of_nat (length s));
     b = b @ value;
     s = s @ name;
     s = s @ [0]
   in put_props le (alignTo b) s ps)"

fun putNode :: "bool \<Rightarrow> bytes \<Rightarrow> bytes \<Rightarrow> node \<Rightarrow> bytes \<times> bytes"
  and putNodes :: "bool \<Rightarrow> bytes \<Rightarrow> bytes \<Rightarrow> (bytes \<times> node) list \<Rightarrow> bytes \<times> bytes" where
  "putNode le b s (Node nm d ps cs) = (let
     b = putCell le b 1;
     b = (if nm \<noteq> str ''/'' then b @ nm else b);
     b = alignTo (b @ [0]);
     (b, s) = put_props le b s ps;
     (b, s) = putNodes le b s cs
   in (putCell le b 2, s))"
| "putNodes le b s [] = (b, s)"
| "putNodes le b s ((k, c) # cs) = (let (b, s) = putNode le b s c in putNodes le b s cs)"

definition headerLen :: nat where "headerLen = 40"

definition fdt_header_bytes :: "bool \<Rightarrow> fdt_header \<Rightarrow> bytes" where
  "fdt_header_bytes le h = concat (map (PropUint32ToSlice le) [Magic h, TotalSize h, OffDtStruct h, OffDtStrings h, OffMemRsvmap h,
     Version h, LastCompatibleVersion h, BootCpuidPhys h, SizeDtStrings h, SizeDtStruct h])"

definition FlattenTreeToSlice :: "Tree \<Rightarrow> bytes option" where
  "FlattenTreeToSlice t = do {
     rt \<leftarrow> RootNode t;
     let le = IsLittleEndian t;
     let m = replicate 16 0;
     let (b, s) = putNode le [] [] rt;
     let b = putCell le b 9;
     let s = alignTo s;
     let h = \<lparr>Magic = 0xd00dfeed, TotalSize = of_nat (headerLen + length m + length b + length s), OffDtStruct = of_nat (headerLen + length m),
       OffDtStrings = of_nat (headerLen + length m + length b), OffMemRsvmap = of_nat headerLen, Version = 17, LastCompatibleVersion = 16,
       BootCpuidPhys = 0, SizeDtStrings = of_nat (length s), SizeDtStruct = of_nat (length b)\<rparr>;
     Some (fdt_header_bytes le h @ m @ b @ s) }"

subsection \<open>Cells read back\<close>

lemma length_cell [simp]: "length (PropUint32ToSlice le v) = 4"
  by (simp add: PropUint32ToSlice_def)

lemma PropUint32_cell: "PropUint32 le (PropUint32ToSlice le v @ r) = Some v"
  using get_u32_le [of v "[]"] by (simp add: PropUint32_def PropUint32ToSlice_def)

lemma getCell_at: "length pre = i \<Longrightarrow> getCell le (pre @ PropUint32ToSlice le v @ r) i = Some (unat v, i + 4)"
  by (simp add: getCell_def PropUint32_cell)

lemma fdt_align_dvd: "4 dvd fdt_align x" and fdt_align_id: "4 dvd x \<Longrightarrow> fdt_align x = x"
  and fdt_align_add: "4 dvd k \<Longrightarrow> fdt_align (k + x) = k + fdt_align x"
  unfolding fdt_align_def by presburger+

lemma alignTo_eq: "alignTo b = b @ replicate (fdt_align (length b) - length b) 0"
proof (induction b rule: alignTo.induct)
  case (1 b)
  show ?case
  proof (cases "length b mod 4 = 0")
    case True
    then show ?thesis by (simp add: alignTo.simps [of b] fdt_align_id dvd_eq_mod_eq_0)
  next
    case False
    then have "fdt_align (Suc (length b)) = fdt_align (length b)" "length b < fdt_align (length b)"
      unfolding fdt_align_def by presburger+
    then obtain k where k: "fdt_align (length b) - length b = Suc k" "fdt_align (Suc (length b)) - Suc (length b) = k"
      by (metis Suc_diff_Suc)
    show ?thesis using False 1 k by (simp add: alignTo.simps [of b])
  qed
qed

lemma length_alignTo [simp]: "length (alignTo b) = fdt_align (length b)"
  using fdt_align_ge [of "length b"] by (simp add: alignTo_eq)

lemma IndexByte0_append: "0 \<notin> set x \<Longrightarrow> IndexByte0 (x @ 0 # r) = Some (length x)"
  by (induction x) (auto simp: IndexByte0_def)

lemma getString_at: "unat (OffDtStrings h) \<le> length b \<Longrightarrow> drop (unat (OffDtStrings h)) b = s @ x @ 0 # r \<Longrightarrow> 0 \<notin> set x \<Longrightarrow>
    getString h b (length s) = Some x"
proof -
  assume *: "unat (OffDtStrings h) \<le> length b" "drop (unat (OffDtStrings h)) b = s @ x @ 0 # r" "0 \<notin> set x"
  have "drop (unat (OffDtStrings h) + length s) b = x @ 0 # r" using *(2) by (metis add.commute append_eq_conv_conj drop_drop)
  moreover have "unat (OffDtStrings h) + length s \<le> length b" using arg_cong [OF *(2), of length] *(1) by simp
  ultimately show ?thesis using *(3) by (simp add: getString_def IndexByte0_append)
qed

lemma sbytes_full [simp]: "sbytes (Slice b (length b)) = b"
  by (simp add: sbytes_def)

subsection \<open>A node read back\<close>

text \<open>The trees a blob can hold: names and keys without a zero byte, distinct keys, children under their name, the depth of a
  node the one of its place.\<close>

fun node_ok :: "nat \<Rightarrow> node \<Rightarrow> bool" where
  "node_ok d (Node nm dd ps cs) \<longleftrightarrow> dd = d \<and> nm \<noteq> [] \<and> 0 \<notin> set nm \<and> distinct (map fst ps) \<and> list_all (\<lambda>(k, v). 0 \<notin> set k) ps \<and>
     distinct (map fst cs) \<and> list_all (\<lambda>(k, c). k = nName c \<and> node_ok (Suc d) c) cs"

text \<open>The blob: structure \<open>b\<close> behind \<open>pre\<close>, strings \<open>s\<close> where the header says.\<close>

definition blob :: "fdt_header \<Rightarrow> bytes \<Rightarrow> bytes \<Rightarrow> bytes \<Rightarrow> bytes \<Rightarrow> bool" where
  "blob h B pre b s \<longleftrightarrow> (\<exists>post. B = pre @ b @ post) \<and> 4 dvd length pre \<and> length B < 2 ^ 32 \<and> unat (OffDtStrings h) \<le> length B \<and>
     (\<exists>r. drop (unat (OffDtStrings h)) B = s @ r)"

lemma blob_prefix: "blob h B pre (b @ e) (s @ t) \<Longrightarrow> blob h B pre b s"
  by (auto simp: blob_def)

text \<open>The cells of a node's begin and of a property.\<close>

definition open_node :: "bool \<Rightarrow> bytes \<Rightarrow> bytes \<Rightarrow> bytes" where
  "open_node le b nm = alignTo (b @ PropUint32ToSlice le 1 @ (if nm \<noteq> str ''/'' then nm else []) @ [0])"

definition prop_cells :: "bool \<Rightarrow> bytes \<Rightarrow> bytes \<Rightarrow> bytes \<Rightarrow> bytes" where
  "prop_cells le b s v = alignTo (b @ PropUint32ToSlice le 3 @ PropUint32ToSlice le (of_nat (length v)) @ PropUint32ToSlice le (of_nat (length s)) @ v)"

lemma put_props_Cons: "put_props le b s ((k, v) # ps) = put_props le (prop_cells le b s v) (s @ k @ [0]) ps"
  by (simp add: prop_cells_def putCell_def)

lemma putNode_Node: "putNode le b s (Node nm d ps cs) = (let (b, s) = put_props le (open_node le b nm) s ps; (b, s) = putNodes le b s cs
    in (b @ PropUint32ToSlice le 2, s))"
  by (simp add: open_node_def putCell_def)

declare put_props.simps(2) [simp del] putNode.simps [simp del]

lemma alignTo_grow: "\<exists>e. alignTo (b @ x) = b @ e"
  by (simp add: alignTo_eq)

lemma open_node_grow: "\<exists>e. open_node le b nm = b @ e" "4 dvd length (open_node le b nm)"
  by (auto simp: open_node_def fdt_align_dvd alignTo_grow)

lemma prop_cells_grow: "\<exists>e. prop_cells le b s v = b @ e" "4 dvd length (prop_cells le b s v)"
  by (auto simp: prop_cells_def fdt_align_dvd alignTo_grow)

lemma put_props_grow: "4 dvd length b \<Longrightarrow> put_props le b s ps = (b', s') \<Longrightarrow> (\<exists>e t. b' = b @ e \<and> s' = s @ t) \<and> 4 dvd length b'"
proof (induction ps arbitrary: b s)
  case (Cons p ps)
  obtain k v where p: "p = (k, v)" by (cases p)
  obtain e where e: "prop_cells le b s v = b @ e" using prop_cells_grow(1) by blast
  show ?case using Cons.IH [OF prop_cells_grow(2) Cons.prems(2) [unfolded p put_props_Cons]] by (auto simp: e)
qed simp

lemma node_children_induct:
  assumes "\<And>nm d ps cs. Q cs \<Longrightarrow> P (Node nm d ps cs)" "Q []" "\<And>k c cs. P c \<Longrightarrow> Q cs \<Longrightarrow> Q ((k, c) # cs)"
  shows "P n" "Q cs"
proof -
  have q: "Q cs" if "\<And>k c. (k, c) \<in> set cs \<Longrightarrow> P c" for cs
    using that by (induction cs) (auto intro: assms(2,3))
  show p: "P n" for n
  proof (induction n)
    case (Node nm d ps cs)
    then have "\<And>k c. (k, c) \<in> set cs \<Longrightarrow> P c" by fastforce
    then show ?case by (intro assms(1) q)
  qed
  show "Q cs" by (rule q) (rule p)
qed

lemma putNode_grow:
  "4 dvd length b \<Longrightarrow> putNode le b s n = (b', s') \<Longrightarrow> (\<exists>e t. b' = b @ e \<and> s' = s @ t) \<and> 4 dvd length b'"
  "4 dvd length b \<Longrightarrow> putNodes le b s cs = (b', s') \<Longrightarrow> (\<exists>e t. b' = b @ e \<and> s' = s @ t) \<and> 4 dvd length b'"
proof (induction n and cs arbitrary: b s b' s' and b s b' s' rule: node_children_induct)
  case (1 nm d ps cs)
  obtain e where e: "open_node le b nm = b @ e" using open_node_grow(1) by blast
  obtain b1 s1 where p: "put_props le (open_node le b nm) s ps = (b1, s1)" by fastforce
  obtain b2 s2 where c: "putNodes le b1 s1 cs = (b2, s2)" by fastforce
  have g: "(\<exists>e t. b1 = open_node le b nm @ e \<and> s1 = s @ t) \<and> 4 dvd length b1" using put_props_grow [OF open_node_grow(2) p] .
  then have g2: "(\<exists>e t. b2 = b1 @ e \<and> s2 = s1 @ t) \<and> 4 dvd length b2" using "1.IH" [OF _ c] by simp
  have b': "b' = b2 @ PropUint32ToSlice le 2" "s' = s2" using "1.prems"(2) p c by (simp_all add: putNode_Node)
  then have "4 dvd length b'" using g2 by simp
  then show ?case using g g2 by (auto simp: b' e)
next
  case 2
  then show ?case by simp
next
  case (3 k c cs)
  obtain b1 s1 where p: "putNode le b s c = (b1, s1)" by fastforce
  have g: "(\<exists>e t. b1 = b @ e \<and> s1 = s @ t) \<and> 4 dvd length b1" using "3.IH"(1) [OF "3.prems"(1) p] .
  then show ?case using "3.IH"(2) [of b1 s1 b' s'] "3.prems"(2) p by auto
qed

abbreviation pl :: "bool \<Rightarrow> fdt_header \<Rightarrow> bytes \<Rightarrow> nat \<Rightarrow> node list \<Rightarrow> node option \<Rightarrow> (node list \<times> node option) option" where
  "pl le h B cur st rt \<equiv> parse_loop le h (Slice B (length B)) cur st rt"

lemma parse_cell:
  assumes "B = pre @ PropUint32ToSlice le v @ r" "length pre = i"
  shows "pl le h B i st rt = do {
     let cur = i + 4;
     if v = 9 then Some (st, rt)
     else if v = 1 then do {
       let (name, l) = node_name (drop cur B);
       pl le h B (fdt_align (cur + l)) (Node name (length st + 1) [] [] # st) rt }
     else if v = 2 then (case st of
         [] \<Rightarrow> None
       | [n] \<Rightarrow> pl le h B cur [] (Some n)
       | c # p # st \<Rightarrow> pl le h B cur (add_child c p # st) rt)
     else if v = 3 then do {
       (valueSize, cur) \<leftarrow> getCell le B cur;
       (nameOffset, cur) \<leftarrow> getCell le B cur;
       name \<leftarrow> getString h B nameOffset;
       value \<leftarrow> reslice (Slice B (length B)) cur (cur + valueSize);
       case st of [] \<Rightarrow> None
       | n # st \<Rightarrow> pl le h B (fdt_align (cur + valueSize)) (add_prop name (sbytes value) n # st) rt }
     else pl le h B cur st rt }"
proof -
  have "getCell le B i = Some (unat v, i + 4)" using getCell_at [OF assms(2), of le v r] assms(1) by simp
  moreover have "unat v = 9 \<longleftrightarrow> v = 9" "unat v = 1 \<longleftrightarrow> v = 1" "unat v = 2 \<longleftrightarrow> v = 2" "unat v = 3 \<longleftrightarrow> v = 3"
    by (simp_all add: word_unat_eq_iff)
  ultimately show ?thesis by (subst parse_loop.simps) (simp add: Let_def cong: if_cong)
qed

lemma parse_open:
  assumes "blob h B pre (open_node le b nm) s" "4 dvd length b" "nm \<noteq> []" "0 \<notin> set nm"
  shows "pl le h B (length pre + length b) st rt = pl le h B (length pre + length (open_node le b nm)) (Node nm (length st + 1) [] [] # st) rt"
proof -
  define x where "x = (if nm \<noteq> str ''/'' then nm else [])"
  define z where "z = replicate (fdt_align (length (b @ PropUint32ToSlice le 1 @ x @ [0])) - length (b @ PropUint32ToSlice le 1 @ x @ [0])) (0 :: u8)"
  have o: "open_node le b nm = b @ PropUint32ToSlice le 1 @ x @ [0] @ z" by (simp add: open_node_def alignTo_eq x_def z_def)
  obtain post where B: "B = pre @ open_node le b nm @ post" and pre: "4 dvd length pre" using assms(1) by (auto simp: blob_def)
  have B': "B = (pre @ b) @ PropUint32ToSlice le 1 @ x @ 0 # z @ post" by (simp add: B o)
  have d: "drop (length pre + length b + 4) B = x @ 0 # z @ post" by (simp add: B')
  have "0 \<notin> set x" using assms(4) by (simp add: x_def)
  then have n: "node_name (x @ 0 # z @ post) = (nm, length x + 1)"
    using assms(3) by (auto simp: node_name_def IndexByte0_append x_def)
  have "length (open_node le b nm) = fdt_align (length b + 4 + length x + 1)" by (simp add: open_node_def x_def ac_simps)
  then have "fdt_align (length pre + length b + 4 + (length x + 1)) = length pre + length (open_node le b nm)"
    using fdt_align_add [OF pre, of "length b + 4 + length x + 1"] by (simp add: ac_simps)
  then show ?thesis using parse_cell [OF B', of "length pre + length b" h st rt] n d by simp
qed

lemma parse_prop:
  assumes "blob h B pre (prop_cells le b s v) (s @ k @ [0])" "4 dvd length b" "0 \<notin> set k"
  shows "pl le h B (length pre + length b) (n # st) rt = pl le h B (length pre + length (prop_cells le b s v)) (add_prop k v n # st) rt"
proof -
  let ?c = "PropUint32ToSlice le"
  define z where "z = replicate (fdt_align (length b + 12 + length v) - (length b + 12 + length v)) (0 :: u8)"
  have o: "prop_cells le b s v = b @ ?c 3 @ ?c (of_nat (length v)) @ ?c (of_nat (length s)) @ v @ z"
    by (simp add: prop_cells_def alignTo_eq z_def add.assoc)
  obtain post r where B: "B = pre @ prop_cells le b s v @ post" and pre: "4 dvd length pre" and l: "length B < 2 ^ 32"
    and s: "unat (OffDtStrings h) \<le> length B" "drop (unat (OffDtStrings h)) B = s @ k @ 0 # r" using assms(1) by (auto simp: blob_def)
  let ?i = "length pre + length b"
  have B1: "B = (pre @ b) @ ?c 3 @ ?c (of_nat (length v)) @ ?c (of_nat (length s)) @ v @ z @ post"
    and B2: "B = (pre @ b @ ?c 3) @ ?c (of_nat (length v)) @ ?c (of_nat (length s)) @ v @ z @ post"
    and B3: "B = (pre @ b @ ?c 3 @ ?c (of_nat (length v))) @ ?c (of_nat (length s)) @ v @ z @ post" by (simp_all add: B o)
  have lv: "length v < 2 ^ 32" using arg_cong [OF B1, of length] l by simp
  have ls: "length s < 2 ^ 32" using arg_cong [OF s(2), of length] l by simp
  have c2: "getCell le B (?i + 4) = Some (length v, ?i + 8)"
    using getCell_at [of "pre @ b @ ?c 3" "?i + 4" le "of_nat (length v)"] B2 lv by (simp add: unat_of_nat)
  have c3: "getCell le B (?i + 8) = Some (length s, ?i + 12)"
    using getCell_at [of "pre @ b @ ?c 3 @ ?c (of_nat (length v))" "?i + 8" le "of_nat (length s)"] B3 ls by (simp add: unat_of_nat)
  have d: "drop (?i + 12) B = v @ z @ post" by (simp add: B1)
  then have "?i + 12 + length v \<le> length B" using arg_cong [OF B1, of length] by simp
  then have v: "reslice (Slice B (length B)) (?i + 12) (?i + 12 + length v) = Some (Slice (v @ z @ post) (length v))"
    using d by (simp add: reslice_def)
  have "length (prop_cells le b s v) = fdt_align (length b + 12 + length v)" by (simp add: prop_cells_def add.assoc)
  then have "fdt_align (?i + 12 + length v) = length pre + length (prop_cells le b s v)"
    using fdt_align_add [OF pre, of "length b + 12 + length v"] by (simp add: add.assoc)
  then show ?thesis using parse_cell [OF B1, of ?i h "n # st" rt] c2 c3 v getString_at [OF s assms(3)] by (simp add: sbytes_def)
qed

lemma parse_props:
  assumes "put_props le b s ps = (b', s')" "blob h B pre b' s'" "4 dvd length b" "list_all (\<lambda>(k, v). 0 \<notin> set k) ps" "distinct (map fst ps)"
    "set (map fst ps) \<inter> set (map fst qs) = {}"
  shows "pl le h B (length pre + length b) (Node nm d qs cs # st) rt = pl le h B (length pre + length b') (Node nm d (qs @ ps) cs # st) rt"
  using assms
proof (induction ps arbitrary: b s qs)
  case (Cons p ps)
  obtain k v where p: "p = (k, v)" by (cases p)
  have e: "put_props le (prop_cells le b s v) (s @ k @ [0]) ps = (b', s')" using Cons.prems(1) by (simp add: p put_props_Cons)
  have bl: "blob h B pre (prop_cells le b s v) (s @ k @ [0])"
    using put_props_grow [OF prop_cells_grow(2) e] Cons.prems(2) by (auto intro: blob_prefix)
  have "k \<notin> fst ` set qs" using Cons.prems(6) by (auto simp: p)
  then have "AList.update k v qs = qs @ [(k, v)]" by (induction qs) auto
  then have "pl le h B (length pre + length b) (Node nm d qs cs # st) rt = pl le h B (length pre + length (prop_cells le b s v)) (Node nm d (qs @ [(k, v)]) cs # st) rt"
    using parse_prop [OF bl Cons.prems(3)] Cons.prems(4) by (simp add: p add_prop_def)
  also have "\<dots> = pl le h B (length pre + length b') (Node nm d (qs @ p # ps) cs # st) rt"
    using Cons.IH [OF e Cons.prems(2) prop_cells_grow(2), of "qs @ [(k, v)]"] Cons.prems(4-6) by (auto simp: p)
  finally show ?case .
qed simp

fun node_done :: "node \<Rightarrow> node list \<Rightarrow> node option \<Rightarrow> node list \<times> node option" where
  "node_done n [] rt = ([], Some n)"
| "node_done n (p # st) rt = (add_child n p # st, rt)"

lemma parse_close:
  assumes "B = pre @ PropUint32ToSlice le 2 @ r" "length pre = i"
  shows "pl le h B i (n # st) rt = (case node_done n st rt of (st, rt) \<Rightarrow> pl le h B (i + 4) st rt)"
  by (cases st) (simp_all add: parse_cell [OF assms])

lemma parse_node:
  "putNode le b s n = (b', s') \<Longrightarrow> blob h B pre b' s' \<Longrightarrow> 4 dvd length b \<Longrightarrow> node_ok (length st + 1) n \<Longrightarrow>
     pl le h B (length pre + length b) st rt = (case node_done n st rt of (st, rt) \<Rightarrow> pl le h B (length pre + length b') st rt)"
  "putNodes le b s cs = (b', s') \<Longrightarrow> blob h B pre b' s' \<Longrightarrow> 4 dvd length b \<Longrightarrow> list_all (\<lambda>(k, c). k = nName c \<and> node_ok (length st + 2) c) cs \<Longrightarrow>
     distinct (map fst cs) \<Longrightarrow> set (map fst cs) \<inter> set (map fst ds) = {} \<Longrightarrow>
     pl le h B (length pre + length b) (Node nm d ps ds # st) rt = pl le h B (length pre + length b') (Node nm d ps (ds @ cs) # st) rt"
proof (induction n and cs arbitrary: b s b' s' st rt and b s b' s' ds st rt nm d ps rule: node_children_induct)
  case (1 nm d ps cs)
  obtain b1 s1 where p: "put_props le (open_node le b nm) s ps = (b1, s1)" by fastforce
  obtain b2 s2 where c: "putNodes le b1 s1 cs = (b2, s2)" by fastforce
  have b': "b' = b2 @ PropUint32ToSlice le 2" "s' = s2" using "1.prems"(1) p c by (simp_all add: putNode_Node)
  have g1: "\<exists>e t. b1 = open_node le b nm @ e \<and> s1 = s @ t" "4 dvd length b1" using put_props_grow [OF open_node_grow(2) p] by auto
  have g2: "\<exists>e t. b2 = b1 @ e \<and> s2 = s1 @ t" using putNode_grow(2) [OF g1(2) c] by auto
  have bl2: "blob h B pre b2 s2" using "1.prems"(2) unfolding b' using blob_prefix [of h B pre b2 _ s2 "[]"] by simp
  then have bl1: "blob h B pre b1 s1" using g2 by (auto intro: blob_prefix)
  then have bl0: "blob h B pre (open_node le b nm) s" using g1 by (auto intro: blob_prefix)
  have ok: "d = length st + 1" "nm \<noteq> []" "0 \<notin> set nm" "distinct (map fst ps)" "list_all (\<lambda>(k, v). 0 \<notin> set k) ps" "distinct (map fst cs)"
    "list_all (\<lambda>(k, c). k = nName c \<and> node_ok (length st + 2) c) cs" using "1.prems"(4) by simp_all
  obtain r where B: "B = (pre @ b2) @ PropUint32ToSlice le 2 @ r" using "1.prems"(2) by (auto simp: blob_def b')
  have "pl le h B (length pre + length b) st rt = pl le h B (length pre + length (open_node le b nm)) (Node nm d [] [] # st) rt"
    using parse_open [OF bl0 "1.prems"(3) ok(2,3)] ok(1) by simp
  also have "\<dots> = pl le h B (length pre + length b1) (Node nm d ps [] # st) rt"
    using parse_props [OF p bl1 open_node_grow(2) ok(5,4), of "[]"] by simp
  also have "\<dots> = pl le h B (length pre + length b2) (Node nm d ps cs # st) rt"
    using "1.IH" [OF c bl2 g1(2) ok(7,6), where ds = "[]"] by simp
  also have "\<dots> = (case node_done (Node nm d ps cs) st rt of (st, rt) \<Rightarrow> pl le h B (length pre + length b') st rt)"
    using parse_close [OF B, of "length pre + length b2"] by (simp add: b' add.assoc)
  finally show ?case .
next
  case 2
  then show ?case by simp
next
  case (3 k c cs)
  obtain b1 s1 where p: "putNode le b s c = (b1, s1)" by fastforce
  have c: "putNodes le b1 s1 cs = (b', s')" using "3.prems"(1) p by simp
  have g1: "4 dvd length b1" using putNode_grow(1) [OF "3.prems"(3) p] by auto
  have bl1: "blob h B pre b1 s1" using putNode_grow(2) [OF g1 c] "3.prems"(2) by (auto intro: blob_prefix)
  have ok: "k = nName c" "node_ok (length (Node nm d ps ds # st) + 1) c" using "3.prems"(4) by simp_all
  have "k \<notin> fst ` set ds" using "3.prems"(6) by auto
  then have u: "AList.update k c ds = ds @ [(k, c)]" by (induction ds) auto
  have "pl le h B (length pre + length b) (Node nm d ps ds # st) rt = pl le h B (length pre + length b1) (Node nm d ps (ds @ [(k, c)]) # st) rt"
    using "3.IH"(1) [OF p bl1 "3.prems"(3) ok(2)] u ok(1) by (simp add: add_child_def)
  also have "\<dots> = pl le h B (length pre + length b') (Node nm d ps (ds @ (k, c) # cs) # st) rt"
    using "3.IH"(2) [OF c "3.prems"(2) g1, where ds = "ds @ [(k, c)]"] "3.prems"(4-6) by auto
  finally show ?case .
qed

subsection \<open>A blob read back\<close>

lemma drop_cells: "i < length xs \<Longrightarrow> PropUint32 le (drop (4 * i) (concat (map (PropUint32ToSlice le) xs) @ r)) = Some (xs ! i)"
proof (induction xs arbitrary: i)
  case (Cons x xs)
  then show ?case by (cases i) (simp_all add: PropUint32_cell)
qed simp

lemma readHeader_bytes: "readHeader le (fdt_header_bytes le h @ r) h0 = h"
proof -
  let ?xs = "[Magic h, TotalSize h, OffDtStruct h, OffDtStrings h, OffMemRsvmap h,
     Version h, LastCompatibleVersion h, BootCpuidPhys h, SizeDtStrings h, SizeDtStruct h]"
  have "map (\<lambda>i. PropUint32 le (drop (4 * i) (fdt_header_bytes le h @ r))) [0..<10] = map (\<lambda>i. Some (?xs ! i)) [0..<10]"
    unfolding fdt_header_bytes_def by (rule map_cong [OF refl]) (rule drop_cells, simp)
  also have "\<dots> = map Some ?xs" by (simp add: upt_rec numeral_eq_Suc)
  finally have e: "map (\<lambda>i. PropUint32 le (drop (4 * i) (fdt_header_bytes le h @ r))) [0..<10] = map Some ?xs" .
  show ?thesis unfolding readHeader_def e by simp
qed

lemma length_fdt_header_bytes [simp]: "length (fdt_header_bytes le h) = 40"
  by (simp add: fdt_header_bytes_def)

lemma parse_flattened:
  assumes "FlattenTreeToSlice t = Some buf" "RootNode t = Some n" "node_ok 1 n" "length buf < 2 ^ 32"
    and "IsLittleEndian u = IsLittleEndian t"
  shows "\<exists>h. Parse u (Slice buf (length buf)) = Some (None, u\<lparr>header := h, RootNode := Some n\<rparr>)"
proof -
  let ?le = "IsLittleEndian t"
  obtain b s where p: "putNode ?le [] [] n = (b, s)" by fastforce
  let ?b = "b @ PropUint32ToSlice ?le 9"
  define h where "h = \<lparr>Magic = 0xd00dfeed, TotalSize = of_nat (56 + length ?b + length (alignTo s)), OffDtStruct = 56,
       OffDtStrings = of_nat (56 + length ?b), OffMemRsvmap = 40, Version = 17, LastCompatibleVersion = 16,
       BootCpuidPhys = 0, SizeDtStrings = of_nat (length (alignTo s)), SizeDtStruct = of_nat (length ?b)\<rparr>"
  define pre where "pre = fdt_header_bytes ?le h @ replicate 16 0"
  have buf: "buf = pre @ ?b @ alignTo s"
    using assms(1,2) p by (simp add: FlattenTreeToSlice_def Let_def putCell_def headerLen_def pre_def h_def)
  have pre: "length pre = 56" by (simp add: pre_def)
  have off: "unat (OffDtStruct h) = 56" "unat (OffDtStrings h) = 56 + length ?b"
    using assms(4) arg_cong [OF buf, of length] pre by (simp_all add: h_def unat_of_nat del: of_nat_add of_nat_numeral)
  have bl: "blob h buf pre b s"
    using assms(4) off pre by (auto simp: blob_def buf alignTo_eq)
  have r: "readHeader ?le buf (header u) = h" by (simp add: buf pre_def readHeader_bytes)
  have "pl ?le h buf 56 [] (RootNode u) = pl ?le h buf (56 + length b) [] (Some n)"
    using parse_node(1) [OF p bl, of "[]" "RootNode u"] assms(3) pre by simp
  also have "\<dots> = Some ([], Some n)"
    using parse_cell [of buf "pre @ b" ?le 9 "alignTo s" "56 + length b" h "[]"] pre by (simp add: buf)
  finally show ?thesis using r off(1) by (intro exI [of _ h]) (simp add: Parse_def assms(5))
qed

text \<open>C39: A flattened tree is parsed as the tree it was made of, in either byte order and whatever the order in which the maps are
  ranged over: the names, the depths, the properties with their values, and the children.\<close>

theorem Flatten_Parse:
  assumes "FlattenTreeToSlice t = Some buf" "RootNode t = Some n" "node_ok 1 n" "length buf < 2 ^ 32"
    and "IsLittleEndian u = IsLittleEndian t"
  shows "\<exists>h. Parse u (Slice buf (length buf)) = Some (None, u\<lparr>header := h, RootNode := Some n\<rparr>)"
  using assms by (rule parse_flattened)

definition no_header :: fdt_header where
  "no_header = \<lparr>Magic = 0, TotalSize = 0, OffDtStruct = 0, OffDtStrings = 0, OffMemRsvmap = 0, Version = 0, LastCompatibleVersion = 0,
     BootCpuidPhys = 0, SizeDtStrings = 0, SizeDtStruct = 0\<rparr>"

definition small_tree :: node where
  "small_tree = Node (str ''/'') 1 [(str ''compatible'', str ''x''), (str ''model'', [])] [(str ''cpus'', Node (str ''cpus'') 2 [(str ''n'', [0, 0, 0, 4])] [])]"

lemma Flatten_Parse_witness:
  "\<exists>buf h. FlattenTreeToSlice \<lparr>header = no_header, IsLittleEndian = False, RootNode = Some small_tree\<rparr> = Some buf \<and>
     Parse \<lparr>header = no_header, IsLittleEndian = False, RootNode = None\<rparr> (Slice buf (length buf))
       = Some (None, \<lparr>header = h, IsLittleEndian = False, RootNode = Some small_tree\<rparr>)"
proof -
  let ?t = "\<lparr>header = no_header, IsLittleEndian = False, RootNode = Some small_tree\<rparr>"
  obtain buf where b: "FlattenTreeToSlice ?t = Some buf" by (cases "FlattenTreeToSlice ?t") (auto simp: FlattenTreeToSlice_def Let_def split: prod.splits)
  have "length buf < 2 ^ 32"
    using b by (auto simp: FlattenTreeToSlice_def Let_def small_tree_def putNode_Node put_props_Cons open_node_def prop_cells_def putCell_def headerLen_def str_def fdt_align_def split: prod.splits)
  moreover have "node_ok 1 small_tree" by (simp add: small_tree_def str_def)
  ultimately show ?thesis
    using b Flatten_Parse [of ?t buf small_tree "\<lparr>header = no_header, IsLittleEndian = False, RootNode = None\<rparr>"] by auto
qed

end
