(* ===== verification/Fit.thy ===== *)
theory Fit
  imports Fdt Eeprom
begin

section \<open>Image trees: internal/fit\<close>

text \<open>
  An image tree is a flattened device tree with a node for every image, which holds the data and its hashes, and a node for
  every configuration, which names three images. \<open>Parse\<close> checks every hash and panics at anything it does not expect: a
  panic is a value on the left of a sum. The hash functions of the standard library come first, as their definitions have
  them.
\<close>

subsection \<open>SHA-1 and MD5\<close>

definition pad_msg :: "bool \<Rightarrow> bytes \<Rightarrow> bytes" where
  "pad_msg le b = b @ [0x80] @ replicate ((119 - length b mod 64) mod 64) 0 @ PropUint64ToSlice le (of_nat (8 * length b))"

definition block_words :: "bool \<Rightarrow> bytes \<Rightarrow> u32 list" where
  "block_words le b = PropUint32Slice le (take 64 b)"

definition sha1_schedule :: "u32 list \<Rightarrow> u32 list" where
  "sha1_schedule ws = fold (\<lambda>t w. w @ [word_rotl 1 (w ! (t - 3) XOR w ! (t - 8) XOR w ! (t - 14) XOR w ! (t - 16))]) [16..<80] ws"

type_synonym sha1_state = "u32 \<times> u32 \<times> u32 \<times> u32 \<times> u32"

definition sha1_round :: "u32 list \<Rightarrow> nat \<Rightarrow> sha1_state \<Rightarrow> sha1_state" where
  "sha1_round w t = (\<lambda>(a, b, c, d, e). (let
     f = (if t < 20 then (b AND c) OR (NOT b AND d) else if t < 40 then b XOR c XOR d
          else if t < 60 then (b AND c) OR (b AND d) OR (c AND d) else b XOR c XOR d);
     k = (if t < 20 then 0x5A827999 else if t < 40 then 0x6ED9EBA1 else if t < 60 then 0x8F1BBCDC else 0xCA62C1D6)
   in (word_rotl 5 a + f + e + k + w ! t, a, word_rotl 30 b, c, d)))"

definition sha1_block :: "bytes \<Rightarrow> sha1_state \<Rightarrow> sha1_state" where
  "sha1_block blk = (\<lambda>(h0, h1, h2, h3, h4). (let
     (a, b, c, d, e) = fold (sha1_round (sha1_schedule (block_words False blk))) [0..<80] (h0, h1, h2, h3, h4)
   in (h0 + a, h1 + b, h2 + c, h3 + d, h4 + e)))"

definition sha1 :: "bytes \<Rightarrow> bytes" where
  "sha1 b = (let p = pad_msg False b;
     (a, b, c, d, e) = fold (\<lambda>i. sha1_block (drop (64 * i) p)) [0..<length p div 64]
       (0x67452301, 0xEFCDAB89, 0x98BADCFE, 0x10325476, 0xC3D2E1F0)
   in concat (map (PropUint32ToSlice False) [a, b, c, d, e]))"

definition md5_K :: "u32 list" where
  "md5_K =
  [0xd76aa478, 0xe8c7b756, 0x242070db, 0xc1bdceee, 0xf57c0faf, 0x4787c62a, 0xa8304613, 0xfd469501,
   0x698098d8, 0x8b44f7af, 0xffff5bb1, 0x895cd7be, 0x6b901122, 0xfd987193, 0xa679438e, 0x49b40821,
   0xf61e2562, 0xc040b340, 0x265e5a51, 0xe9b6c7aa, 0xd62f105d, 0x02441453, 0xd8a1e681, 0xe7d3fbc8,
   0x21e1cde6, 0xc33707d6, 0xf4d50d87, 0x455a14ed, 0xa9e3e905, 0xfcefa3f8, 0x676f02d9, 0x8d2a4c8a,
   0xfffa3942, 0x8771f681, 0x6d9d6122, 0xfde5380c, 0xa4beea44, 0x4bdecfa9, 0xf6bb4b60, 0xbebfbc70,
   0x289b7ec6, 0xeaa127fa, 0xd4ef3085, 0x04881d05, 0xd9d4d039, 0xe6db99e5, 0x1fa27cf8, 0xc4ac5665,
   0xf4292244, 0x432aff97, 0xab9423a7, 0xfc93a039, 0x655b59c3, 0x8f0ccc92, 0xffeff47d, 0x85845dd1,
   0x6fa87e4f, 0xfe2ce6e0, 0xa3014314, 0x4e0811a1, 0xf7537e82, 0xbd3af235, 0x2ad7d2bb, 0xeb86d391]"

definition md5_S :: "nat list list" where
  "md5_S = [[7, 12, 17, 22], [5, 9, 14, 20], [4, 11, 16, 23], [6, 10, 15, 21]]"

type_synonym md5_state = "u32 \<times> u32 \<times> u32 \<times> u32"

definition md5_round :: "u32 list \<Rightarrow> nat \<Rightarrow> md5_state \<Rightarrow> md5_state" where
  "md5_round w t = (\<lambda>(a, b, c, d). (let
     (f, g) = (if t < 16 then ((b AND c) OR (NOT b AND d), t)
               else if t < 32 then ((d AND b) OR (NOT d AND c), (5 * t + 1) mod 16)
               else if t < 48 then (b XOR c XOR d, (3 * t + 5) mod 16)
               else (c XOR (b OR NOT d), 7 * t mod 16))
   in (d, b + word_rotl (md5_S ! (t div 16) ! (t mod 4)) (f + a + md5_K ! t + w ! g), b, c)))"

definition md5_block :: "bytes \<Rightarrow> md5_state \<Rightarrow> md5_state" where
  "md5_block blk = (\<lambda>(h0, h1, h2, h3). (let
     (a, b, c, d) = fold (md5_round (block_words True blk)) [0..<64] (h0, h1, h2, h3)
   in (h0 + a, h1 + b, h2 + c, h3 + d)))"

definition md5 :: "bytes \<Rightarrow> bytes" where
  "md5 b = (let p = pad_msg True b;
     (a, b, c, d) = fold (\<lambda>i. md5_block (drop (64 * i) p)) [0..<length p div 64]
       (0x67452301, 0xEFCDAB89, 0x98BADCFE, 0x10325476)
   in concat (map (PropUint32ToSlice True) [a, b, c, d]))"

subsection \<open>The image tree\<close>

record Image =
  iName :: bytes
  iDescription :: bytes
  iType :: bytes
  iArch :: bytes
  iOs :: bytes
  iCompression :: bytes
  LoadAddr :: u64
  iData :: bytes

record Config =
  cDescription :: bytes
  ImageList :: "Image option list"
  BaseAddr :: u64
  NextAddr :: u64

record Fit =
  fdt :: Tree
  Description :: bytes
  AddressCells :: u32
  TimeStamp :: int
  DefaultConfig :: bytes
  Images :: "(bytes \<times> Image) list"
  Configs :: "(bytes \<times> Config) list"

datatype panic = Runtime | Required bytes | BadTree string | BadHash bytes | NoConfig bytes

definition and_then :: "panic + 'a \<Rightarrow> ('a \<Rightarrow> panic + 'b) \<Rightarrow> panic + 'b" where
  "and_then r f = (case r of Inl e \<Rightarrow> Inl e | Inr x \<Rightarrow> f x)"

definition checked :: "'a option \<Rightarrow> panic + 'a" where
  "checked r = (case r of None \<Rightarrow> Inl Runtime | Some x \<Rightarrow> Inr x)"

fun each :: "('a \<Rightarrow> 's \<Rightarrow> panic + 's) \<Rightarrow> 'a list \<Rightarrow> 's \<Rightarrow> panic + 's" where
  "each f [] s = Inr s"
| "each f (x # xs) s = and_then (f x s) (each f xs)"

definition getProperty :: "node option \<Rightarrow> bytes \<Rightarrow> panic + bytes" where
  "getProperty n propName = and_then (checked n) (\<lambda>n.
     case map_of (nProps n) propName of Some val \<Rightarrow> Inr val | None \<Rightarrow> Inl (Required propName))"

text \<open>The value of a property, empty if there is none, and the child of a name, absent if there is none.\<close>

definition prop_of :: "node \<Rightarrow> bytes \<Rightarrow> bytes" where
  "prop_of n k = (case map_of (nProps n) k of None \<Rightarrow> [] | Some v \<Rightarrow> v)"

definition child_of :: "node option \<Rightarrow> bytes \<Rightarrow> panic + node option" where
  "child_of n k = and_then (checked n) (\<lambda>n. Inr (map_of (nChildren n) k))"

definition validateHash :: "Tree \<Rightarrow> node \<Rightarrow> Image \<Rightarrow> panic + unit" where
  "validateHash t n i =
     and_then (getProperty (Some n) (str ''algo'')) (\<lambda>algo.
     and_then (getProperty (Some n) (str ''value'')) (\<lambda>value. (let
       algostr = PropString algo
     in if algostr = str ''sha1'' then (if value \<noteq> sha1 (iData i) then Inl (BadHash algostr) else Inr ())
     else if algostr = str ''crc32'' then
       and_then (checked (PropUint32 (IsLittleEndian t) value)) (\<lambda>propsum.
         if ChecksumIEEE (iData i) \<noteq> propsum then Inl (BadHash algostr) else Inr ())
     else if algostr = str ''md5'' then (if value \<noteq> md5 (iData i) then Inl (BadHash algostr) else Inr ())
     else Inr ())))"

definition is_hash :: "node \<Rightarrow> bool" where
  "is_hash c \<longleftrightarrow> nName c = str ''hash'' \<or> prefix (str ''hash@'') (nName c)"

definition validateHashes :: "Tree \<Rightarrow> node \<Rightarrow> Image \<Rightarrow> panic + unit" where
  "validateHashes t n i = each (\<lambda>(k, c) _. if is_hash c then validateHash t c i else Inr ()) (nChildren n) ()"

definition parseImage :: "Fit \<Rightarrow> bytes \<Rightarrow> Config \<Rightarrow> Config" where
  "parseImage f imageName cfg = cfg\<lparr>ImageList := ImageList cfg @ [map_of (Images f) imageName]\<rparr>"

definition parseConfiguration :: "bytes \<Rightarrow> Fit \<Rightarrow> panic + Fit" where
  "parseConfiguration whichconf f =
     and_then (child_of (RootNode (fdt f)) (str ''configurations'')) (\<lambda>conf.
     and_then (child_of conf whichconf) (\<lambda>conf.
     case conf of None \<Rightarrow> Inl (NoConfig whichconf)
     | Some conf \<Rightarrow> (let
         kernel = PropString (prop_of conf (str ''kernel''));
         fdt = PropString (prop_of conf (str ''fdt''));
         ramdisk = PropString (prop_of conf (str ''ramdisk''));
         cfg = \<lparr>cDescription = [], ImageList = [], BaseAddr = 0, NextAddr = 0\<rparr>;
         cfg = parseImage f kernel cfg;
         cfg = parseImage f fdt cfg;
         cfg = parseImage f ramdisk cfg
       in Inr (f\<lparr>Configs := AList.update whichconf cfg (Configs f)\<rparr>))))"

text \<open>The body of the loop over the images.\<close>

definition parse_image :: "node \<Rightarrow> Fit \<Rightarrow> panic + Fit" where
  "parse_image img f =
     and_then (getProperty (Some img) (str ''description'')) (\<lambda>description.
     and_then (getProperty (Some img) (str ''type'')) (\<lambda>typ.
     and_then (getProperty (Some img) (str ''arch'')) (\<lambda>arch.
     and_then (getProperty (Some img) (str ''compression'')) (\<lambda>compression.
     and_then (getProperty (Some img) (str ''data'')) (\<lambda>data. (let
       i = \<lparr>iName = nName img, iDescription = PropString description, iType = PropString typ, iArch = PropString arch,
            iOs = PropString (prop_of img (str ''os'')), iCompression = PropString compression, LoadAddr = 0, iData = data\<rparr>
     in and_then (validateHashes (fdt f) img i) (\<lambda>_. (let
       load = PropUint32Slice (IsLittleEndian (fdt f)) (prop_of img (str ''load''));
       i = (if load \<noteq> [] then i\<lparr>LoadAddr := ucast (hd load)\<rparr> else i)
     in Inr (f\<lparr>Images := AList.update (nName img) i (Images f)\<rparr>)))))))))"

definition is_conf :: "node \<Rightarrow> bool" where
  "is_conf c \<longleftrightarrow> nName c = str ''conf'' \<or> prefix (str ''conf@'') (nName c)"

definition fit_of_tree :: "Tree \<Rightarrow> panic + Fit" where
  "fit_of_tree t =
     and_then (getProperty (RootNode t) (str ''description'')) (\<lambda>description.
     and_then (getProperty (RootNode t) (str ''#address-cells'')) (\<lambda>cells.
     and_then (checked (PropUint32 (IsLittleEndian t) cells)) (\<lambda>cells.
     and_then (getProperty (RootNode t) (str ''timestamp'')) (\<lambda>timestamp.
     and_then (checked (PropUint32 (IsLittleEndian t) timestamp)) (\<lambda>timestamp.
     and_then (child_of (RootNode t) (str ''images'')) (\<lambda>images.
     and_then (checked images) (\<lambda>images.
     and_then (each (\<lambda>(k, img). parse_image img) (nChildren images)
       \<lparr>fdt = t, Description = PropString description, AddressCells = cells, TimeStamp = uint timestamp, DefaultConfig = [], Images = [], Configs = []\<rparr>) (\<lambda>f.
     and_then (child_of (RootNode t) (str ''configurations'')) (\<lambda>conf.
     and_then (getProperty conf (str ''default'')) (\<lambda>def.
     and_then (checked conf) (\<lambda>conf.
     each (\<lambda>(k, c) f. if is_conf c then parseConfiguration (nName c) f else Inr f) (nChildren conf)
       (f\<lparr>DefaultConfig := PropString def\<rparr>))))))))))))"

definition Parse_fit :: "slice \<Rightarrow> panic + Fit" where
  "Parse_fit b =
     and_then (checked (Parse \<lparr>header = no_header, IsLittleEndian = False, RootNode = None\<rparr> b)) (\<lambda>(err, t).
     case err of Some e \<Rightarrow> Inl (BadTree e) | None \<Rightarrow> fit_of_tree t)"

subsection \<open>What a parsed image tree has been checked for\<close>

lemma and_then_Inr [simp]: "and_then r f = Inr y \<longleftrightarrow> (\<exists>x. r = Inr x \<and> f x = Inr y)"
  by (cases r) (auto simp: and_then_def)

lemma checked_Inr [simp]: "checked r = Inr x \<longleftrightarrow> r = Some x"
  by (cases r) (auto simp: checked_def)

lemma getProperty_Inr [simp]: "getProperty (Some n) k = Inr v \<longleftrightarrow> map_of (nProps n) k = Some v"
  by (auto simp: getProperty_def and_then_def checked_def split: option.splits)

lemma each_all: "each f xs s = Inr s' \<Longrightarrow> x \<in> set xs \<Longrightarrow> \<exists>t t'. f x t = Inr t'"
  by (induction xs arbitrary: s) auto

text \<open>A loop that stores a value under the key of every element it selects.\<close>

lemma each_stores:
  assumes "each f xs s = Inr s'" "distinct (map key xs)" "R s"
    and step: "\<And>x t t'. x \<in> set xs \<Longrightarrow> R t \<Longrightarrow> f x t = Inr t' \<Longrightarrow>
      R t' \<and> (if sel x then \<exists>v. Q x v \<and> m t' = (m t)(key x \<mapsto> v) else m t' = m t)"
  shows "R s' \<and> (\<forall>x \<in> set xs. sel x \<longrightarrow> (\<exists>v. Q x v \<and> m s' (key x) = Some v)) \<and> (\<forall>k. k \<notin> key ` set xs \<longrightarrow> m s' k = m s k)"
  using assms(1-3) step
proof (induction xs arbitrary: s)
  case (Cons x xs)
  then obtain t where t: "f x s = Inr t" "each f xs t = Inr s'" by auto
  from Cons.prems(4) [OF _ Cons.prems(3) t(1)]
  have r: "R t" and v: "if sel x then \<exists>v. Q x v \<and> m t = (m s)(key x \<mapsto> v) else m t = m s" by auto
  have ih: "R s' \<and> (\<forall>x \<in> set xs. sel x \<longrightarrow> (\<exists>v. Q x v \<and> m s' (key x) = Some v)) \<and> (\<forall>k. k \<notin> key ` set xs \<longrightarrow> m s' k = m t k)"
    using Cons.IH [OF t(2) _ r] Cons.prems(2,4) by auto
  have k: "key x \<notin> key ` set xs" using Cons.prems(2) by auto
  show ?case using ih v k by (auto split: if_splits)
qed simp

text \<open>In a parsed tree the children of a node are stored under their names.\<close>

fun keyed :: "node \<Rightarrow> bool" where
  "keyed (Node nm d ps cs) \<longleftrightarrow> distinct (map fst cs) \<and> list_all (\<lambda>(k, c). k = nName c \<and> keyed c) cs"

lemma keyed_simp [simp]: "keyed (add_prop k v n) = keyed n"
  by (cases n) (simp add: add_prop_def)

lemma keyed_update: "list_all (\<lambda>(k, c). k = nName c \<and> keyed c) cs \<Longrightarrow> keyed c \<Longrightarrow>
  list_all (\<lambda>(k, c). k = nName c \<and> keyed c) (AList.update (nName c) c cs)"
  by (induction cs) auto

lemma keyed_add_child: "keyed p \<Longrightarrow> keyed c \<Longrightarrow> keyed (add_child c p)"
  by (cases p) (simp add: add_child_def keyed_update distinct_update)

lemma parse_loop_keyed:
  "parse_loop le h b cur st rt = Some (st', rt') \<Longrightarrow> list_all keyed st \<Longrightarrow> pred_option keyed rt \<Longrightarrow> pred_option keyed rt'"
proof (induction le h b cur st rt rule: parse_loop.induct)
  case (1 le h b cur st rt)
  note e = "1.prems"(1) [unfolded parse_loop.simps [of le h b cur]]
  from e obtain tag i where c: "getCell le (sbytes b) cur = Some (tag, i)" by (auto simp: bind_eq_Some_conv)
  note e = e [unfolded c bind.simps prod.case]
  note IH = "1.IH" [OF c refl]
  consider "tag = 9" | "tag = 1" | "tag = 2" | "tag = 3" | "tag \<noteq> 9" "tag \<noteq> 1" "tag \<noteq> 2" "tag \<noteq> 3" by blast
  then show ?case
  proof cases
    case 1
    then show ?thesis using e "1.prems" by simp
  next
    case 2
    obtain name l where n: "node_name (drop i (sbytes b)) = (name, l)" by fastforce
    show ?thesis using e 2 n IH(1) [OF _ _ n [symmetric] refl] "1.prems"(2,3) by simp
  next
    case 3
    then show ?thesis
      using e IH(2,3) "1.prems"(2,3) by (simp add: keyed_add_child split: list.splits)
  next
    case 4
    show ?thesis
    proof (cases st)
      case Nil
      then show ?thesis using e 4 by (auto simp: bind_eq_Some_conv)
    next
      case (Cons n ns)
      from e 4 Cons show ?thesis
        using IH(4) "1.prems"(2,3) by (simp add: bind_eq_Some_conv) (elim exE conjE, simp)
    qed
  next
    case 5
    then show ?thesis using e IH(5) "1.prems"(2,3) by simp
  qed
qed

text \<open>A hash node accepts the data: it names no algorithm that is checked, or holds its sum.\<close>

definition hash_ok :: "node \<Rightarrow> bytes \<Rightarrow> bool" where
  "hash_ok c d \<longleftrightarrow> (\<exists>algo value. map_of (nProps c) (str ''algo'') = Some algo \<and> map_of (nProps c) (str ''value'') = Some value \<and>
     (let a = PropString algo in (a = str ''sha1'' \<longrightarrow> value = sha1 d) \<and> (a = str ''md5'' \<longrightarrow> value = md5 d) \<and>
        (a = str ''crc32'' \<longrightarrow> PropUint32 False value = Some (ChecksumIEEE d))))"

lemma validateHash_ok: "\<not> IsLittleEndian t \<Longrightarrow> validateHash t c i = Inr u \<Longrightarrow> hash_ok c (iData i)"
  unfolding validateHash_def hash_ok_def Let_def
  by (elim exE conjE and_then_Inr [THEN iffD1, elim_format]) (auto split: if_splits simp: str_def)

lemma validateHashes_ok: "\<not> IsLittleEndian t \<Longrightarrow> validateHashes t n i = Inr u \<Longrightarrow> (k, c) \<in> set (nChildren n) \<Longrightarrow> is_hash c \<Longrightarrow> hash_ok c (iData i)"
  unfolding validateHashes_def by (drule each_all, assumption) (auto intro: validateHash_ok)

definition image_ok :: "node \<Rightarrow> Image \<Rightarrow> bool" where
  "image_ok n i \<longleftrightarrow> iName i = nName n \<and> map_of (nProps n) (str ''data'') = Some (iData i) \<and>
     (\<forall>(k, c) \<in> set (nChildren n). is_hash c \<longrightarrow> hash_ok c (iData i))"

lemma parse_image_ok:
  assumes "parse_image n f = Inr f'" "\<not> IsLittleEndian (fdt f)"
  shows "\<exists>i. f' = f\<lparr>Images := AList.update (nName n) i (Images f)\<rparr> \<and> image_ok n i"
  using assms unfolding parse_image_def Let_def and_then_Inr getProperty_Inr sum.inject
  by (elim exE conjE) (rule exI, rule conjI, erule sym, auto simp: image_ok_def dest: validateHashes_ok)

lemma AList_update_map: "map_of (AList.update k v xs) = (map_of xs)(k \<mapsto> v)"
  by (rule update_conv')

lemma parseConfiguration_ok:
  assumes "parseConfiguration w f = Inr f'"
  shows "\<exists>r conf c cfg. RootNode (fdt f) = Some r \<and> map_of (nChildren r) (str ''configurations'') = Some conf \<and> map_of (nChildren conf) w = Some c \<and>
    f' = f\<lparr>Configs := AList.update w cfg (Configs f)\<rparr> \<and>
    ImageList cfg = map (\<lambda>k. map_of (Images f) (PropString (prop_of c (str k)))) [''kernel'', ''fdt'', ''ramdisk'']"
  using assms unfolding parseConfiguration_def child_of_def and_then_Inr checked_Inr sum.inject
  by (auto simp: parseImage_def Let_def split: option.splits) (rule exI, rule conjI, rule refl, simp)

lemma keyed_child: "keyed n \<Longrightarrow> map_of (nChildren n) k = Some c \<Longrightarrow> keyed c"
  by (cases n) (auto dest: map_of_SomeD simp: list_all_iff)

lemma keyed_names: "keyed n \<Longrightarrow> distinct (map (\<lambda>(k, c). nName c) (nChildren n))"
proof (cases n)
  case (Node nm d ps cs)
  assume "keyed n"
  moreover from this Node have "map (\<lambda>(k, c). nName c) cs = map fst cs" by (auto simp: list_all_iff)
  ultimately show ?thesis using Node by (metis keyed.simps node.sel(4))
qed

lemma each_images:
  assumes "each (\<lambda>(k, n). parse_image n) (nChildren ns) f = Inr f'" "keyed ns" "\<not> IsLittleEndian (fdt f)"
  shows "fdt f' = fdt f \<and> (\<forall>(k, n) \<in> set (nChildren ns). \<exists>i. image_ok n i \<and> map_of (Images f') (nName n) = Some i)"
proof -
  have "(\<lambda>f'. fdt f' = fdt f) f' \<and>
    (\<forall>x \<in> set (nChildren ns). True \<longrightarrow> (\<exists>i. (\<lambda>(k, n). image_ok n) x i \<and> map_of (Images f') ((\<lambda>(k, n). nName n) x) = Some i)) \<and>
    (\<forall>k. k \<notin> (\<lambda>(k, n). nName n) ` set (nChildren ns) \<longrightarrow> map_of (Images f') k = map_of (Images f) k)"
    by (rule each_stores [OF assms(1) keyed_names [OF assms(2)]])
      (use assms(3) in \<open>auto dest!: parse_image_ok simp: AList_update_map split: prod.splits\<close>)
  then show ?thesis by (auto simp: split_beta)
qed

lemma each_configs:
  assumes "each (\<lambda>(k, c) f. if is_conf c then parseConfiguration (nName c) f else Inr f) (nChildren conf) f = Inr f'" "keyed conf"
    and "RootNode (fdt f) = Some r" "map_of (nChildren r) (str ''configurations'') = Some conf"
  shows "fdt f' = fdt f \<and> Images f' = Images f \<and> (\<forall>(k, c) \<in> set (nChildren conf). is_conf c \<longrightarrow>
    (\<exists>cfg. ImageList cfg = map (\<lambda>k. map_of (Images f) (PropString (prop_of c (str k)))) [''kernel'', ''fdt'', ''ramdisk''] \<and>
       map_of (Configs f') (nName c) = Some cfg))"
proof -
  have n: "(k, c) \<in> set (nChildren conf) \<Longrightarrow> map_of (nChildren conf) (nName c) = Some c" for k c
    using assms(2) by (cases conf) (auto simp: list_all_iff)
  have "(\<lambda>f'. fdt f' = fdt f \<and> Images f' = Images f) f' \<and>
    (\<forall>x \<in> set (nChildren conf). is_conf (snd x) \<longrightarrow> (\<exists>cfg. (\<lambda>(k, c) cfg. ImageList cfg =
       map (\<lambda>k. map_of (Images f) (PropString (prop_of c (str k)))) [''kernel'', ''fdt'', ''ramdisk'']) x cfg \<and>
       map_of (Configs f') ((\<lambda>(k, c). nName c) x) = Some cfg)) \<and>
    (\<forall>k. k \<notin> (\<lambda>(k, c). nName c) ` set (nChildren conf) \<longrightarrow> map_of (Configs f') k = map_of (Configs f) k)"
  proof (rule each_stores [OF assms(1)])
    fix x g g' assume x: "x \<in> set (nChildren conf)" and g: "fdt g = fdt f \<and> Images g = Images f"
      and s: "(case x of (k, c) \<Rightarrow> \<lambda>f. if is_conf c then parseConfiguration (nName c) f else Inr f) g = Inr g'"
    obtain k c where [simp]: "x = (k, c)" by (cases x)
    show "(fdt g' = fdt f \<and> Images g' = Images f) \<and> (if is_conf (snd x) then \<exists>cfg. (case x of (k, c) \<Rightarrow> \<lambda>cfg. ImageList cfg =
       map (\<lambda>k. map_of (Images f) (PropString (prop_of c (str k)))) [''kernel'', ''fdt'', ''ramdisk'']) cfg \<and>
       map_of (Configs g') = (map_of (Configs g))((case x of (k, c) \<Rightarrow> nName c) \<mapsto> cfg)
     else map_of (Configs g') = map_of (Configs g))"
    proof (cases "is_conf c")
      case True
      then have "parseConfiguration (nName c) g = Inr g'" using s by simp
      from parseConfiguration_ok [OF this] obtain cfg where
        "g' = g\<lparr>Configs := AList.update (nName c) cfg (Configs g)\<rparr>"
        "ImageList cfg = map (\<lambda>k. map_of (Images f) (PropString (prop_of c (str k)))) [''kernel'', ''fdt'', ''ramdisk'']"
        using x g assms(3,4) n [of k c] by auto
      then show ?thesis using True g by (auto simp: AList_update_map)
    qed (use s g in simp)
  qed (use keyed_names [OF assms(2)] in simp_all)
  then show ?thesis by (auto simp: split_beta)
qed

lemma Parse_keyed: "Parse t b = Some (e, t') \<Longrightarrow> RootNode t = None \<Longrightarrow> pred_option keyed (RootNode t') \<and> IsLittleEndian t' = IsLittleEndian t"
  unfolding Parse_def Let_def by (auto simp: bind_eq_Some_conv dest!: parse_loop_keyed)

lemma Parse_fit_images:
  assumes "Parse_fit b = Inr f"
  shows "Parse \<lparr>header = no_header, IsLittleEndian = False, RootNode = None\<rparr> b = Some (None, fdt f) \<and> (\<exists>r ns conf. RootNode (fdt f) = Some r \<and> keyed r \<and>
     map_of (nChildren r) (str ''images'') = Some ns \<and> map_of (nChildren r) (str ''configurations'') = Some conf \<and>
     (\<forall>(k, n) \<in> set (nChildren ns). \<exists>i. image_ok n i \<and> map_of (Images f) (nName n) = Some i) \<and>
     (\<forall>(k, c) \<in> set (nChildren conf). is_conf c \<longrightarrow>
       (\<exists>cfg. ImageList cfg = map (\<lambda>k. map_of (Images f) (PropString (prop_of c (str k)))) [''kernel'', ''fdt'', ''ramdisk''] \<and>
         map_of (Configs f) (nName c) = Some cfg)))"
proof -
  from assms have "\<exists>t r ns conf d c ts df g.
    Parse \<lparr>header = no_header, IsLittleEndian = False, RootNode = None\<rparr> b = Some (None, t) \<and> RootNode t = Some r \<and>
    map_of (nChildren r) (str ''images'') = Some ns \<and>
    each (\<lambda>(k, n). parse_image n) (nChildren ns)
      \<lparr>fdt = t, Description = d, AddressCells = c, TimeStamp = ts, DefaultConfig = [], Images = [], Configs = []\<rparr> = Inr g \<and>
    map_of (nChildren r) (str ''configurations'') = Some conf \<and>
    each (\<lambda>(k, c) f. if is_conf c then parseConfiguration (nName c) f else Inr f) (nChildren conf) (g\<lparr>DefaultConfig := df\<rparr>) = Inr f"
    unfolding Parse_fit_def fit_of_tree_def child_of_def
    by (auto split: option.splits simp: getProperty_def) (intro exI conjI, assumption+)
  then obtain t r ns conf d c ts df g where p:
    "Parse \<lparr>header = no_header, IsLittleEndian = False, RootNode = None\<rparr> b = Some (None, t)"
    "RootNode t = Some r" "map_of (nChildren r) (str ''images'') = Some ns"
    "each (\<lambda>(k, n). parse_image n) (nChildren ns)
      \<lparr>fdt = t, Description = d, AddressCells = c, TimeStamp = ts, DefaultConfig = [], Images = [], Configs = []\<rparr> = Inr g"
    and conf: "map_of (nChildren r) (str ''configurations'') = Some conf"
    and q: "each (\<lambda>(k, c) f. if is_conf c then parseConfiguration (nName c) f else Inr f) (nChildren conf) (g\<lparr>DefaultConfig := df\<rparr>) = Inr f"
    by blast
  have k: "keyed r" "\<not> IsLittleEndian t" using Parse_keyed [OF p(1)] p(2) by auto
  have i: "fdt g = t" "\<forall>(k, n) \<in> set (nChildren ns). \<exists>i. image_ok n i \<and> map_of (Images g) (nName n) = Some i"
    using each_images [OF p(4) keyed_child [OF k(1) p(3)]] k(2) by auto
  show ?thesis
    using each_configs [OF q keyed_child [OF k(1) conf] _ conf] p(1-3) i k(1) conf by auto
qed

lemma fdt_align_le: "fdt_align x \<le> x + 3"
  unfolding fdt_align_def by presburger

text \<open>The room a node takes in the two blocks, at most.\<close>

fun node_room :: "node \<Rightarrow> nat" where
  "node_room (Node nm d ps cs) = 12 + length nm + (\<Sum>(k, v) \<leftarrow> ps. 16 + length k + length v) + (\<Sum>(k, c) \<leftarrow> cs. node_room c)"

lemma put_props_room: "length (fst (put_props le b s ps)) + length (snd (put_props le b s ps))
  \<le> length b + length s + (\<Sum>(k, v) \<leftarrow> ps. 16 + length k + length v)"
proof (induction ps arbitrary: b s)
  case (Cons p ps)
  obtain k v where p: "p = (k, v)" by (cases p)
  have "length (prop_cells le b s v) \<le> length b + length v + 15"
    using fdt_align_le [of "length b + (12 + length v)"] by (simp add: prop_cells_def)
  then show ?case
    using Cons.IH [of "prop_cells le b s v" "s @ k @ [0]"] by (simp add: p put_props_Cons)
qed simp

lemma putNode_room:
  "length (fst (putNode le b s n)) + length (snd (putNode le b s n)) \<le> length b + length s + node_room n"
  "length (fst (putNodes le b s cs)) + length (snd (putNodes le b s cs)) \<le> length b + length s + (\<Sum>(k, c) \<leftarrow> cs. node_room c)"
proof (induction le b s n and le b s cs rule: putNode_putNodes.induct)
  case (1 le b s nm d ps cs)
  have o: "length (open_node le b nm) \<le> length b + length nm + 8"
    using fdt_align_le [of "length b + (5 + (if nm \<noteq> str ''/'' then length nm else 0))"] by (auto simp: open_node_def split: if_splits)
  obtain b1 s1 where p: "put_props le (open_node le b nm) s ps = (b1, s1)" by fastforce
  obtain b2 s2 where c: "putNodes le b1 s1 cs = (b2, s2)" by fastforce
  have "length b2 + length s2 \<le> length b1 + length s1 + (\<Sum>(k, c) \<leftarrow> cs. node_room c)"
    using "1.IH" [OF refl refl refl refl, of b1 s1] p c by (cases "nm = str ''/''") (simp_all add: open_node_def putCell_def)
  then show ?case
    using o put_props_room [of le "open_node le b nm" s ps] p c by (simp add: putNode_Node)
next
  case (3 le b s k c cs)
  obtain b1 s1 where p: "putNode le b s c = (b1, s1)" by fastforce
  then show ?case using "3.IH"(1) "3.IH"(2) [OF p [symmetric] refl] by simp
qed simp


text \<open>C40: When an image tree is accepted, every image node of it is kept under its name, with its data, and every hash node below it
  that names SHA-1, MD5 or CRC-32 holds that sum of the data.\<close>

theorem Parse_fit_verified:
  assumes "Parse_fit b = Inr f"
  shows "Parse \<lparr>header = no_header, IsLittleEndian = False, RootNode = None\<rparr> b = Some (None, fdt f) \<and> (\<exists>r ns. RootNode (fdt f) = Some r \<and> map_of (nChildren r) (str ''images'') = Some ns \<and>
    (\<forall>(k, n) \<in> set (nChildren ns). \<exists>i. map_of (Images f) (nName n) = Some i \<and> iName i = nName n \<and>
      map_of (nProps n) (str ''data'') = Some (iData i) \<and>
      (\<forall>(j, c) \<in> set (nChildren n). is_hash c \<longrightarrow> (\<exists>algo value.
         map_of (nProps c) (str ''algo'') = Some algo \<and> map_of (nProps c) (str ''value'') = Some value \<and>
         (PropString algo = str ''sha1'' \<longrightarrow> value = sha1 (iData i)) \<and> (PropString algo = str ''md5'' \<longrightarrow> value = md5 (iData i)) \<and>
         (PropString algo = str ''crc32'' \<longrightarrow> PropUint32 False value = Some (ChecksumIEEE (iData i)))))))"
  using Parse_fit_images [OF assms] by (fastforce simp: image_ok_def hash_ok_def Let_def)

definition fit_root :: node where
  "fit_root = Node (str ''/'') 1 [(str ''description'', str ''d''), (str ''#address-cells'', [0, 0, 0, 1]), (str ''timestamp'', [0, 0, 0, 5])]
     [(str ''images'', Node (str ''images'') 2 []
        [(str ''k@1'', Node (str ''k@1'') 3 [(str ''description'', str ''k''), (str ''type'', str ''kernel''), (str ''arch'', str ''arm''),
             (str ''compression'', str ''none''), (str ''data'', str ''a'')]
           [(str ''hash@1'', Node (str ''hash@1'') 4 [(str ''algo'', str ''crc32'' @ [0]), (str ''value'', [0xe8, 0xb7, 0xbe, 0x43])] [])])]),
      (str ''configurations'', Node (str ''configurations'') 2 [(str ''default'', str ''conf@1'')]
        [(str ''conf@1'', Node (str ''conf@1'') 3 [(str ''kernel'', str ''k@1'' @ [0])] [])])]"

definition fit_blob :: bytes where
  "fit_blob = the (FlattenTreeToSlice \<lparr>header = no_header, IsLittleEndian = False, RootNode = Some fit_root\<rparr>)"

lemma fit_of_fit_root: "\<not> isl (fit_of_tree \<lparr>header = h, IsLittleEndian = False, RootNode = Some fit_root\<rparr>)"
  by code_simp

lemma length_flattened:
  "FlattenTreeToSlice t = Some buf \<Longrightarrow> RootNode t = Some n \<Longrightarrow> length buf \<le> 63 + node_room n"
proof -
  assume a: "FlattenTreeToSlice t = Some buf" "RootNode t = Some n"
  obtain b s where p: "putNode (IsLittleEndian t) [] [] n = (b, s)" by fastforce
  have "length buf = 60 + length b + fdt_align (length s)"
    using a p by (auto simp: FlattenTreeToSlice_def Let_def putCell_def headerLen_def)
  then show ?thesis
    using putNode_room(1) [of "IsLittleEndian t" "[]" "[]" n] fdt_align_le [of "length s"] p by simp
qed

lemma fit_blob_parses: "\<exists>h. Parse \<lparr>header = no_header, IsLittleEndian = False, RootNode = None\<rparr> (Slice fit_blob (length fit_blob)) =
  Some (None, \<lparr>header = h, IsLittleEndian = False, RootNode = Some fit_root\<rparr>)"
proof -
  let ?t = "\<lparr>header = no_header, IsLittleEndian = False, RootNode = Some fit_root\<rparr>"
  have b: "FlattenTreeToSlice ?t = Some fit_blob"
    by (auto simp: fit_blob_def FlattenTreeToSlice_def Let_def split: prod.splits)
  have "length fit_blob < 2 ^ 32"
    using length_flattened [OF b] by (simp add: fit_root_def str_def)
  moreover have "node_ok 1 fit_root"
    by (simp add: fit_root_def str_def)
  ultimately show ?thesis
    using parse_flattened [OF b, of fit_root "\<lparr>header = no_header, IsLittleEndian = False, RootNode = None\<rparr>"] by auto
qed

lemma Parse_fit_verified_witness:
  "\<exists>f i. Parse_fit (Slice fit_blob (length fit_blob)) = Inr f \<and> map_of (Images f) (str ''k@1'') = Some i \<and> iData i = str ''a''"
proof -
  from fit_blob_parses obtain h where p: "Parse \<lparr>header = no_header, IsLittleEndian = False, RootNode = None\<rparr> (Slice fit_blob (length fit_blob)) =
    Some (None, \<lparr>header = h, IsLittleEndian = False, RootNode = Some fit_root\<rparr>)" by blast
  obtain f where f: "fit_of_tree \<lparr>header = h, IsLittleEndian = False, RootNode = Some fit_root\<rparr> = Inr f"
    using fit_of_fit_root [of h] by (cases "fit_of_tree \<lparr>header = h, IsLittleEndian = False, RootNode = Some fit_root\<rparr>") auto
  then have r: "Parse_fit (Slice fit_blob (length fit_blob)) = Inr f"
    by (simp add: Parse_fit_def p)
  have e: "fdt f = \<lparr>header = h, IsLittleEndian = False, RootNode = Some fit_root\<rparr>"
    using Parse_fit_verified [OF r] p by simp
  obtain ns where "map_of (nChildren fit_root) (str ''images'') = Some ns"
    and "\<forall>(k, n) \<in> set (nChildren ns). \<exists>i. map_of (Images f) (nName n) = Some i \<and> map_of (nProps n) (str ''data'') = Some (iData i)"
    using Parse_fit_verified [OF r] e by (simp add: split_beta) blast
  then show ?thesis
    using r by (auto simp: fit_root_def str_def)
qed

end
