(* ===== verification/Spec2Isabelle.thy ===== *)
theory Spec2Isabelle
  imports Bits Bitmap_Vec Bitmap_Pool Sparse_Index Pool Heap Hash_Table Ip4_Prefix Mtrie Fib Checksum Counter Next_Hops
    Multipath Shell Options Netlink Rtnl If_Address Eeprom Nl_Socket Fdt Fit
begin

text \<open>
  \<^bold>\<open>Verification of the data plane and the utility core of sbpopade/auto (src/goes)\<close>

  The repository is a router: \<open>elib\<close> holds data structures, \<open>vnet\<close> the packet processing on top of them, \<open>goes\<close>
  and \<open>internal\<close> the embedded system's commands and the libraries they share. This development models the data
  structures, the IPv4 forwarding tables and adjacencies, and the parsers of the command language.

  \<^bold>\<open>Conventions\<close> (theory \<open>Go_Prelude\<close>). A function that may panic is a function into an option, \<open>None\<close> being the
  panic; Go errors are values. Integers are words of their width where they wrap, for a 64-bit machine; where a bound
  excludes wrapping, or the wrapping is written out, they are naturals. A slice that nobody else holds is a list; what an
  operation changes in place is returned updated. \<open>do\<close> chains the steps of a function in the order of the code.

  \<^bold>\<open>Parts\<close>

  \<^item> \<open>Bits\<close> (elib/bits.go, elib/cap.go): population count, leading zeros, logarithms and powers of two, iteration over
    set bits, standard capacities. The theorems give the arithmetic meaning of the bit tricks.
  \<^item> \<open>Bitmap_Vec\<close>, \<open>Bitmap_Pool\<close> (elib/bitmap.go): bitmaps as vectors of words, and the pooled bitmaps which
    are a word when small and a pool index otherwise. The invariant \<open>keeps\<close> says that no two live bitmaps share storage; set and
    reset are refined to insertion and removal of a member.
  \<^item> \<open>Sparse_Index\<close> (elib/sparse.go): sparse indices mapped to their rank.
  \<^item> \<open>Pool\<close> (elib/pool.go and the typed pools generated from pool.tmpl): index allocation. Its locale states the contract of
    an allocator of indices and is interpreted on the typed pools; \<open>Mtrie\<close> and \<open>Multipath\<close> keep their plies and multipaths
    in such pools.
  \<^item> \<open>Heap\<close> (elib/heap.go): allocation of blocks of indices, with two faults shown on short histories.
  \<^item> \<open>Hash_Table\<close> (elib/hash.go): the hash function, the table with buckets of bit differences, growth and rehashing.
    The invariant \<open>hinv\<close> ties keys to slots; get, set and unset are exact on the set of stored keys.
  \<^item> \<open>Ip4_Prefix\<close> (vnet/ip4/packet.go, fib.go, vnet/byte_order.go): addresses, masks, and the FIB of 33 maps by
    prefix length, interpreted as a table of routes.
  \<^item> \<open>Mtrie\<close> (vnet/ip4/mtrie.go): the 8-8-8-8 trie of plies, and \<open>Fib\<close> (vnet/ip4/fib.go): both tables together, with
    the theorem that they agree and the two families of routes for which they do not.
  \<^item> \<open>Checksum\<close> (vnet/ip/checksum.go, header writing in vnet/ip4 and vnet/icmp4): ones' complement sums and the verification of
    what is written.
  \<^item> \<open>Counter\<close> (vnet/counter.go): the split counters as totals since the last clear.
  \<^item> \<open>Next_Hops\<close>, \<open>Multipath\<close> (vnet/ip/adjacency.go, vnet/rewrite.go): weighted next hops and their normalization to a
    power of two, the adjacency table over typed heaps, creation, sharing, replacement and release of multipaths.
  \<^item> \<open>Shell\<close> (internal/shellutils, pizza, nocomment) and \<open>Options\<close> (internal/flags, parms, cmdline): command lines and
    their options.
  \<^item> \<open>Netlink\<close> (internal/nl): attributes, nested attributes and messages as bytes, what is written parsing back;
    \<open>Rtnl\<close> (internal/nl, internal/nl/rtnl, cmd/ip/monitor): the receiver and its request loop, the interface maps, and the
    byte layouts of rtnetlink values, two of which are wrong.
  \<^item> \<open>If_Address\<close> (vnet/ip/interface.go, fib.go, ip.go): the doubly linked lists of interface addresses in their pool, FIB
    indices and generic prefixes. The invariant \<open>if_inv\<close> says the lists are well linked, disjoint and allocated.
  \<^item> \<open>Eeprom\<close> (internal/eeprom): the EEPROM of the board as an array of bytes with a header and typed fields;
    \<open>stored\<close> says that it holds a well-formed image, which reading, writing and deleting are related to.
  \<^item> \<open>Nl_Attr\<close>, \<open>Nl_Msg\<close>, \<open>Nl_Socket\<close> (internal/netlink: attr.go, msg.go, socket.go): the second netlink package. \<open>Nl_Attr\<close> has
    the attribute values, their \<open>Size\<close> and \<open>Set\<close> into a part of a buffer, and the parsers; \<open>Nl_Msg\<close> the messages with
    \<open>Read\<close> and \<open>Write\<close>; \<open>Nl_Socket\<close> the loops of the receiver and the transmitter and \<open>Listen\<close>. The locale
    \<open>attr_codec\<close> states what a message's loop must do with the values it is sent (read back what was set, whatever
    lies behind), proves that a vector of them survives, and is interpreted for each kind of message; the round trip through both loops
    follows. A header of length 0, unterminated strings and hidden link data are stated as they are.
  \<^item> \<open>Fdt\<close>, \<open>Fit\<close> (internal/fdt/fdt.go, internal/fit/fit.go): flattened device trees, their parser, walks and flattening, with the round
    trip, and the image trees in them, whose accepted images are shown to match their hashes. A Go map is a list of pairs in the order of
    the range statements. SHA-1 and MD5 of the standard library are written out.

  \<^bold>\<open>Parameters\<close>. Capacities chosen in floating point (\<open>NextResizeCap\<close>, \<open>NextUnit\<close>), the stream of random seeds, and the
  rounding of \<open>float64\<close> in the normalization are parameters; the theorems say what they need of them (a capacity at least the
  length, a monotone rounding that fixes 0).

  \<^bold>\<open>Fuel\<close>. The trie has 4 levels, and its functions get that bound; the growth loop of the hash table, the
  normalization and the resolution of multipaths take a bound on their rounds, whose end is \<open>None\<close>. That the bounds suffice is proved
  where the code's termination depends on it: a set with room needs one round, and normalization with exact arithmetic at most 9.

  \<^bold>\<open>Not modelled\<close>. The free bitmap of a pool is a set (the code keeps it in a pooled bitmap, which for the pool of
  bitmaps itself is a recursion). The hash table of next hops is a map in \<open>Multipath\<close>. The reachability bookkeeping of IPv4 next
  hops, interfaces, ARP, IPv6, packet buffers, the node loop, the event log, the CLI and the device drivers, and the commands, which are
  system calls, files and hardware registers, are left out; runes above U+00FF are not characters of the shell model.
\<close>

end
